(* ===== verification/Prelude.thy ===== *)
theory Prelude
  imports Main "HOL-Library.Word" "HOL-Library.Monad_Syntax"
begin

text \<open>
  Shared vocabulary of the development: the machine integers of the firmware as fixed-width
  words, bounds-checked stores into caller-owned arrays, and the arithmetic facts about
  free-running counters that the ring buffers, the timers and the framing code all use.

  An array that the code writes through a pointer is a list; a store is \<open>put\<close>, which is
  \<open>None\<close> when the index is outside the array (undefined behaviour in the C++).
  A result \<open>Some\<close> therefore says that every store of the routine was inside the buffer.
\<close>

unbundle bit_operations_syntax

type_synonym u8 = "8 word"
type_synonym u16 = "16 word"
type_synonym u32 = "32 word"

named_theorems buf_simps
named_theorems wrap_simps

subsection \<open>Bounds-checked stores\<close>

definition put :: "'a list \<Rightarrow> nat \<Rightarrow> 'a \<Rightarrow> 'a list option" where
  "put buf i v = (if i < length buf then Some (buf[i := v]) else None)"

lemma put_Some_iff [buf_simps]: "put buf i v = Some b \<longleftrightarrow> i < length buf \<and> b = buf[i := v]"
  by (auto simp: put_def)

lemma put_in_range [buf_simps]: "i < length buf \<Longrightarrow> put buf i v = Some (buf[i := v])"
  by (simp add: put_def)

lemma list_update_mid [buf_simps]: "(xs @ y # zs)[length xs := v] = xs @ v # zs"
  by (induction xs) auto

lemma list_update_mid2 [buf_simps]:
  "(xs @ x # y # zs)[Suc (length xs) := v] = xs @ x # v # zs"
  by (induction xs) auto

text \<open>A store just behind a written prefix extends the prefix.\<close>

lemma put_snoc:
  assumes "rest \<noteq> []"
  shows "put (pre @ rest) (length pre) v = Some ((pre @ [v]) @ tl rest)"
  using assms by (cases rest) (auto simp: put_def buf_simps)

subsection \<open>Free-running counters\<close>

lemma unat_lt: "unat (w :: 'w::len word) < 2 ^ LENGTH('w)"
  by simp

lemma unat_u8_lt: "unat (w :: u8) < 256"
  using unat_lt [of w] by simp

lemma unat_u16_lt: "unat (w :: u16) < 65536"
  using unat_lt [of w] by simp

lemma unat_u32_lt: "unat (w :: u32) < 4294967296"
  using unat_lt [of w] by simp

lemma unat_add_of_nat [wrap_simps]:
  fixes a :: "'w::len word"
  shows "unat (a + of_nat i) = (unat a + i) mod 2 ^ LENGTH('w)"
  by (simp add: unat_word_ariths unat_of_nat mod_add_right_eq)

lemma unat_diff_mod:
  fixes a b :: "'w::len word"
  shows "unat (a - b) = (unat a + 2 ^ LENGTH('w) - unat b) mod 2 ^ LENGTH('w)"
proof -
  have "unat b \<le> unat a + 2 ^ LENGTH('w)" by (simp add: less_imp_le trans_le_add2)
  then have "of_nat (unat a + 2 ^ LENGTH('w) - unat b) = a - b"
    by simp
  then show ?thesis by (metis unat_of_nat)
qed

text \<open>The distance between two free-running counters that are \<open>d\<close> apart.\<close>

lemma unat_distance:
  fixes t :: "'w::len word"
  assumes "d < 2 ^ LENGTH('w)"
  shows "unat ((t + of_nat d) - t) = d"
  using assms by (simp add: unat_of_nat)

lemma word_eq_offset:
  fixes a b :: "'w::len word"
  shows "a = b + of_nat (unat (a - b))"
  by simp

lemma unat_small_numeral_u8 [simp]: "unat (0xFF :: u8) = 255" "unat (0xFE :: u8) = 254"
  by simp_all

text \<open>
  The idiom \<open>(int32_t)(now - deadline) >= 0\<close> of the timers: the deadline has passed when the
  32-bit difference is non-negative as a signed number.
\<close>

definition passed :: "u32 \<Rightarrow> u32 \<Rightarrow> bool" where
  "passed now deadline \<longleftrightarrow> 0 \<le> sint (now - deadline)"

lemma sint_nonneg_iff_unat:
  fixes w :: u32
  shows "0 \<le> sint w \<longleftrightarrow> unat w < 2 ^ 31"
proof -
  have "bit w 31 \<longleftrightarrow> odd (unat w div 2 ^ 31)"
    using bit_iff_odd [of "unat w" 31] by (simp add: bit_unsigned_iff)
  moreover have "unat w < 2 ^ 32" using unat_lt [of w] by simp
  then have "unat w div 2 ^ 31 < 2" by (simp add: less_mult_imp_div_less)
  moreover have "0 \<le> sint w \<longleftrightarrow> \<not> bit w 31"
    by (simp add: sint_uint bit_unsigned_iff)
  ultimately show ?thesis
    by (auto simp: less_2_cases_iff div_eq_0_iff)
qed

text \<open>The low 32 bits of two times less than \<open>2 ^ 32\<close> apart tell their distance.\<close>

lemma elapsed:
  assumes "T \<le> t" "t < T + 2 ^ 32"
  shows "unat ((of_nat t :: u32) - of_nat T) = t - T"
proof -
  have "(of_nat t :: u32) - of_nat T = of_nat (t - T)" using assms(1) by (rule of_nat_diff [symmetric])
  moreover have "t - T < 2 ^ LENGTH(32)" using assms by simp
  ultimately show ?thesis by (simp only: unat_of_nat mod_less)
qed

lemma passed_iff:
  assumes "d < t + 2 ^ 31" "t < d + 2 ^ 31"
  shows "passed (of_nat t) (of_nat d) \<longleftrightarrow> d \<le> t"
proof (cases "d \<le> t")
  case True
  then have "unat ((of_nat t :: u32) - of_nat d) = t - d" using assms(2) by (intro elapsed) simp_all
  then show ?thesis using True assms(2) by (simp add: passed_def sint_nonneg_iff_unat)
next
  case False
  have e: "(of_nat (t + 2 ^ 32) :: u32) = of_nat t" by simp
  have "unat ((of_nat (t + 2 ^ 32) :: u32) - of_nat d) = t + 2 ^ 32 - d"
    by (rule elapsed) (use False assms(1) in simp_all)
  then have "unat ((of_nat t :: u32) - of_nat d) = t + 2 ^ 32 - d" unfolding e .
  then show ?thesis using False assms(1) by (simp add: passed_def sint_nonneg_iff_unat)
qed

end
