(* ===== verification/Scan.thy ===== *)
theory Scan
  imports Prelude
begin

text \<open>
  Scanning of a received command line, shared by the mode command and the MDIO command parser. The
  C++ walks a pointer \<open>p\<close> towards \<open>end\<close>; here the pointer is the list of characters in
  \<open>[p, end)\<close>, so \<open>p == end\<close> is the empty list and \<open>p++\<close> is \<open>tl\<close>.
\<close>

named_theorems scan_simps

definition is_ws :: "char \<Rightarrow> bool" where
  "is_ws c \<longleftrightarrow> c = CHR 0x20 \<or> c = CHR 0x09"

definition is_trail :: "char \<Rightarrow> bool" where
  "is_trail c \<longleftrightarrow> c = CHR 0x0D \<or> c = CHR 0x0A \<or> c = CHR 0x20 \<or> c = CHR 0x09"

text \<open>\<open>while (len && line[len-1] is one of CR LF SP TAB) len--\<close>\<close>

definition trim_end :: "string \<Rightarrow> string" where
  "trim_end line = rev (dropWhile is_trail (rev line))"

text \<open>\<open>while (p < end && is_ws(*p)) p++\<close>\<close>

definition skip_ws :: "string \<Rightarrow> string" where
  "skip_ws p = dropWhile is_ws p"

text \<open>
  \<open>while (p + i < end && kw[i] && p[i] == kw[i]) i++\<close>: what is left of the line and of the keyword
  when the loop stops.
\<close>

fun match_kw :: "string \<Rightarrow> string \<Rightarrow> string \<times> string" where
  "match_kw (c # p) (k # kw) = (if c = k then match_kw p kw else (c # p, k # kw))"
| "match_kw p kw = (p, kw)"

lemma match_kw_hit_iff: "snd (match_kw p kw) = [] \<longleftrightarrow> (\<exists>r. p = kw @ r)"
  by (induction p kw rule: match_kw.induct) auto

lemma match_kw_append [simp]: "match_kw (kw @ r) kw = (r, [])"
  by (induction kw) (cases r; simp)+

lemma match_kw_hitD: "match_kw p kw = (r, []) \<Longrightarrow> p = kw @ r"
  by (induction p kw rule: match_kw.induct) (auto split: if_splits)

lemma match_kw_hit: "match_kw p kw = (r, []) \<longleftrightarrow> p = kw @ r"
  by (auto dest: match_kw_hitD)

lemma is_ws_trail: "is_ws c \<Longrightarrow> is_trail c"
  by (auto simp: is_ws_def is_trail_def)

lemma trim_end_decomp:
  obtains c where "line = trim_end line @ c" "\<forall>x \<in> set c. is_trail x"
    "trim_end line = [] \<or> \<not> is_trail (last (trim_end line))"
proof
  let ?c = "rev (takeWhile is_trail (rev line))"
  show "line = trim_end line @ ?c"
    unfolding trim_end_def by (metis rev_append rev_rev_ident takeWhile_dropWhile_id)
  show "\<forall>x \<in> set ?c. is_trail x" by (auto dest: set_takeWhileD)
  show "trim_end line = [] \<or> \<not> is_trail (last (trim_end line))"
    unfolding trim_end_def by (metis hd_dropWhile last_rev rev_is_Nil_conv)
qed

lemma trim_end_append:
  assumes "\<forall>x \<in> set c. is_trail x" "t = [] \<or> \<not> is_trail (last t)"
  shows "trim_end (t @ c) = t"
proof -
  have "dropWhile is_trail (rev c @ rev t) = dropWhile is_trail (rev t)"
    using assms(1) by (intro dropWhile_append2) auto
  moreover have "dropWhile is_trail (rev t) = rev t"
    using assms(2) by (cases t rule: rev_cases) auto
  ultimately show ?thesis by (simp add: trim_end_def)
qed

lemma skip_ws_append: "\<forall>x \<in> set a. is_ws x \<Longrightarrow> skip_ws (a @ r) = skip_ws r"
  unfolding skip_ws_def by (intro dropWhile_append2) auto

lemma skip_ws_stop [simp]: "\<not> is_ws c \<Longrightarrow> skip_ws (c # r) = c # r"
  by (simp add: skip_ws_def)

lemma skip_ws_Nil [simp]: "skip_ws [] = []"
  by (simp add: skip_ws_def)

lemma skip_ws_decomp:
  obtains a where "p = a @ skip_ws p" "\<forall>x \<in> set a. is_ws x"
proof
  show "p = takeWhile is_ws p @ skip_ws p" by (simp add: skip_ws_def)
  show "\<forall>x \<in> set (takeWhile is_ws p). is_ws x" by (auto dest: set_takeWhileD)
qed

lemma skip_ws_hd: "skip_ws p = c # r \<Longrightarrow> \<not> is_ws c"
  by (simp add: skip_ws_def) (metis hd_dropWhile list.distinct(1) list.sel(1))

end
