(* ===== verification/ModeCmd.thy ===== *)
theory ModeCmd
  imports Scan
begin

text \<open>
  The runtime mode command of \<^verbatim>\<open>src/sniffer/mode_command.hpp\<close>: one line in, a validity flag and a
  capture mode out.
\<close>

datatype CaptureMode = Rle | Clocked

record Command =
  valid :: bool
  mode :: CaptureMode

definition default_command :: Command where
  "default_command = \<lparr>valid = False, mode = Rle\<rparr>"

definition tokenIs :: "string \<Rightarrow> string \<Rightarrow> bool" where
  "tokenIs p kw =
    (case match_kw p kw of
       (rest, kw') \<Rightarrow> kw' = [] \<and> (rest = [] \<or> is_ws (hd rest)))"

definition parse :: "string \<Rightarrow> Command" where
  "parse line =
    (let r = default_command;
         p = skip_ws (trim_end line);
         (p, pre) = match_kw p ''!mode''
     in if pre \<noteq> [] then r
        else if p = [] \<or> \<not> is_ws (hd p) then r
        else let p = skip_ws p in
          if tokenIs p ''rle'' then
            (if skip_ws (drop 3 p) \<noteq> [] then r\<lparr>mode := Rle\<rparr>
             else r\<lparr>mode := Rle, valid := True\<rparr>)
          else if tokenIs p ''clocked'' then
            (if skip_ws (drop 7 p) \<noteq> [] then r\<lparr>mode := Clocked\<rparr>
             else r\<lparr>mode := Clocked, valid := True\<rparr>)
          else r)"

text \<open>The keyword of a mode, and the language the parser is meant to accept.\<close>

fun keyword :: "CaptureMode \<Rightarrow> string" where
  "keyword Rle = ''rle''"
| "keyword Clocked = ''clocked''"

definition mode_line :: "CaptureMode \<Rightarrow> string \<Rightarrow> bool" where
  "mode_line m line \<longleftrightarrow> (\<exists>a b c. line = a @ ''!mode'' @ b @ keyword m @ c
     \<and> (\<forall>x \<in> set a. is_ws x) \<and> b \<noteq> [] \<and> (\<forall>x \<in> set b. is_ws x) \<and> (\<forall>x \<in> set c. is_trail x))"

lemma tokenIs_iff: "tokenIs p kw \<longleftrightarrow> (\<exists>r. p = kw @ r \<and> (r = [] \<or> is_ws (hd r)))"
proof -
  obtain r k where m: "match_kw p kw = (r, k)" by fastforce
  show ?thesis
  proof (cases "k = []")
    case True
    then have "p = kw @ r" using m by (auto dest: match_kw_hitD)
    then show ?thesis using m True by (auto simp: tokenIs_def)
  next
    case False
    then have "\<nexists>r. p = kw @ r" using m match_kw_hit_iff [of p kw] by simp
    then show ?thesis using m False by (auto simp: tokenIs_def)
  qed
qed

lemma keyword_head: "\<exists>c r. keyword m = c # r \<and> \<not> is_ws c \<and> \<not> is_trail (last (keyword m))"
  by (cases m) (auto simp: is_ws_def is_trail_def)

lemma token_end:
  "tokenIs p kw \<and> skip_ws (drop (length kw) p) = []
   \<longleftrightarrow> (\<exists>w. p = kw @ w \<and> (\<forall>x \<in> set w. is_ws x))" (is "?l \<longleftrightarrow> ?r")
proof
  assume ?l
  then obtain w where "p = kw @ w" by (auto simp: tokenIs_iff)
  with \<open>?l\<close> show ?r by (auto simp: skip_ws_def)
next
  assume ?r
  then obtain w where w: "p = kw @ w" "\<forall>x \<in> set w. is_ws x" by blast
  then have "w = [] \<or> is_ws (hd w)" by (cases w) auto
  with w show ?l by (auto simp: tokenIs_iff skip_ws_def)
qed

lemma tokens_differ: "tokenIs p ''rle'' \<Longrightarrow> \<not> tokenIs p ''clocked''"
  by (auto simp: tokenIs_iff)

text \<open>The tail of the parser, from the mode token on.\<close>

lemma after_keyword:
  assumes "\<not> valid r"
  shows "(if tokenIs p ''rle'' then
      (if skip_ws (drop 3 p) \<noteq> [] then r\<lparr>mode := Rle\<rparr> else r\<lparr>mode := Rle, valid := True\<rparr>)
    else if tokenIs p ''clocked'' then
      (if skip_ws (drop 7 p) \<noteq> [] then r\<lparr>mode := Clocked\<rparr>
       else r\<lparr>mode := Clocked, valid := True\<rparr>)
    else r) = \<lparr>valid = True, mode = m\<rparr>
   \<longleftrightarrow> (\<exists>w. p = keyword m @ w \<and> (\<forall>x \<in> set w. is_ws x))" (is "?e = _ \<longleftrightarrow> _")
proof -
  have d: "drop 3 p = drop (length ''rle'') p" "drop 7 p = drop (length ''clocked'') p"
    by (simp_all add: eval_nat_numeral)
  have "?e = \<lparr>valid = True, mode = m\<rparr> \<longleftrightarrow>
      tokenIs p (keyword m) \<and> skip_ws (drop (length (keyword m)) p) = []"
    using assms tokens_differ [of p] unfolding d
    by (cases m; cases "tokenIs p ''rle''"; cases "tokenIs p ''clocked''"; cases r) simp_all
  then show ?thesis by (simp only: token_end)
qed

lemma parse_unfold:
  "parse line = \<lparr>valid = True, mode = m\<rparr> \<longleftrightarrow>
   (\<exists>q w. skip_ws (trim_end line) = ''!mode'' @ q \<and> q \<noteq> [] \<and> is_ws (hd q)
      \<and> skip_ws q = keyword m @ w \<and> (\<forall>x \<in> set w. is_ws x))"
proof -
  obtain q pre where m: "match_kw (skip_ws (trim_end line)) ''!mode'' = (q, pre)" by fastforce
  have d: "\<not> valid default_command" by (simp add: default_command_def)
  show ?thesis
  proof (cases "pre = [] \<and> q \<noteq> [] \<and> is_ws (hd q)")
    case True
    then have "skip_ws (trim_end line) = ''!mode'' @ q" using m by (simp add: match_kw_hit)
    moreover have "parse line = \<lparr>valid = True, mode = m\<rparr>
        \<longleftrightarrow> (\<exists>w. skip_ws q = keyword m @ w \<and> (\<forall>x \<in> set w. is_ws x))"
      unfolding after_keyword [OF d, symmetric] using True by (simp add: parse_def m Let_def)
    ultimately show ?thesis using True by auto
  next
    case False
    then have "parse line = default_command" by (auto simp: parse_def m Let_def)
    moreover have "\<not> (\<exists>q'. skip_ws (trim_end line) = ''!mode'' @ q' \<and> q' \<noteq> [] \<and> is_ws (hd q'))"
      using False m by (auto simp: match_kw_hit)
    ultimately show ?thesis by (auto simp: default_command_def)
  qed
qed

lemma parse_complete:
  assumes "mode_line m line"
  shows "parse line = \<lparr>valid = True, mode = m\<rparr>"
proof -
  obtain a b c where line: "line = a @ ''!mode'' @ b @ keyword m @ c"
    and ws: "\<forall>x \<in> set a. is_ws x" "b \<noteq> []" "\<forall>x \<in> set b. is_ws x" "\<forall>x \<in> set c. is_trail x"
    using assms by (auto simp: mode_line_def)
  obtain k kw where kw: "keyword m = k # kw" "\<not> is_ws k" "\<not> is_trail (last (keyword m))"
    using keyword_head by blast
  have "trim_end line = a @ ''!mode'' @ b @ keyword m"
    using trim_end_append [of c "a @ ''!mode'' @ b @ keyword m"] ws kw by (simp add: line)
  then have "skip_ws (trim_end line) = ''!mode'' @ b @ keyword m"
    using ws(1) by (simp add: skip_ws_append) (simp add: is_ws_def)
  moreover have "skip_ws (b @ keyword m) = keyword m"
    using ws(3) kw by (simp add: skip_ws_append)
  ultimately show ?thesis
    unfolding parse_unfold using ws by (intro exI [of _ "b @ keyword m"] exI [of _ "[]"]) auto
qed

lemma parse_sound:
  assumes "parse line = \<lparr>valid = True, mode = m\<rparr>"
  shows "mode_line m line"
proof -
  from assms obtain q w where q: "skip_ws (trim_end line) = ''!mode'' @ q" "is_ws (hd q)"
    "skip_ws q = keyword m @ w" "\<forall>x \<in> set w. is_ws x"
    unfolding parse_unfold by auto
  obtain c where c: "line = trim_end line @ c" "\<forall>x \<in> set c. is_trail x" by (rule trim_end_decomp)
  obtain a where a: "trim_end line = a @ ''!mode'' @ q" "\<forall>x \<in> set a. is_ws x"
    using skip_ws_decomp [of "trim_end line"] q(1) by metis
  obtain b where b: "q = b @ keyword m @ w" "\<forall>x \<in> set b. is_ws x"
    using skip_ws_decomp [of q] q(3) by metis
  have "b \<noteq> []" using b(1) q(2) keyword_head [of m] by auto
  moreover have "line = a @ ''!mode'' @ b @ keyword m @ (w @ c)"
    using c(1) a(1) b(1) by simp
  ultimately show ?thesis
    using a(2) b(2) q(4) c(2) is_ws_trail unfolding mode_line_def
    by (intro exI [of _ a] exI [of _ b] exI [of _ "w @ c"]) auto
qed

subsection \<open>Properties\<close>

text \<open>
  C14. The strict parse: a line is a valid command for mode \<open>m\<close> exactly when it is \<open>!mode\<close>, white space
  and the keyword of \<open>m\<close>, with nothing but white space before and white space, CR and LF after. No
  other line, and so no line noise, yields a valid command.
\<close>

theorem parse_strict:
  "parse line = \<lparr>valid = True, mode = m\<rparr> \<longleftrightarrow> mode_line m line"
  using parse_sound parse_complete by blast

end
