(* ===== verification/MdioParse.thy ===== *)
theory MdioParse
  imports Scan
begin

text \<open>
  The command parser of the MDIO bridge (\<^verbatim>\<open>src/mdio/mdio_bridge.hpp\<close>, \<open>parseUint\<close>, \<open>verbIs\<close>,
  \<open>parse\<close>) and the language it accepts. A parse position is the list of characters in \<open>[p, end)\<close>;
  every early \<open>return r\<close> of the code is a \<open>None\<close> here, and \<open>mdio_parse\<close> turns it back into the
  default command.
\<close>

subsection \<open>Data\<close>

datatype BridgeOp = OpNone | Read | Write | Print

record BridgeCommand =
  c_valid :: bool
  c_op :: BridgeOp
  c_phy :: u8
  c_mmdAccess :: bool
  c_mmd :: u8
  c_reg :: u16
  c_val :: u16

definition bridge_default :: BridgeCommand where
  "bridge_default = \<lparr>c_valid = False, c_op = OpNone, c_phy = 0, c_mmdAccess = False, c_mmd = 0,
     c_reg = 0, c_val = 0\<rparr>"

subsection \<open>Numbers\<close>

text \<open>The value of a character as a digit, in base 10 or 16.\<close>

definition digit :: "u32 \<Rightarrow> char \<Rightarrow> u32 option" where
  "digit base c =
    (let k = (of_char c :: u32) in
     if of_char (CHR ''0'') \<le> k \<and> k \<le> of_char (CHR ''9'') then Some (k - of_char (CHR ''0''))
     else if base = 16 \<and> of_char (CHR ''a'') \<le> k \<and> k \<le> of_char (CHR ''f'')
       then Some (k - of_char (CHR ''a'') + 10)
     else if base = 16 \<and> of_char (CHR ''A'') \<le> k \<and> k \<le> of_char (CHR ''F'')
       then Some (k - of_char (CHR ''A'') + 10)
     else None)"

fun parseUint_loop :: "u32 \<Rightarrow> u32 \<Rightarrow> string \<Rightarrow> u32 \<Rightarrow> bool \<Rightarrow> (u32 \<times> string) option" where
  "parseUint_loop base limit [] v any = (if any then Some (v, []) else None)"
| "parseUint_loop base limit (c # p) v any =
    (case digit base c of
       None \<Rightarrow> if any then Some (v, c # p) else None
     | Some d \<Rightarrow>
         let v = v * base + d in
         if v > limit then None else parseUint_loop base limit p v True)"

definition hex_prefix :: "string \<Rightarrow> bool" where
  "hex_prefix p \<longleftrightarrow>
     (case p of c # x # _ \<Rightarrow> c = CHR ''0'' \<and> (x = CHR ''x'' \<or> x = CHR ''X'') | _ \<Rightarrow> False)"

definition parseUint :: "u32 \<Rightarrow> string \<Rightarrow> (u32 \<times> string) option" where
  "parseUint limit p =
    (if hex_prefix p then parseUint_loop 16 limit (drop 2 p) 0 False
     else parseUint_loop 10 limit p 0 False)"

subsection \<open>The command line\<close>

definition verbIs :: "string \<Rightarrow> string \<Rightarrow> string option" where
  "verbIs p kw = (case match_kw p kw of (rest, kw') \<Rightarrow> if kw' \<noteq> [] then None else Some rest)"

definition parse_verb :: "string \<Rightarrow> (BridgeOp \<times> string) option" where
  "parse_verb p =
    (case verbIs p ''read'' of Some p \<Rightarrow> Some (Read, p) | None \<Rightarrow>
     case verbIs p ''write'' of Some p \<Rightarrow> Some (Write, p) | None \<Rightarrow>
     case verbIs p ''print'' of Some p \<Rightarrow> Some (Print, p) | None \<Rightarrow> None)"

text \<open>\<open>[:<mmd>]/<reg>\<close>, for every operation but print.\<close>

definition parse_target :: "BridgeOp \<Rightarrow> string \<Rightarrow> (bool \<times> u32 \<times> u32 \<times> string) option" where
  "parse_target op p =
    (if op = Print then Some (False, 0, 0, p)
     else do {
       (mmdAccess, mmd, p) \<leftarrow>
         (if p \<noteq> [] \<and> hd p = CHR '':'' then do {
            (mmd, p) \<leftarrow> parseUint 31 (tl p);
            Some (True, mmd, p) }
          else Some (False, 0, p));
       if p = [] \<or> hd p \<noteq> CHR ''/'' then None
       else do {
         (reg, p) \<leftarrow> parseUint (if mmdAccess then 0xFFFF else 31) (tl p);
         Some (mmdAccess, mmd, reg, p) } })"

definition parse_data :: "BridgeOp \<Rightarrow> string \<Rightarrow> (u32 \<times> string) option" where
  "parse_data op p =
    (if op = Write then
       (let p = skip_ws p in if p = [] then None else parseUint 0xFFFF p)
     else Some (0, p))"

definition mdio_parse :: "string \<Rightarrow> BridgeCommand" where
  "mdio_parse line =
    (let r = bridge_default; p = skip_ws (trim_end line) in
     if p = [] \<or> hd p \<noteq> CHR ''!'' then r
     else case do {
       (op, p) \<leftarrow> parse_verb (tl p);
       if p = [] \<or> \<not> is_ws (hd p) then None
       else do {
         (phy, p) \<leftarrow> parseUint 31 (skip_ws p);
         (mmdAccess, mmd, reg, p) \<leftarrow> parse_target op p;
         (val, p) \<leftarrow> parse_data op p;
         if skip_ws p \<noteq> [] then None
         else Some \<lparr>c_valid = True, c_op = op, c_phy = ucast phy, c_mmdAccess = mmdAccess,
                    c_mmd = ucast mmd, c_reg = ucast reg, c_val = ucast val\<rparr> } }
       of None \<Rightarrow> r | Some c \<Rightarrow> c)"

subsection \<open>The language\<close>

text \<open>The value of a digit string, and the texts of a number up to a limit: decimal, or 0x and hex.\<close>

fun nval :: "u32 \<Rightarrow> string \<Rightarrow> nat \<Rightarrow> nat" where
  "nval base [] v = v"
| "nval base (c # ds) v =
     nval base ds (v * unat base + (case digit base c of Some d \<Rightarrow> unat d | None \<Rightarrow> 0))"

definition digits :: "u32 \<Rightarrow> string \<Rightarrow> bool" where
  "digits base ds \<longleftrightarrow> (\<forall>c \<in> set ds. digit base c \<noteq> None)"

definition numeral_text :: "u32 \<Rightarrow> string \<Rightarrow> u32 \<Rightarrow> bool" where
  "numeral_text limit t n \<longleftrightarrow> (\<exists>base pre ds. t = pre @ ds
     \<and> (base = 10 \<and> pre = [] \<or> base = 16 \<and> pre \<in> {''0x'', ''0X''})
     \<and> ds \<noteq> [] \<and> digits base ds \<and> unat n = nval base ds 0 \<and> n \<le> limit)"

fun verb :: "BridgeOp \<Rightarrow> string" where
  "verb Read = ''read''"
| "verb Write = ''write''"
| "verb Print = ''print''"
| "verb OpNone = []"

definition target_text :: "BridgeCommand \<Rightarrow> string \<Rightarrow> bool" where
  "target_text c t \<longleftrightarrow>
     (if c_op c = Print then t = [] \<and> \<not> c_mmdAccess c \<and> c_mmd c = 0 \<and> c_reg c = 0
      else if c_mmdAccess c then (\<exists>m r. t = '':'' @ m @ ''/'' @ r \<and> numeral_text 31 m (ucast (c_mmd c))
        \<and> numeral_text 0xFFFF r (ucast (c_reg c)))
      else c_mmd c = 0 \<and> (\<exists>r. t = ''/'' @ r \<and> numeral_text 31 r (ucast (c_reg c))))"

definition data_text :: "BridgeCommand \<Rightarrow> string \<Rightarrow> bool" where
  "data_text c t \<longleftrightarrow>
     (if c_op c = Write then (\<exists>w v. t = w @ v \<and> w \<noteq> [] \<and> (\<forall>x \<in> set w. is_ws x)
        \<and> numeral_text 0xFFFF v (ucast (c_val c)))
      else t = [] \<and> c_val c = 0)"

definition cmd_line :: "BridgeCommand \<Rightarrow> string \<Rightarrow> bool" where
  "cmd_line c line \<longleftrightarrow> c_op c \<noteq> OpNone \<and> (\<exists>a w ph tgt dat z.
     line = a @ ''!'' @ verb (c_op c) @ w @ ph @ tgt @ dat @ z
     \<and> (\<forall>x \<in> set a. is_ws x) \<and> w \<noteq> [] \<and> (\<forall>x \<in> set w. is_ws x)
     \<and> numeral_text 31 ph (ucast (c_phy c)) \<and> target_text c tgt \<and> data_text c dat
     \<and> (\<forall>x \<in> set z. is_trail x))"

subsection \<open>Numbers are read exactly\<close>

lemma digit_range:
  assumes "digit base c = Some d" "base = 10 \<or> base = 16"
  shows "unat d < unat base"
  using assms
  by (auto simp: digit_def Let_def word_le_nat_alt word_less_nat_alt unat_word_ariths unat_sub
      unat_of_nat split: if_splits)

lemma nval_mono: "0 < unat base \<Longrightarrow> v \<le> nval base ds v"
proof (induction ds arbitrary: v)
  case (Cons c ds)
  let ?v = "v * unat base + (case digit base c of Some d \<Rightarrow> unat d | None \<Rightarrow> 0)"
  have "v \<le> v * unat base" using Cons.prems by simp
  also have "\<dots> \<le> ?v" by simp
  also have "\<dots> \<le> nval base ds ?v" by (rule Cons.IH [OF Cons.prems])
  finally show ?case by simp
qed simp

lemma step_exact:
  assumes "base = 10 \<or> base = 16" "limit \<le> 0xFFFF" "v \<le> limit" "digit base c = Some d"
  shows "unat (v * base + d) = unat v * unat base + unat d"
proof -
  have "unat v \<le> 65535" using assms(2,3) by (simp add: word_le_nat_alt)
  moreover have "unat d < unat base" by (rule digit_range [OF assms(4,1)])
  ultimately have "unat v * unat base + unat d < 2 ^ 32" using assms(1) by auto
  then show ?thesis by (simp add: unat_word_ariths)
qed

lemma parseUint_loop_iff:
  assumes "base = 10 \<or> base = 16" "limit \<le> 0xFFFF" "v \<le> limit"
  shows "parseUint_loop base limit p v any = Some (n, rest) \<longleftrightarrow>
    (\<exists>ds. p = ds @ rest \<and> digits base ds \<and> (any \<or> ds \<noteq> [])
       \<and> (rest = [] \<or> digit base (hd rest) = None)
       \<and> unat n = nval base ds (unat v) \<and> n \<le> limit)"
proof -
  have eq: "unat n = unat m \<longleftrightarrow> n = m" for m by (simp add: word_unat_eq_iff)
  show ?thesis using assms(3)
  proof (induction p arbitrary: v any)
  case Nil
  then show ?case by (auto simp: digits_def eq)
next
  case (Cons c p)
  have base: "0 < unat base" using assms(1) by auto
  show ?case
  proof (cases "digit base c")
    case None
    have "ds = []" if "c # p = ds @ rest" "digits base ds" for ds
      using that None by (cases ds) (auto simp: digits_def)
    then show ?thesis using None Cons.prems by (auto simp: digits_def eq)
  next
    case (Some d)
    let ?v = "v * base + d"
    have exact: "unat ?v = unat v * unat base + unat d"
      by (rule step_exact [OF assms(1,2) Cons.prems Some])
    have split: "(\<exists>ds. c # p = ds @ rest \<and> P ds) \<longleftrightarrow> (rest = c # p \<and> P [])
        \<or> (\<exists>ds. p = ds @ rest \<and> P (c # ds))" for P
      by (auto simp: Cons_eq_append_conv)
    show ?thesis
    proof (cases "?v > limit")
      case True
      have "\<not> n \<le> limit" if "unat n = nval base ds (unat ?v)" for ds
      proof -
        have "unat ?v \<le> unat n" using nval_mono [OF base, of "unat ?v" ds] that by simp
        with True show ?thesis by (simp add: word_le_nat_alt word_less_nat_alt)
      qed
      then show ?thesis using True Some
        unfolding split by (auto simp: Let_def exact)
    next
      case False
      then have "?v \<le> limit" by simp
      from Cons.IH [OF this, of True] show ?thesis
        using False Some unfolding split by (auto simp: Let_def exact digits_def)
    qed
  qed
qed
qed

text \<open>A separator cannot continue a number.\<close>

definition sep :: "string \<Rightarrow> bool" where
  "sep rest \<longleftrightarrow> rest = [] \<or> hd rest \<in> {CHR 0x20, CHR 0x09, CHR '':'', CHR ''/''}"

lemma sep_simps [simp]: "sep []" "sep (CHR '':'' # r)" "sep (CHR ''/'' # r)"
  by (simp_all add: sep_def)

lemma sep_ws: "\<forall>x \<in> set w. is_ws x \<Longrightarrow> w \<noteq> [] \<Longrightarrow> sep (w @ r)"
  by (cases w) (auto simp: sep_def is_ws_def)

lemma digit_sep:
  assumes "c \<in> {CHR 0x20, CHR 0x09, CHR '':'', CHR ''/''}"
  shows "digit base c = None"
  using assms by (auto simp: digit_def Let_def)

lemma digit_x: "digit 10 (CHR ''x'') = None" "digit 10 (CHR ''X'') = None" "digit base (CHR ''0'') = Some 0"
  by (simp_all add: digit_def)

lemma parseUint_complete:
  assumes "numeral_text limit t n" "sep rest" "limit \<le> 0xFFFF"
  shows "parseUint limit (t @ rest) = Some (n, rest)"
proof -
  obtain base pre ds where t: "t = pre @ ds" "base = 10 \<and> pre = [] \<or> base = 16 \<and> pre \<in> {''0x'', ''0X''}"
    "ds \<noteq> []" "digits base ds" "unat n = nval base ds 0" "n \<le> limit"
    using assms(1) by (auto simp: numeral_text_def)
  have stop: "rest = [] \<or> digit base (hd rest) = None" using assms(2)
    by (cases rest) (auto simp: sep_def intro!: digit_sep)
  have base: "base = 10 \<or> base = 16" using t(2) by blast
  have loop: "parseUint_loop base limit (ds @ rest) 0 False = Some (n, rest)"
    unfolding parseUint_loop_iff [OF base assms(3) word_zero_le] using t(3-6) stop
    by (intro exI [of _ ds]) simp
  show ?thesis
  proof (cases "base = 16")
    case True
    then obtain x where x: "t @ rest = CHR ''0'' # x # ds @ rest" "x = CHR ''x'' \<or> x = CHR ''X''"
      using t(1,2) by auto
    then have "hex_prefix (t @ rest)" by (simp add: hex_prefix_def)
    then show ?thesis using x(1) loop True by (simp add: parseUint_def)
  next
    case False
    then have b: "base = 10" "t = ds" using t(1,2) by auto
    have "\<not> hex_prefix (ds @ rest)"
    proof
      assume h: "hex_prefix (ds @ rest)"
      obtain c ds' where ds: "ds = c # ds'" using t(3) by (cases ds) auto
      then have "\<exists>x r. ds' @ rest = x # r \<and> (x = CHR ''x'' \<or> x = CHR ''X'')"
        using h by (auto simp: hex_prefix_def split: list.splits)
      then show False
        using t(4) assms(2) digit_x b ds by (cases ds') (auto simp: digits_def sep_def)
    qed
    then show ?thesis using loop b by (simp add: parseUint_def)
  qed
qed

lemma parseUint_sound:
  assumes "parseUint limit p = Some (n, rest)" "limit \<le> 0xFFFF"
  shows "\<exists>t. p = t @ rest \<and> numeral_text limit t n \<and> (rest \<noteq> [] \<longrightarrow> digit 10 (hd rest) = None)
    \<and> digit 10 (hd t) \<noteq> None \<and> t \<noteq> []"
proof (cases "hex_prefix p")
  case True
  then obtain x q where p: "p = CHR ''0'' # x # q" "x = CHR ''x'' \<or> x = CHR ''X''"
    by (auto simp: hex_prefix_def split: list.splits)
  then have "parseUint_loop 16 limit q 0 False = Some (n, rest)"
    using assms(1) True by (simp add: parseUint_def)
  then obtain ds where ds: "q = ds @ rest" "digits 16 ds" "ds \<noteq> []" "rest = [] \<or> digit 16 (hd rest) = None"
    "unat n = nval 16 ds 0" "n \<le> limit"
    using parseUint_loop_iff [of 16 limit 0 q False n rest] assms(2) by auto
  have "rest \<noteq> [] \<longrightarrow> digit 10 (hd rest) = None"
    using ds(4) by (auto simp: digit_def Let_def split: if_splits)
  moreover have "numeral_text limit (CHR ''0'' # x # ds) n"
    unfolding numeral_text_def using ds p(2)
    by (intro exI [of _ 16] exI [of _ "[CHR ''0'', x]"] exI [of _ ds]) auto
  ultimately show ?thesis
    using p(1) ds(1) digit_x(3) by (intro exI [of _ "CHR ''0'' # x # ds"]) auto
next
  case False
  then have "parseUint_loop 10 limit p 0 False = Some (n, rest)"
    using assms(1) by (simp add: parseUint_def)
  then obtain ds where ds: "p = ds @ rest" "digits 10 ds" "ds \<noteq> []" "rest = [] \<or> digit 10 (hd rest) = None"
    "unat n = nval 10 ds 0" "n \<le> limit"
    using parseUint_loop_iff [of 10 limit 0 p False n rest] assms(2) by auto
  then have "numeral_text limit ds n"
    unfolding numeral_text_def by (intro exI [of _ 10] exI [of _ "[]"] exI [of _ ds]) auto
  then show ?thesis
    using ds by (intro exI [of _ ds]) (auto simp: digits_def)
qed

lemma numeral_text_bound: "numeral_text limit t n \<Longrightarrow> n \<le> limit"
  by (auto simp: numeral_text_def)

lemma numeral_text_head:
  assumes "numeral_text limit t n"
  shows "t \<noteq> [] \<and> \<not> is_ws (hd t) \<and> \<not> is_trail (last t)"
proof -
  have d: "\<not> is_trail c" if "digit base c \<noteq> None" for base c
    using that by (auto simp: is_trail_def digit_def Let_def)
  obtain base pre ds where t: "t = pre @ ds" "base = 10 \<and> pre = [] \<or> base = 16 \<and> pre \<in> {''0x'', ''0X''}"
    "ds \<noteq> []" "digits base ds"
    using assms by (auto simp: numeral_text_def)
  have "\<not> is_trail (last ds)" using t(3,4) d [of base "last ds"] by (simp add: digits_def)
  moreover have "\<not> is_ws (hd t)"
  proof (cases pre)
    case Nil
    then show ?thesis using t d [of base "hd ds"] is_ws_trail by (auto simp: digits_def)
  next
    case (Cons a list)
    then show ?thesis using t by (auto simp: is_ws_def)
  qed
  ultimately show ?thesis using t by simp
qed

subsection \<open>The parser and the language\<close>

lemma verbIs_iff: "verbIs p kw = Some r \<longleftrightarrow> p = kw @ r"
  by (cases "match_kw p kw") (auto simp: verbIs_def dest: match_kw_hitD)

lemma verbIs_None: "verbIs p kw = None \<longleftrightarrow> (\<forall>r. p \<noteq> kw @ r)"
  using verbIs_iff [of p kw] by (cases "verbIs p kw") auto

lemma parse_verb_iff: "parse_verb p = Some (op, r) \<longleftrightarrow> op \<noteq> OpNone \<and> p = verb op @ r"
  by (cases op)
     (auto simp: parse_verb_def verbIs_iff verbIs_None split: option.splits)

lemma target_complete:
  assumes "target_text c t" "c_op c \<noteq> OpNone" "sep rest"
  shows "parse_target (c_op c) (t @ rest)
       = Some (c_mmdAccess c, ucast (c_mmd c), ucast (c_reg c), rest)"
proof (cases "c_op c = Print")
  case True
  then show ?thesis using assms(1) by (simp add: target_text_def parse_target_def)
next
  case False
  show ?thesis
  proof (cases "c_mmdAccess c")
    case True
    then obtain m r where "t = '':'' @ m @ ''/'' @ r" "numeral_text 31 m (ucast (c_mmd c))"
      "numeral_text 0xFFFF r (ucast (c_reg c))"
      using assms(1) False by (auto simp: target_text_def)
    then show ?thesis
      using False True parseUint_complete [of 31 m "ucast (c_mmd c)" "''/'' @ r @ rest"]
        parseUint_complete [of "0xFFFF" r "ucast (c_reg c)" rest] assms(3)
      by (simp add: parse_target_def)
  next
    case no: False
    then obtain r where "t = ''/'' @ r" "numeral_text 31 r (ucast (c_reg c))" "c_mmd c = 0"
      using assms(1) False by (auto simp: target_text_def)
    then show ?thesis
      using False no parseUint_complete [of 31 r "ucast (c_reg c)" rest] assms(3)
      by (simp add: parse_target_def)
  qed
qed

lemma data_complete:
  assumes "data_text c t"
  shows "parse_data (c_op c) t = Some (ucast (c_val c), [])"
proof (cases "c_op c = Write")
  case True
  then obtain w v where t: "t = w @ v" "\<forall>x \<in> set w. is_ws x" "numeral_text 0xFFFF v (ucast (c_val c))"
    using assms by (auto simp: data_text_def)
  note h = numeral_text_head [OF t(3)]
  then have "skip_ws t = v" using t(1,2) by (cases v) (simp_all add: skip_ws_append)
  then show ?thesis
    using True h parseUint_complete [OF t(3), of "[]"] by (simp add: parse_data_def)
next
  case False
  then show ?thesis using assms by (simp add: data_text_def parse_data_def)
qed

lemma data_sep: "data_text c t \<Longrightarrow> sep t"
  by (auto simp: data_text_def sep_ws split: if_splits)

lemma target_data_sep:
  assumes "target_text c t" "data_text c d"
  shows "sep (t @ d)"
  using assms data_sep [OF assms(2)] by (auto simp: target_text_def split: if_splits)

lemma body_last:
  assumes "numeral_text 31 ph n" "target_text c t" "data_text c d"
  shows "ph @ t @ d \<noteq> [] \<and> \<not> is_trail (last (ph @ t @ d))"
proof -
  note ph = numeral_text_head [OF assms(1)]
  have t: "t = [] \<or> \<not> is_trail (last t)"
    using assms(2) numeral_text_head by (auto simp: target_text_def split: if_splits)
  have "d = [] \<or> \<not> is_trail (last d)"
    using assms(3) numeral_text_head by (auto simp: data_text_def split: if_splits)
  then show ?thesis using ph t by (auto simp: last_append)
qed

lemma ucast_down_up [simp]:
  "ucast (ucast x :: u32) = (x :: u8)" "ucast (ucast y :: u32) = (y :: u16)"
  by (rule bit_word_eqI; auto simp: bit_simps dest: bit_imp_le_length)+

lemma mdio_parse_complete:
  assumes "cmd_line c line" "c_valid c"
  shows "mdio_parse line = c"
proof -
  obtain a w ph t d z where op: "c_op c \<noteq> OpNone"
    and line: "line = a @ ''!'' @ verb (c_op c) @ w @ ph @ t @ d @ z"
    and a: "\<forall>x \<in> set a. is_ws x" and w: "w \<noteq> []" "\<forall>x \<in> set w. is_ws x"
    and ph: "numeral_text 31 ph (ucast (c_phy c))" and t: "target_text c t" and d: "data_text c d"
    and z: "\<forall>x \<in> set z. is_trail x"
    using assms(1) by (auto simp: cmd_line_def)
  note bl = body_last [OF ph t d]
  have "trim_end line = a @ ''!'' @ verb (c_op c) @ w @ ph @ t @ d"
    using trim_end_append [OF z, of "(a @ ''!'' @ verb (c_op c) @ w) @ (ph @ t @ d)"]
      last_appendR [of "ph @ t @ d" "a @ ''!'' @ verb (c_op c) @ w"] bl
    by (simp add: line del: last_append)
  then have start: "skip_ws (trim_end line) = ''!'' @ verb (c_op c) @ w @ ph @ t @ d"
    using a by (simp add: skip_ws_append) (simp add: is_ws_def)
  have ws: "is_ws (hd (w @ ph @ t @ d))" "w @ ph @ t @ d \<noteq> []" using w by (cases w; simp)+
  have sk: "skip_ws (w @ ph @ t @ d) = ph @ t @ d"
    using w(2) numeral_text_head [OF ph] by (cases ph) (simp_all add: skip_ws_append)
  have "parseUint 31 (ph @ t @ d) = Some (ucast (c_phy c), t @ d)"
    using ph target_data_sep [OF t d] by (intro parseUint_complete) simp_all
  moreover have "parse_target (c_op c) (t @ d) = Some (c_mmdAccess c, ucast (c_mmd c), ucast (c_reg c), d)"
    using target_complete [OF t op data_sep [OF d]] .
  moreover have "parse_verb (verb (c_op c) @ w @ ph @ t @ d) = Some (c_op c, w @ ph @ t @ d)"
    using op by (simp add: parse_verb_iff)
  ultimately show ?thesis
    using start ws sk data_complete [OF d] assms(2) w(1)
    by (simp add: mdio_parse_def Let_def)
qed

lemma unat_ucast_small:
  "n \<le> 31 \<Longrightarrow> ucast (ucast n :: u8) = (n :: u32)" "n \<le> 31 \<Longrightarrow> ucast (ucast n :: u16) = (n :: u32)"
  "n \<le> 0xFFFF \<Longrightarrow> ucast (ucast n :: u16) = (n :: u32)"
  by (simp_all add: word_unat_eq_iff word_le_nat_alt unsigned_ucast_eq take_bit_nat_eq_self
      unsigned_take_bit_eq)

lemma target_sound:
  assumes "parse_target op p = Some (acc, mmd, reg, rest)" "c_op c = op" "c_mmdAccess c = acc"
    "c_mmd c = ucast mmd" "c_reg c = ucast reg"
  shows "\<exists>t. p = t @ rest \<and> target_text c t \<and> (op \<noteq> Print \<longrightarrow> rest \<noteq> [] \<longrightarrow> digit 10 (hd rest) = None)"
proof (cases "op = Print")
  case True
  then show ?thesis using assms by (auto simp: parse_target_def target_text_def)
next
  case False
  show ?thesis
  proof (cases "p \<noteq> [] \<and> hd p = CHR '':''")
    case True
    then obtain p1 where p1: "p = '':'' @ p1" by (cases p) auto
    then obtain p2 where p2: "parseUint 31 p1 = Some (mmd, p2)" "p2 \<noteq> []" "hd p2 = CHR ''/''"
      "parseUint 0xFFFF (tl p2) = Some (reg, rest)" "acc"
      using assms(1) False by (auto simp: parse_target_def split: Option.bind_splits if_splits)
    obtain m where m: "p1 = m @ p2" "numeral_text 31 m mmd"
      using parseUint_sound [OF p2(1)] by auto
    obtain r where r: "tl p2 = r @ rest" "numeral_text 0xFFFF r reg" "rest \<noteq> [] \<longrightarrow> digit 10 (hd rest) = None"
      using parseUint_sound [OF p2(4)] by auto
    have "p2 = ''/'' @ tl p2" using p2(2,3) by (cases p2) auto
    moreover have "ucast (c_mmd c) = mmd" "ucast (c_reg c) = reg"
      using assms(4,5) numeral_text_bound [OF m(2)] numeral_text_bound [OF r(2)]
      by (simp_all add: unat_ucast_small)
    ultimately show ?thesis
      using p1 m r p2(5) assms(2,3) False
      by (intro exI [of _ "'':'' @ m @ ''/'' @ r"]) (auto simp: target_text_def)
  next
    case no: False
    then have p2: "p \<noteq> []" "hd p = CHR ''/''" "parseUint 31 (tl p) = Some (reg, rest)" "\<not> acc" "mmd = 0"
      using assms(1) False by (auto simp: parse_target_def split: Option.bind_splits if_splits)
    obtain r where r: "tl p = r @ rest" "numeral_text 31 r reg" "rest \<noteq> [] \<longrightarrow> digit 10 (hd rest) = None"
      using parseUint_sound [OF p2(3)] by auto
    have "p = ''/'' @ tl p" using p2(1,2) by (cases p) auto
    moreover have "ucast (c_reg c) = reg"
      using assms(5) numeral_text_bound [OF r(2)] by (simp add: unat_ucast_small)
    ultimately show ?thesis
      using r p2(4,5) assms(2,3,4) False
      by (intro exI [of _ "''/'' @ r"]) (auto simp: target_text_def)
  qed
qed

lemma data_sound:
  assumes "parse_data op p = Some (v, rest)" "c_op c = op" "c_val c = ucast v"
    "op \<noteq> Print \<longrightarrow> p \<noteq> [] \<longrightarrow> digit 10 (hd p) = None"
  shows "\<exists>d. p = d @ rest \<and> data_text c d"
proof (cases "op = Write")
  case True
  obtain w where w: "p = w @ skip_ws p" "\<forall>x \<in> set w. is_ws x" by (rule skip_ws_decomp)
  have u: "parseUint 0xFFFF (skip_ws p) = Some (v, rest)"
    using assms(1) True by (simp add: parse_data_def Let_def split: if_splits)
  obtain t where t: "skip_ws p = t @ rest" "numeral_text 0xFFFF t v" "digit 10 (hd t) \<noteq> None" "t \<noteq> []"
    using parseUint_sound [OF u] by auto
  have "w \<noteq> []"
  proof
    assume "w = []"
    then have "p = t @ rest" using w(1) t(1) by simp
    then show False using assms(4) True t(3,4) by simp
  qed
  moreover have "ucast (c_val c) = v"
    using assms(3) numeral_text_bound [OF t(2)] by (simp add: unat_ucast_small)
  ultimately show ?thesis
    using w t(1,2) assms(2) True by (intro exI [of _ "w @ t"]) (auto simp: data_text_def)
next
  case False
  then show ?thesis using assms by (auto simp: parse_data_def data_text_def)
qed

lemma mdio_parse_body:
  assumes "mdio_parse line = c" "c_valid c"
  obtains q op p1 p2 p3 p4 phy acc mmd reg val where
    "skip_ws (trim_end line) = ''!'' @ q" "parse_verb q = Some (op, p1)" "p1 \<noteq> []" "is_ws (hd p1)"
    "parseUint 31 (skip_ws p1) = Some (phy, p2)" "parse_target op p2 = Some (acc, mmd, reg, p3)"
    "parse_data op p3 = Some (val, p4)" "skip_ws p4 = []"
    "c = \<lparr>c_valid = True, c_op = op, c_phy = ucast phy, c_mmdAccess = acc, c_mmd = ucast mmd,
          c_reg = ucast reg, c_val = ucast val\<rparr>"
proof -
  have d: "\<not> c_valid bridge_default" by (simp add: bridge_default_def)
  let ?p = "skip_ws (trim_end line)"
  have p: "?p \<noteq> []" "hd ?p = CHR ''!''"
    using assms d by (auto simp: mdio_parse_def Let_def split: if_splits)
  then have eq: "?p = ''!'' @ tl ?p" by (cases ?p) auto
  show thesis
    using assms d p that [OF eq]
    by (auto simp: mdio_parse_def Let_def split: option.splits Option.bind_splits if_splits)
qed

lemma mdio_parse_sound:
  assumes "mdio_parse line = c" "c_valid c"
  shows "cmd_line c line"
proof -
  from assms obtain q op p1 p2 p3 p4 phy acc mmd reg val where
    b: "skip_ws (trim_end line) = ''!'' @ q" "parse_verb q = Some (op, p1)" "p1 \<noteq> []" "is_ws (hd p1)"
    "parseUint 31 (skip_ws p1) = Some (phy, p2)" "parse_target op p2 = Some (acc, mmd, reg, p3)"
    "parse_data op p3 = Some (val, p4)" "skip_ws p4 = []"
    and c: "c = \<lparr>c_valid = True, c_op = op, c_phy = ucast phy, c_mmdAccess = acc, c_mmd = ucast mmd,
          c_reg = ucast reg, c_val = ucast val\<rparr>"
    by (rule mdio_parse_body)
  obtain z where z: "line = trim_end line @ z" "\<forall>x \<in> set z. is_trail x" by (rule trim_end_decomp)
  obtain a where a: "trim_end line = a @ ''!'' @ q" "\<forall>x \<in> set a. is_ws x"
    using skip_ws_decomp [of "trim_end line"] b(1) by metis
  have q: "q = verb op @ p1" "op \<noteq> OpNone" using b(2) by (simp_all add: parse_verb_iff)
  obtain w where w: "p1 = w @ skip_ws p1" "\<forall>x \<in> set w. is_ws x" by (rule skip_ws_decomp)
  have "w \<noteq> []"
  proof
    assume "w = []"
    then have "p1 = skip_ws p1" using w(1) by simp
    then show False using b(3,4) skip_ws_hd [of p1] by (cases p1) auto
  qed
  obtain ph where ph: "skip_ws p1 = ph @ p2" "numeral_text 31 ph phy"
    using parseUint_sound [OF b(5)] by auto
  obtain t where t: "p2 = t @ p3" "target_text c t" "op \<noteq> Print \<longrightarrow> p3 \<noteq> [] \<longrightarrow> digit 10 (hd p3) = None"
    using target_sound [OF b(6), of c] by (auto simp: c)
  obtain d where d: "p3 = d @ p4" "data_text c d"
    using data_sound [OF b(7), of c] t(3) by (auto simp: c)
  obtain e where e: "p4 = e @ skip_ws p4" "\<forall>x \<in> set e. is_ws x" by (rule skip_ws_decomp)
  have "line = a @ ''!'' @ verb op @ w @ ph @ t @ d @ (e @ z)"
    using z(1) a(1) q(1) w(1) ph(1) t(1) d(1) e(1) b(8) by simp
  moreover have "numeral_text 31 ph (ucast (c_phy c))"
    using ph(2) numeral_text_bound [OF ph(2)] by (simp add: c unat_ucast_small)
  moreover have "\<forall>x \<in> set (e @ z). is_trail x" using e(2) z(2) is_ws_trail by auto
  moreover have "c_op c = op" by (simp add: c)
  ultimately show ?thesis
    using a(2) w(2) \<open>w \<noteq> []\<close> t(2) d(2) q(2) unfolding cmd_line_def by blast
qed

subsection \<open>Properties\<close>


end
