(* ===== verification/MdioMaster.thy ===== *)
theory MdioMaster
  imports Prelude
begin

text \<open>
  The MDIO bus driver of \<^verbatim>\<open>src/mdio/mdio_master.hpp\<close> and \<^verbatim>\<open>mdio_master.cpp\<close>: one asynchronous
  slot, a client-owned response mailbox borrowed by address, and the data registers through which
  the driver talks to the PIOC program. The response store is a map from addresses to mailboxes,
  so that the borrowing \<open>resp_ = &resp\<close> is visible; the volatile register file is a function that
  the environment may change between two calls, and every write the driver makes to it is also
  recorded, in order, in \<open>wr\<close>. The Boolean \<open>stub\<close> is the build flag \<open>MDIO_STUB\<close>.
\<close>

subsection \<open>Data\<close>

datatype Result = Ok | Busy
datatype Status = Idle | Pending | Done | NoResp | Timeout
datatype Op = OpRead | OpWrite | OpReadMmd | OpWriteMmd
datatype Step =
  StepStart | StepMmdAddrMode | StepMmdSetAddr | StepMmdDataMode | StepMmdData | StepDone

record Response =
  status :: Status
  resp_value :: u16

definition clear :: "Response \<Rightarrow> Response" where
  "clear r = r\<lparr>status := Idle, resp_value := 0\<rparr>"

record master =
  m_active :: bool
  m_started :: bool
  m_op :: Op
  m_step :: Step
  m_phy :: u8
  m_mmd :: u8
  m_reg :: u16
  m_val :: u16
  m_wireRead :: bool
  m_wireReg :: u8
  m_wireVal :: u16
  m_startedMs :: u32
  m_resp :: "nat option"

record mdio = master +
  mem :: "nat \<Rightarrow> Response"
  dr :: "u8 \<Rightarrow> u8"
  wr :: "(u8 \<times> u8) list"

text \<open>The static initial state: the member initialisers of the class, and idle mailboxes.\<close>

definition mdio_init :: mdio where
  "mdio_init =
    \<lparr>m_active = False, m_started = False, m_op = OpRead, m_step = StepStart, m_phy = 0, m_mmd = 0,
     m_reg = 0, m_val = 0, m_wireRead = True, m_wireReg = 0, m_wireVal = 0, m_startedMs = 0,
     m_resp = None, mem = \<lambda>_. \<lparr>status = Idle, resp_value = 0\<rparr>, dr = \<lambda>_. 0, wr = []\<rparr>"

definition DR_CMD0 :: u8 where "DR_CMD0 = 0x22"
definition DR_CMD1 :: u8 where "DR_CMD1 = 0x23"
definition DR_CMD2 :: u8 where "DR_CMD2 = 0x24"
definition DR_CMD3 :: u8 where "DR_CMD3 = 0x25"
definition DR_CTRL :: u8 where "DR_CTRL = 0x26"
definition DR_STATUS :: u8 where "DR_STATUS = 0x27"
definition DR_RES_H :: u8 where "DR_RES_H = 0x28"
definition DR_RES_L :: u8 where "DR_RES_L = 0x29"
definition CTRL_READ :: u8 where "CTRL_READ = 0x01"
definition CTRL_GO :: u8 where "CTRL_GO = 0x80"
definition ST_OK :: u8 where "ST_OK = 0x01"
definition ST_NORESP :: u8 where "ST_NORESP = 0x80"
definition MDIO_TIMEOUT_MS :: u32 where "MDIO_TIMEOUT_MS = 5"
definition REGCR :: u8 where "REGCR = 0x0D"
definition ADDAR :: u8 where "ADDAR = 0x0E"
definition MMD_ADDR :: u16 where "MMD_ADDR = 0x0000"
definition MMD_DATA :: u16 where "MMD_DATA = 0x4000"

named_theorems dr_defs
lemmas [dr_defs] = DR_CMD0_def DR_CMD1_def DR_CMD2_def DR_CMD3_def DR_CTRL_def DR_STATUS_def
  DR_RES_H_def DR_RES_L_def CTRL_READ_def CTRL_GO_def ST_OK_def ST_NORESP_def

subsection \<open>Operations\<close>

text \<open>A volatile store \<open>DR[a] = v\<close>.\<close>

definition dr_write :: "u8 \<Rightarrow> u8 \<Rightarrow> mdio \<Rightarrow> mdio" where
  "dr_write a v s = s\<lparr>dr := (dr s)(a := v), wr := wr s @ [(a, v)]\<rparr>"

definition master_begin :: "bool \<Rightarrow> mdio \<Rightarrow> mdio" where
  "master_begin stub s =
    (let s = (if stub then s else dr_write DR_STATUS 0 s)
     in s\<lparr>m_active := False, m_started := False, m_resp := None\<rparr>)"

definition submit :: "Op \<Rightarrow> u8 \<Rightarrow> u8 \<Rightarrow> u16 \<Rightarrow> u16 \<Rightarrow> nat \<Rightarrow> mdio \<Rightarrow> Result \<times> mdio" where
  "submit op phy mmd reg val resp s =
    (if m_active s then (Busy, s)
     else
      let r = clear (mem s resp);
          r = r\<lparr>status := Pending\<rparr>
      in (Ok, s\<lparr>mem := (mem s)(resp := r),
                m_active := True, m_started := False, m_op := op, m_step := StepStart,
                m_phy := phy, m_mmd := mmd, m_reg := reg, m_val := val,
                m_wireRead := True, m_wireReg := 0, m_wireVal := 0, m_startedMs := 0,
                m_resp := Some resp\<rparr>))"

definition master_read :: "u8 \<Rightarrow> u8 \<Rightarrow> nat \<Rightarrow> mdio \<Rightarrow> Result \<times> mdio" where
  "master_read phy reg resp s = submit OpRead phy 0 (ucast reg) 0 resp s"

definition master_write :: "u8 \<Rightarrow> u8 \<Rightarrow> u16 \<Rightarrow> nat \<Rightarrow> mdio \<Rightarrow> Result \<times> mdio" where
  "master_write phy reg val resp s = submit OpWrite phy 0 (ucast reg) val resp s"

definition master_readMmd :: "u8 \<Rightarrow> u8 \<Rightarrow> u16 \<Rightarrow> nat \<Rightarrow> mdio \<Rightarrow> Result \<times> mdio" where
  "master_readMmd phy mmd reg resp s = submit OpReadMmd phy mmd reg 0 resp s"

definition master_writeMmd :: "u8 \<Rightarrow> u8 \<Rightarrow> u16 \<Rightarrow> u16 \<Rightarrow> nat \<Rightarrow> mdio \<Rightarrow> Result \<times> mdio" where
  "master_writeMmd phy mmd reg val resp s = submit OpWriteMmd phy mmd reg val resp s"

definition master_busy :: "mdio \<Rightarrow> bool" where
  "master_busy s = m_active s"

text \<open>The 32 bits after the preamble: ST OP PHYAD REGAD TA DATA, most significant first.\<close>

definition mdio_frame :: "bool \<Rightarrow> u8 \<Rightarrow> u8 \<Rightarrow> u16 \<Rightarrow> u32" where
  "mdio_frame isRead phy wireReg wireVal =
    (let op = (if isRead then 2 else 1); ta = (if isRead then 0 else 2)
     in push_bit 30 1 OR push_bit 28 op
        OR push_bit 23 (ucast (phy AND 0x1F))
        OR push_bit 18 (ucast (wireReg AND 0x1F))
        OR push_bit 16 ta
        OR (if isRead then 0 else ucast wireVal))"

definition startTransaction :: "bool \<Rightarrow> mdio \<Rightarrow> mdio" where
  "startTransaction stub s =
    (if stub then s
     else
      let isRead = m_wireRead s;
          frame = mdio_frame isRead (m_phy s) (m_wireReg s) (m_wireVal s);
          s = dr_write DR_CMD0 (ucast (drop_bit 24 frame)) s;
          s = dr_write DR_CMD1 (ucast (drop_bit 16 frame)) s;
          s = dr_write DR_CMD2 (ucast (drop_bit 8 frame)) s;
          s = dr_write DR_CMD3 (ucast frame) s;
          s = dr_write DR_STATUS 0 s
      in dr_write DR_CTRL ((if isRead then CTRL_READ else 0) OR CTRL_GO) s)"

definition finish :: "Status \<Rightarrow> u16 \<Rightarrow> mdio \<Rightarrow> mdio" where
  "finish st v s =
    (let s = (case m_resp s of
                None \<Rightarrow> s
              | Some a \<Rightarrow> s\<lparr>mem := (mem s)(a := (mem s a)\<lparr>resp_value := v, status := st\<rparr>)\<rparr>)
     in s\<lparr>m_active := False, m_started := False, m_resp := None\<rparr>)"

text \<open>The switch of \<open>startNextTransaction\<close>: the wire fields of the next frame.\<close>

definition nextWire :: "mdio \<Rightarrow> mdio" where
  "nextWire s =
    (if m_op s = OpRead \<or> m_op s = OpWrite then
       s\<lparr>m_wireRead := (m_op s = OpRead), m_wireReg := ucast (m_reg s AND 0x1F),
         m_wireVal := m_val s, m_step := StepDone\<rparr>
     else case m_step s of
       StepStart \<Rightarrow>
         s\<lparr>m_wireRead := False, m_wireReg := REGCR,
           m_wireVal := MMD_ADDR OR ucast (m_mmd s AND 0x1F), m_step := StepMmdAddrMode\<rparr>
     | StepMmdAddrMode \<Rightarrow>
         s\<lparr>m_wireRead := False, m_wireReg := ADDAR, m_wireVal := m_reg s,
           m_step := StepMmdSetAddr\<rparr>
     | StepMmdSetAddr \<Rightarrow>
         s\<lparr>m_wireRead := False, m_wireReg := REGCR,
           m_wireVal := MMD_DATA OR ucast (m_mmd s AND 0x1F), m_step := StepMmdDataMode\<rparr>
     | StepMmdDataMode \<Rightarrow>
         s\<lparr>m_wireRead := (m_op s = OpReadMmd), m_wireReg := ADDAR, m_wireVal := m_val s,
           m_step := StepMmdData\<rparr>
     | _ \<Rightarrow> s\<lparr>m_step := StepDone\<rparr>)"

definition startNextTransaction :: "bool \<Rightarrow> u32 \<Rightarrow> mdio \<Rightarrow> mdio" where
  "startNextTransaction stub nowMs s =
    (let s = nextWire (s\<lparr>m_started := False\<rparr>)
     in if m_step s = StepDone \<and> (m_op s = OpReadMmd \<or> m_op s = OpWriteMmd) then s
        else (startTransaction stub s)\<lparr>m_started := True, m_startedMs := nowMs\<rparr>)"

definition completeTransaction :: "bool \<Rightarrow> u32 \<Rightarrow> Status \<Rightarrow> u16 \<Rightarrow> mdio \<Rightarrow> mdio" where
  "completeTransaction stub nowMs st v s =
    (let s = s\<lparr>m_started := False\<rparr>
     in if st \<noteq> Done then finish st 0 s
        else if m_step s = StepDone then finish Done v s
        else if m_step s = StepMmdData then finish Done (if m_op s = OpReadMmd then v else 0) s
        else startNextTransaction stub nowMs s)"

text \<open>The value of the stub build: the address echoed.\<close>

definition stub_value :: "mdio \<Rightarrow> u16" where
  "stub_value s =
    (if m_op s = OpRead then push_bit 8 (ucast (m_phy s)) OR (m_reg s AND 0x1F)
     else if m_op s = OpReadMmd then push_bit 11 (ucast (m_mmd s AND 0x1F)) XOR m_reg s
     else 0)"

definition master_tick :: "bool \<Rightarrow> u32 \<Rightarrow> mdio \<Rightarrow> mdio" where
  "master_tick stub nowMs s =
    (if \<not> m_active s then s
     else
      let started = m_started s;
          s = (if started then s else startNextTransaction stub nowMs s)
      in if stub then
           (if started then s
            else if m_phy s = 0x1F then finish NoResp 0 s
            else finish Done (stub_value s) s)
         else
          let st = dr s DR_STATUS
          in if st = 0 then
               (if nowMs - m_startedMs s > MDIO_TIMEOUT_MS then finish Timeout 0 s else s)
             else if st = ST_NORESP then completeTransaction stub nowMs NoResp 0 s
             else if st \<noteq> ST_OK then completeTransaction stub nowMs Timeout 0 s
             else
              let v = (if m_wireRead s
                       then push_bit 8 (ucast (dr s DR_RES_H)) OR ucast (dr s DR_RES_L) else 0)
              in completeTransaction stub nowMs Done v s)"

subsection \<open>The abstract bus\<close>

text \<open>
  What the driver promises, with no registers and no polling: a request is a list of frames, each is
  put on the wire in order, and the first read that nobody answers ends it. A device consumes a frame
  and says what it drove back, if anything; a write is not acknowledged on the wire.
\<close>

type_synonym 'p device = "u32 \<Rightarrow> 'p \<Rightarrow> u16 option \<times> 'p"

definition transact :: "'p device \<Rightarrow> bool \<times> u32 \<Rightarrow> 'p \<Rightarrow> Status \<times> u16 \<times> 'p" where
  "transact dev f p =
    (case dev (snd f) p of (r, p') \<Rightarrow>
       if fst f then (case r of None \<Rightarrow> (NoResp, 0, p') | Some v \<Rightarrow> (Done, v, p'))
       else (Done, 0, p'))"

fun bus :: "'p device \<Rightarrow> (bool \<times> u32) list \<Rightarrow> 'p \<Rightarrow> Status \<times> u16 \<times> 'p" where
  "bus dev [] p = (Done, 0, p)"
| "bus dev (f # fs) p =
    (case transact dev f p of (st, v, p') \<Rightarrow>
       if st \<noteq> Done \<or> fs = [] then (st, v, p') else bus dev fs p')"

text \<open>The frames of a request that are still to be sent in each step.\<close>

definition todo :: "Op \<Rightarrow> u8 \<Rightarrow> u8 \<Rightarrow> u16 \<Rightarrow> u16 \<Rightarrow> Step \<Rightarrow> (bool \<times> u32) list" where
  "todo op phy mmd reg val step =
    (let w = (\<lambda>r v. (False, mdio_frame False phy r v));
         a1 = w REGCR (MMD_ADDR OR ucast (mmd AND 0x1F));
         a2 = w ADDAR reg;
         a3 = w REGCR (MMD_DATA OR ucast (mmd AND 0x1F));
         a4 = (op = OpReadMmd, mdio_frame (op = OpReadMmd) phy ADDAR val)
     in if op = OpRead \<or> op = OpWrite then
          (if step = StepStart
           then [(op = OpRead, mdio_frame (op = OpRead) phy (ucast (reg AND 0x1F)) val)] else [])
        else case step of
          StepStart \<Rightarrow> [a1, a2, a3, a4]
        | StepMmdAddrMode \<Rightarrow> [a2, a3, a4]
        | StepMmdSetAddr \<Rightarrow> [a3, a4]
        | StepMmdDataMode \<Rightarrow> [a4]
        | _ \<Rightarrow> [])"

abbreviation plan :: "Op \<Rightarrow> u8 \<Rightarrow> u8 \<Rightarrow> u16 \<Rightarrow> u16 \<Rightarrow> (bool \<times> u32) list" where
  "plan op phy mmd reg val \<equiv> todo op phy mmd reg val StepStart"

abbreviation m_todo :: "mdio \<Rightarrow> (bool \<times> u32) list" where
  "m_todo s \<equiv> todo (m_op s) (m_phy s) (m_mmd s) (m_reg s) (m_val s) (m_step s)"

text \<open>
  The other side of the mailbox: the PIOC program waits for the doorbell, consumes it, plays the frame
  in the command registers and publishes the result with STATUS last (\<^verbatim>\<open>pioc/mdio_master.ASM\<close>).
\<close>

definition cmd_word :: "(u8 \<Rightarrow> u8) \<Rightarrow> u32" where
  "cmd_word d = push_bit 24 (ucast (d DR_CMD0)) OR push_bit 16 (ucast (d DR_CMD1))
     OR push_bit 8 (ucast (d DR_CMD2)) OR ucast (d DR_CMD3)"

definition blob :: "'p device \<Rightarrow> mdio \<times> 'p \<Rightarrow> mdio \<times> 'p" where
  "blob dev x =
    (case x of (s, p) \<Rightarrow>
       if dr s DR_CTRL AND CTRL_GO = 0 then (s, p)
       else case transact dev (dr s DR_CTRL AND CTRL_READ \<noteq> 0, cmd_word (dr s)) p of (st, v, p') \<Rightarrow>
         let d = (dr s)(DR_CTRL := dr s DR_CTRL AND NOT CTRL_GO);
             d = (if dr s DR_CTRL AND CTRL_READ \<noteq> 0
                  then d(DR_RES_H := ucast (drop_bit 8 v), DR_RES_L := ucast v) else d)
         in (s\<lparr>dr := d(DR_STATUS := if st = Done then ST_OK else ST_NORESP)\<rparr>, p'))"

datatype event = Tick u32 | Blob

fun run :: "'p device \<Rightarrow> event list \<Rightarrow> mdio \<times> 'p \<Rightarrow> mdio \<times> 'p" where
  "run dev [] x = x"
| "run dev (Tick t # es) x = run dev es (master_tick False t (fst x), snd x)"
| "run dev (Blob # es) x = run dev es (blob dev x)"

subsection \<open>The driver refines the bus\<close>

lemma cmd_bytes_u32:
  "push_bit 24 (ucast (ucast (drop_bit 24 w) :: u8)) OR push_bit 16 (ucast (ucast (drop_bit 16 w) :: u8))
   OR push_bit 8 (ucast (ucast (drop_bit 8 w) :: u8)) OR ucast (ucast w :: u8) = (w :: u32)"
proof (rule bit_word_eqI, goal_cases)
  case (1 n)
  then show ?case
    by (cases "16 \<le> n"; cases "24 \<le> n"; cases "8 \<le> n") (auto simp: bit_simps)
qed

lemma res_bytes_u16:
  "push_bit 8 (ucast (ucast (drop_bit 8 v) :: u8)) OR ucast (ucast v :: u8) = (v :: u16)"
  by (rule bit_word_eqI) (auto simp: bit_simps dest: bit_imp_le_length)

text \<open>The relation between the registers and the request while it runs.\<close>

definition armed :: "bool \<times> u32 \<Rightarrow> mdio \<Rightarrow> bool" where
  "armed f s \<longleftrightarrow> cmd_word (dr s) = snd f \<and> dr s DR_STATUS = 0
     \<and> dr s DR_CTRL = (if fst f then CTRL_READ else 0) OR CTRL_GO"

definition quiet :: "mdio \<Rightarrow> bool" where
  "quiet s \<longleftrightarrow> dr s DR_CTRL AND CTRL_GO = 0"

definition answered :: "bool \<Rightarrow> Status \<Rightarrow> u16 \<Rightarrow> mdio \<Rightarrow> bool" where
  "answered rd st v s \<longleftrightarrow> quiet s
     \<and> (st = Done \<and> dr s DR_STATUS = ST_OK
         \<and> v = (if rd then push_bit 8 (ucast (dr s DR_RES_H)) OR ucast (dr s DR_RES_L) else 0)
       \<or> st = NoResp \<and> v = 0 \<and> dr s DR_STATUS = ST_NORESP)"

definition owns :: "nat \<Rightarrow> mdio \<Rightarrow> bool" where
  "owns a s \<longleftrightarrow> m_active s \<and> m_resp s = Some a \<and> status (mem s a) = Pending"

definition stage_ok :: "mdio \<Rightarrow> bool" where
  "stage_ok s \<longleftrightarrow> m_started s \<and>
     (if m_op s = OpRead \<or> m_op s = OpWrite
      then m_step s = StepDone \<and> m_wireRead s = (m_op s = OpRead)
      else m_step s \<in> {StepMmdAddrMode, StepMmdSetAddr, StepMmdDataMode, StepMmdData}
        \<and> (m_step s = StepMmdData \<longrightarrow> m_wireRead s = (m_op s = OpReadMmd)))"

definition waiting :: "'p device \<Rightarrow> Status \<times> u16 \<times> 'p \<Rightarrow> mdio \<Rightarrow> 'p \<Rightarrow> bool" where
  "waiting dev final s p \<longleftrightarrow>
     (\<exists>f. fst f = m_wireRead s \<and> armed f s \<and> bus dev (f # m_todo s) p = final)"

definition replied :: "'p device \<Rightarrow> Status \<times> u16 \<times> 'p \<Rightarrow> mdio \<Rightarrow> 'p \<Rightarrow> bool" where
  "replied dev final s p \<longleftrightarrow> (\<exists>st v. answered (m_wireRead s) st v s \<and>
     (if st \<noteq> Done \<or> m_todo s = [] then (st, v, p) else bus dev (m_todo s) p) = final)"

definition settled :: "nat \<Rightarrow> Status \<times> u16 \<times> 'p \<Rightarrow> mdio \<Rightarrow> 'p \<Rightarrow> bool" where
  "settled a final s p \<longleftrightarrow> \<not> m_active s \<and> quiet s \<and> (case final of (st, v, q) \<Rightarrow>
     st \<in> {Done, NoResp} \<and> mem s a = \<lparr>status = st, resp_value = v\<rparr> \<and> p = q)"

definition finished :: "nat \<Rightarrow> Status \<times> u16 \<times> 'p \<Rightarrow> mdio \<Rightarrow> 'p \<Rightarrow> bool" where
  "finished a final s p \<longleftrightarrow>
     \<not> m_active s \<and> mem s a = \<lparr>status = Timeout, resp_value = 0\<rparr> \<or> settled a final s p"

definition req_inv :: "'p device \<Rightarrow> nat \<Rightarrow> Status \<times> u16 \<times> 'p \<Rightarrow> mdio \<times> 'p \<Rightarrow> bool" where
  "req_inv dev a final x \<longleftrightarrow> (case x of (s, p) \<Rightarrow>
     (owns a s \<and> \<not> m_started s \<and> m_step s = StepStart \<and> quiet s \<and> bus dev (m_todo s) p = final)
   \<or> (owns a s \<and> stage_ok s \<and> (waiting dev final s p \<or> replied dev final s p))
   \<or> finished a final s p)"

lemma master_frame [simp]:
  "m_todo (dr_write x v s) = m_todo s" "mem (dr_write x v s) = mem s"
  "m_active (dr_write x v s) = m_active s" "m_resp (dr_write x v s) = m_resp s"
  "m_wireRead (dr_write x v s) = m_wireRead s" "m_step (dr_write x v s) = m_step s"
  "m_op (dr_write x v s) = m_op s" "m_phy (dr_write x v s) = m_phy s"
  "m_mmd (dr_write x v s) = m_mmd s" "m_reg (dr_write x v s) = m_reg s"
  "m_val (dr_write x v s) = m_val s" "m_wireReg (dr_write x v s) = m_wireReg s"
  "m_wireVal (dr_write x v s) = m_wireVal s" "m_started (dr_write x v s) = m_started s"
  "m_startedMs (dr_write x v s) = m_startedMs s"
  "dr (dr_write x v s) = (dr s)(x := v)"
  by (simp_all add: dr_write_def)

text \<open>Starting a transaction changes nothing but the registers, and arms the frame of the wire fields.\<close>

lemma startTransaction_frame [simp]:
  "mem (startTransaction False s) = mem s"
  "m_active (startTransaction False s) = m_active s" "m_resp (startTransaction False s) = m_resp s"
  "m_wireRead (startTransaction False s) = m_wireRead s"
  "m_step (startTransaction False s) = m_step s" "m_op (startTransaction False s) = m_op s"
  "m_phy (startTransaction False s) = m_phy s" "m_mmd (startTransaction False s) = m_mmd s"
  "m_reg (startTransaction False s) = m_reg s" "m_val (startTransaction False s) = m_val s"
  by (simp_all add: startTransaction_def Let_def)

lemma startTransaction_armed:
  "armed (m_wireRead s, mdio_frame (m_wireRead s) (m_phy s) (m_wireReg s) (m_wireVal s))
     (startTransaction False s)"
  using cmd_bytes_u32 [of "mdio_frame (m_wireRead s) (m_phy s) (m_wireReg s) (m_wireVal s)"]
  by (cases "m_wireRead s") (simp_all add: armed_def startTransaction_def Let_def cmd_word_def dr_defs)

text \<open>One step of the request: the next frame of the plan is armed.\<close>

lemma startNextTransaction_next:
  fixes now :: u32
  assumes "m_todo s \<noteq> []"
  defines "s' \<equiv> startNextTransaction False now s"
  shows "\<exists>f. m_todo s = f # m_todo s' \<and> fst f = m_wireRead s' \<and> armed f s'"
    and "stage_ok s'"
    and "mem s' = mem s" "m_active s' = m_active s" "m_resp s' = m_resp s" "m_startedMs s' = now"
proof -
  have todo: "m_op s \<in> {OpReadMmd, OpWriteMmd} \<Longrightarrow>
      m_step s \<in> {StepStart, StepMmdAddrMode, StepMmdSetAddr, StepMmdDataMode}"
    "m_op s \<in> {OpRead, OpWrite} \<Longrightarrow> m_step s = StepStart"
    using assms(1) by (auto simp: todo_def Let_def split: Step.splits if_splits)
  let ?w = "nextWire (s\<lparr>m_started := False\<rparr>)"
  have "m_todo s = (m_wireRead ?w, mdio_frame (m_wireRead ?w) (m_phy ?w) (m_wireReg ?w) (m_wireVal ?w))
      # m_todo ?w"
    using todo by (cases "m_op s") (auto simp: nextWire_def todo_def)
  moreover have eq: "s' = (startTransaction False ?w)\<lparr>m_started := True, m_startedMs := now\<rparr>"
    using todo unfolding s'_def
    by (cases "m_op s") (auto simp: startNextTransaction_def nextWire_def)
  ultimately show "\<exists>f. m_todo s = f # m_todo s' \<and> fst f = m_wireRead s' \<and> armed f s'"
    using startTransaction_armed [of ?w] by (simp add: armed_def)
  show "stage_ok s'" "mem s' = mem s" "m_active s' = m_active s" "m_resp s' = m_resp s"
      "m_startedMs s' = now"
    using todo unfolding eq by (cases "m_op s"; auto simp: nextWire_def stage_ok_def)+
qed

lemma response_eq: "r\<lparr>resp_value := v, status := st\<rparr> = \<lparr>status = st, resp_value = v\<rparr>" for r :: Response
  by (cases r) simp

lemma finish_own:
  assumes "owns a s"
  shows "mem (finish st v s) a = \<lparr>status = st, resp_value = v\<rparr>" "\<not> m_active (finish st v s)"
    "dr (finish st v s) = dr s"
  using assms by (simp_all add: owns_def finish_def response_eq)

lemma quiet_blob: "quiet s \<Longrightarrow> blob dev (s, p) = (s, p)"
  by (simp add: quiet_def blob_def)

lemma blob_frame:
  assumes "blob dev (s, p) = (s', p')"
  shows "\<exists>d. s' = s\<lparr>dr := d\<rparr>"
  using assms
  by (auto simp: blob_def Let_def split: if_splits prod.splits)
     (metis mdio.surjective mdio.update_convs(2))

lemma registers_frame [simp]:
  "owns a (s\<lparr>dr := d\<rparr>) = owns a s" "stage_ok (s\<lparr>dr := d\<rparr>) = stage_ok s"
  by (simp_all add: owns_def stage_ok_def)

lemma go_bit: "((if rd then CTRL_READ else 0) OR CTRL_GO) AND CTRL_GO \<noteq> 0"
  "((if rd then CTRL_READ else 0) OR CTRL_GO) AND CTRL_READ \<noteq> 0 \<longleftrightarrow> rd"
  "(((if rd then CTRL_READ else 0) OR CTRL_GO) AND NOT CTRL_GO) AND CTRL_GO = 0"
  by (simp_all add: dr_defs)

text \<open>When the doorbell is up, the PIOC program turns a waiting request into a replied one.\<close>

lemma blob_waiting:
  assumes "waiting dev final s p" and "blob dev (s, p) = (s', p')"
  shows "replied dev final s' p'"
proof -
  obtain f where f: "fst f = m_wireRead s" "armed f s" "bus dev (f # m_todo s) p = final"
    using assms(1) by (auto simp: waiting_def)
  obtain st v p1 where t: "transact dev f p = (st, v, p1)" by (metis prod_cases3)
  have "st = Done \<or> st = NoResp \<and> v = 0" "\<not> fst f \<longrightarrow> v = 0 \<and> st = Done"
    using t by (auto simp: transact_def split: prod.splits option.splits if_splits)
  note v = this
  have ctrl: "dr s DR_CTRL = (if fst f then CTRL_READ else 0) OR CTRL_GO" and
    cmd: "(fst f, cmd_word (dr s)) = f" using f(2) by (auto simp: armed_def)
  have g: "dr s DR_CTRL AND CTRL_GO \<noteq> 0" "dr s DR_CTRL AND CTRL_READ \<noteq> 0 \<longleftrightarrow> fst f"
    unfolding ctrl by (rule go_bit)+
  let ?d = "(dr s)(DR_CTRL := dr s DR_CTRL AND NOT CTRL_GO)"
  let ?d' = "if fst f then ?d(DR_RES_H := ucast (drop_bit 8 v), DR_RES_L := ucast v) else ?d"
  have "blob dev (s, p) = (s\<lparr>dr := ?d'(DR_STATUS := if st = Done then ST_OK else ST_NORESP)\<rparr>, p1)"
    using g t cmd by (simp add: blob_def)
  then have s': "s' = s\<lparr>dr := ?d'(DR_STATUS := if st = Done then ST_OK else ST_NORESP)\<rparr>" "p' = p1"
    using assms(2) by simp_all
  have "answered (m_wireRead s) st v s'"
    using v res_bytes_u16 [of v] f(1) go_bit(3) [of True] go_bit(3) [of False]
    unfolding s' ctrl answered_def quiet_def
    by (auto simp: DR_CTRL_def DR_STATUS_def DR_RES_H_def DR_RES_L_def)
  moreover have "(if st \<noteq> Done \<or> m_todo s = [] then (st, v, p1) else bus dev (m_todo s) p1) = final"
    using f(3) t by simp
  moreover have "m_wireRead s' = m_wireRead s" "m_todo s' = m_todo s" by (simp_all add: s'(1))
  ultimately show ?thesis
    unfolding replied_def s'(2)
    by (intro exI [of _ st] exI [of _ v] conjI) (auto split: if_splits)
qed

lemma req_inv_blob:
  assumes "req_inv dev a final x"
  shows "req_inv dev a final (blob dev x)"
proof -
  obtain s p s' p' where x: "x = (s, p)" and b: "blob dev (s, p) = (s', p')" by (metis surj_pair)
  obtain d where d: "s' = s\<lparr>dr := d\<rparr>" using blob_frame [OF b] by blast
  have idle: "quiet s \<Longrightarrow> s' = s \<and> p' = p" using quiet_blob [of s dev p] b by simp
  consider "owns a s" "\<not> m_started s" "m_step s = StepStart" "quiet s" "bus dev (m_todo s) p = final"
    | "owns a s" "stage_ok s" "waiting dev final s p"
    | "owns a s" "stage_ok s" "replied dev final s p"
    | "finished a final s p"
    using assms by (auto simp: req_inv_def x)
  then show ?thesis
  proof cases
    case 1
    then show ?thesis using idle by (simp add: req_inv_def x b)
  next
    case 2
    then have "owns a s'" "stage_ok s'" by (simp_all add: d)
    then show ?thesis using blob_waiting [OF 2(3) b] by (simp add: req_inv_def x b)
  next
    case 3
    then have "quiet s" by (auto simp: replied_def answered_def)
    with 3 show ?thesis using idle by (simp add: req_inv_def x b)
  next
    case 4
    have "finished a final s' p'"
    proof (cases "quiet s")
      case True
      with 4 idle show ?thesis by simp
    next
      case False
      with 4 show ?thesis by (simp add: finished_def settled_def d)
    qed
    then show ?thesis by (simp add: req_inv_def b x)
  qed
qed

text \<open>One tick.\<close>

lemma completeTransaction_replied:
  fixes now :: u32
  assumes "owns a s" "stage_ok s" "answered (m_wireRead s) st v s"
    "(if st \<noteq> Done \<or> m_todo s = [] then (st, v, p) else bus dev (m_todo s) p) = final"
  defines "s' \<equiv> completeTransaction False now st v s"
  shows "settled a final s' p
    \<or> owns a s' \<and> stage_ok s' \<and> waiting dev final s' p \<and> length (m_todo s') < length (m_todo s)"
proof -
  let ?s = "s\<lparr>m_started := False\<rparr>"
  have own: "owns a ?s" and q: "quiet s" and st: "st \<in> {Done, NoResp}" "st = NoResp \<longrightarrow> v = 0"
    using assms by (auto simp: owns_def answered_def)
  show ?thesis
  proof (cases "st \<noteq> Done \<or> m_todo s = []")
    case True
    have "completeTransaction False now st v s = finish st v ?s"
    proof (cases "st = Done")
      case True
      with \<open>st \<noteq> Done \<or> m_todo s = []\<close> have t: "m_todo s = []" by simp
      have "m_step s = StepDone \<or> m_step s = StepMmdData \<and> (m_op s = OpReadMmd \<or> \<not> m_wireRead s)"
        using t assms(2) by (auto simp: stage_ok_def todo_def Let_def split: if_splits)
      moreover have "\<not> m_wireRead s \<longrightarrow> v = 0" using assms(3) by (auto simp: answered_def)
      ultimately show ?thesis using True by (auto simp: completeTransaction_def)
    next
      case False
      then show ?thesis using st by (auto simp: completeTransaction_def)
    qed
    moreover have "settled a final (finish st v ?s) p"
      using True assms(4) finish_own [OF own, of st v] q st(1)
      by (auto simp: settled_def quiet_def)
    ultimately show ?thesis by (simp add: s'_def)
  next
    case False
    let ?n = "startNextTransaction False now ?s"
    have "completeTransaction False now st v s = ?n"
      using False assms(2) by (auto simp: completeTransaction_def stage_ok_def todo_def split: if_splits)
    moreover have "m_todo ?s \<noteq> []" using False by simp
    note n = startNextTransaction_next [OF this, of now]
    have "owns a ?n" using own n(3,4,5) by (simp add: owns_def)
    moreover have "waiting dev final ?n p"
      using n(1) assms(4) False by (auto simp: waiting_def)
    moreover have "length (m_todo ?n) < length (m_todo s)" using n(1) by auto
    ultimately show ?thesis using n(2) by (simp add: s'_def)
  qed
qed

lemma tick_replied:
  fixes now :: u32
  assumes "owns a s" "stage_ok s" "replied dev final s p"
  defines "s' \<equiv> master_tick False now s"
  shows "settled a final s' p
    \<or> owns a s' \<and> stage_ok s' \<and> waiting dev final s' p \<and> length (m_todo s') < length (m_todo s)"
proof -
  obtain st v where r: "answered (m_wireRead s) st v s"
    "(if st \<noteq> Done \<or> m_todo s = [] then (st, v, p) else bus dev (m_todo s) p) = final"
    using assms(3) by (auto simp: replied_def)
  have "s' = completeTransaction False now st v s"
    using r(1) assms(1,2) unfolding s'_def
    by (auto simp: answered_def master_tick_def stage_ok_def owns_def ST_OK_def ST_NORESP_def)
  then show ?thesis using completeTransaction_replied [OF assms(1,2) r] by simp
qed

lemma tick_inactive: "\<not> m_active s \<Longrightarrow> master_tick stub now s = s"
  by (simp add: master_tick_def)

lemma req_inv_tick:
  assumes "req_inv dev a final (s, p)"
  shows "req_inv dev a final (master_tick False now s, p)"
proof -
  consider "owns a s" "\<not> m_started s" "m_step s = StepStart" "quiet s" "bus dev (m_todo s) p = final"
    | "owns a s" "stage_ok s" "waiting dev final s p"
    | "owns a s" "stage_ok s" "replied dev final s p"
    | "finished a final s p"
    using assms by (auto simp: req_inv_def)
  then show ?thesis
  proof cases
    case 1
    let ?n = "startNextTransaction False now s"
    have "m_todo s \<noteq> []" using 1(3) by (simp add: todo_def Let_def)
    note n = startNextTransaction_next [OF this, of now]
    obtain f where f: "m_todo s = f # m_todo ?n" "fst f = m_wireRead ?n" "armed f ?n"
      using n(1) by blast
    have "owns a ?n" using n(3,4,5) 1(1) by (simp add: owns_def)
    moreover have "bus dev (f # m_todo ?n) p = final" using f(1) 1(5) by simp
    with f(2,3) have "waiting dev final ?n p" unfolding waiting_def by blast
    moreover have "master_tick False now s = ?n"
      using 1(1,2) f(3) n(6) by (simp add: master_tick_def owns_def armed_def MDIO_TIMEOUT_MS_def)
    ultimately show ?thesis using n(2) by (simp add: req_inv_def)
  next
    case 2
    then have "dr s DR_STATUS = 0" by (auto simp: waiting_def armed_def)
    with 2(1,2) have "master_tick False now s = s \<or> master_tick False now s = finish Timeout 0 s"
      by (simp add: master_tick_def stage_ok_def owns_def)
    moreover have "finished a final (finish Timeout 0 s) p"
      using finish_own [OF 2(1), of Timeout 0] by (simp add: finished_def)
    ultimately show ?thesis using 2 by (auto simp: req_inv_def)
  next
    case 3
    from tick_replied [OF 3, of now] show ?thesis by (auto simp: req_inv_def finished_def)
  next
    case 4
    then have "\<not> m_active s" by (auto simp: finished_def settled_def)
    then have "master_tick False now s = s" by (rule tick_inactive)
    with 4 show ?thesis by (simp add: req_inv_def)
  qed
qed

lemma req_inv_run:
  "req_inv dev a final x \<Longrightarrow> req_inv dev a final (run dev evs x)"
proof (induction dev evs x rule: run.induct)
  case (2 dev t es x)
  then show ?case using req_inv_tick [of dev a final "fst x" "snd x" t] by simp
qed (simp_all add: req_inv_blob)

lemma req_inv_submit:
  assumes "\<not> m_active s" "quiet s"
  shows "req_inv dev a (bus dev (plan op phy mmd reg val) p) (snd (submit op phy mmd reg val a s), p)"
  using assms by (simp add: req_inv_def submit_def Let_def owns_def quiet_def clear_def)

subsection \<open>Every request ends\<close>

text \<open>
  The environment of the driver at its weakest: before each tick the registers may hold anything. The
  number of frames left bounds the number of transactions, and a transaction that is not answered is
  given up after five milliseconds.
\<close>

fun run_env :: "(u32 \<times> (u8 \<Rightarrow> u8)) list \<Rightarrow> mdio \<Rightarrow> mdio" where
  "run_env [] s = s"
| "run_env ((t, d) # es) s = run_env es (master_tick False t (s\<lparr>dr := d\<rparr>))"

text \<open>Consecutive ticks more than the timeout apart (and less than a turn of the 32-bit clock).\<close>

fun spaced :: "u32 \<Rightarrow> u32 list \<Rightarrow> bool" where
  "spaced t [] = True"
| "spaced t (u # us) = (MDIO_TIMEOUT_MS < u - t \<and> spaced u us)"

definition running :: "mdio \<Rightarrow> bool" where
  "running s \<longleftrightarrow> m_active s \<and> stage_ok s"

lemma completeTransaction_progress:
  fixes now :: u32 and v :: u16
  assumes "running s" "st \<noteq> Pending"
  defines "s' \<equiv> completeTransaction False now st v s"
  shows "\<not> m_active s' \<or> running s' \<and> m_startedMs s' = now \<and> length (m_todo s') < length (m_todo s)"
proof (cases "st \<noteq> Done \<or> m_step s = StepDone \<or> m_step s = StepMmdData")
  case True
  then show ?thesis by (auto simp: s'_def completeTransaction_def finish_def Let_def)
next
  case False
  let ?s = "s\<lparr>m_started := False\<rparr>"
  have "m_todo ?s \<noteq> []" using False assms(1)
    by (auto simp: running_def stage_ok_def todo_def split: if_splits)
  note n = startNextTransaction_next [OF this, of now]
  have "s' = startNextTransaction False now ?s"
    using False by (simp add: s'_def completeTransaction_def)
  then show ?thesis using n assms(1) by (auto simp: running_def)
qed

lemma tick_progress:
  fixes now :: u32
  assumes "running s" "MDIO_TIMEOUT_MS < now - m_startedMs s"
  defines "s' \<equiv> master_tick False now s"
  shows "\<not> m_active s' \<or> running s' \<and> m_startedMs s' = now \<and> length (m_todo s') < length (m_todo s)"
proof (cases "dr s DR_STATUS = 0")
  case True
  then show ?thesis
    using assms by (simp add: s'_def master_tick_def running_def stage_ok_def finish_def Let_def)
next
  case False
  have started: "m_started s" "m_active s" using assms(1) by (simp_all add: running_def stage_ok_def)
  define st where "st = (if dr s DR_STATUS = ST_NORESP then NoResp
      else if dr s DR_STATUS \<noteq> ST_OK then Timeout else Done)"
  define v :: u16 where "v = (if st = Done \<and> m_wireRead s
      then push_bit 8 (ucast (dr s DR_RES_H)) OR ucast (dr s DR_RES_L) else 0)"
  have "s' = completeTransaction False now st v s \<and> st \<noteq> Pending"
    using started False by (simp add: s'_def master_tick_def st_def v_def Let_def)
  then show ?thesis using completeTransaction_progress [OF assms(1)] by metis
qed

lemma run_env_inactive: "\<not> m_active s \<Longrightarrow> \<not> m_active (run_env es s)"
  by (induction es s rule: run_env.induct) (simp_all add: tick_inactive)

lemma run_env_ends:
  assumes "running s" "length (m_todo s) < length es" "spaced (m_startedMs s) (map fst es)"
  shows "\<not> m_active (run_env es s)"
  using assms
proof (induction es arbitrary: s)
  case Nil
  then show ?case by simp
next
  case (Cons e es)
  obtain t d where e: "e = (t, d)" by fastforce
  let ?s = "s\<lparr>dr := d\<rparr>" and ?s' = "master_tick False t (s\<lparr>dr := d\<rparr>)"
  have "running ?s" "MDIO_TIMEOUT_MS < t - m_startedMs ?s"
    using Cons.prems by (simp_all add: running_def e)
  from tick_progress [OF this] show ?case
  proof
    assume "\<not> m_active ?s'"
    then show ?thesis using run_env_inactive by (simp add: e)
  next
    assume p: "running ?s' \<and> m_startedMs ?s' = t \<and> length (m_todo ?s') < length (m_todo ?s)"
    then show ?thesis using Cons.IH [of ?s'] Cons.prems by (simp add: e)
  qed
qed

lemma submit_first_tick:
  fixes now :: u32 and d :: "u8 \<Rightarrow> u8" and op phy mmd reg val a
  assumes "\<not> m_active s"
  defines "s' \<equiv> master_tick False now ((snd (submit op phy mmd reg val a s))\<lparr>dr := d\<rparr>)"
  shows "running s' \<and> m_startedMs s' = now \<and> length (m_todo s') < 4"
proof -
  let ?s = "(snd (submit op phy mmd reg val a s))\<lparr>dr := d\<rparr>"
  let ?n = "startNextTransaction False now ?s"
  have s: "m_active ?s" "\<not> m_started ?s" "m_step ?s = StepStart"
    using assms(1) by (simp_all add: submit_def Let_def)
  have t: "m_todo ?s \<noteq> []" "length (m_todo ?s) \<le> 4" unfolding s(3) by (simp_all add: todo_def Let_def)
  note n = startNextTransaction_next [OF t(1), of now]
  then have "dr ?n DR_STATUS = 0" by (auto simp: armed_def)
  then have "s' = ?n" using s n(6) by (simp add: s'_def master_tick_def MDIO_TIMEOUT_MS_def)
  then show ?thesis using n s t(2) by (auto simp: running_def)
qed

subsection \<open>A PHY with MMD registers\<close>

text \<open>
  The device side of IEEE 802.3 Clause 22 and its MMD access registers (22.2.4.3.11): register 13
  holds a function and a device address, register 14 reads or writes either the address register of
  that device or the register it points at. It is what the four-frame sequence is meant to drive.
\<close>

record phy =
  ph_regs :: "u8 \<Rightarrow> u16"
  ph_ctl :: u16
  ph_addr :: "u8 \<Rightarrow> u16"
  ph_mmd :: "u8 \<Rightarrow> u16 \<Rightarrow> u16"

definition phy_devad :: "phy \<Rightarrow> u8" where
  "phy_devad p = ucast (ph_ctl p AND 0x1F)"

definition phy_func :: "phy \<Rightarrow> u16" where
  "phy_func p = drop_bit 14 (ph_ctl p)"

definition phy_bump :: "bool \<Rightarrow> phy \<Rightarrow> phy" where
  "phy_bump c p = (if c then p\<lparr>ph_addr := (ph_addr p)(phy_devad p := ph_addr p (phy_devad p) + 1)\<rparr> else p)"

definition phy_write :: "u8 \<Rightarrow> u16 \<Rightarrow> phy \<Rightarrow> phy" where
  "phy_write r v p =
    (let d = phy_devad p in
     if r = 13 then p\<lparr>ph_ctl := v\<rparr>
     else if r = 14 then
       (if phy_func p = 0 then p\<lparr>ph_addr := (ph_addr p)(d := v)\<rparr>
        else phy_bump (phy_func p \<noteq> 1)
          (p\<lparr>ph_mmd := (ph_mmd p)(d := (ph_mmd p d)(ph_addr p d := v))\<rparr>))
     else p\<lparr>ph_regs := (ph_regs p)(r := v)\<rparr>)"

definition phy_read :: "u8 \<Rightarrow> phy \<Rightarrow> u16 \<times> phy" where
  "phy_read r p =
    (let d = phy_devad p in
     if r = 13 then (ph_ctl p, p)
     else if r = 14 then
       (if phy_func p = 0 then (ph_addr p d, p)
        else (ph_mmd p d (ph_addr p d), phy_bump (phy_func p = 2) p))
     else (ph_regs p r, p))"

text \<open>A PHY that listens to address \<open>pa\<close>: start code, operation, addresses, turnaround and data.\<close>

definition phy_dev :: "u8 \<Rightarrow> phy device" where
  "phy_dev pa frame p =
    (let st = drop_bit 30 frame AND 3; op = drop_bit 28 frame AND 3;
         ad = ucast (drop_bit 23 frame AND 0x1F); r = ucast (drop_bit 18 frame AND 0x1F);
         ta = drop_bit 16 frame AND 3
     in if st \<noteq> 1 \<or> ad \<noteq> pa then (None, p)
        else if op = 2 then (case phy_read r p of (v, p') \<Rightarrow> (Some v, p'))
        else if op = 1 \<and> ta = 2 then (None, phy_write r (ucast frame) p)
        else (None, p))"

lemma low_bits:
  "x AND 0x1F = take_bit 5 x" "y AND 3 = take_bit 2 y" for x y :: "'a::len word"
proof -
  have "(0x1F :: 'a word) = mask 5" "(3 :: 'a word) = mask 2" by (simp_all add: mask_eq_exp_minus_1)
  then show "x AND 0x1F = take_bit 5 x" "y AND 3 = take_bit 2 y" by (simp_all only: take_bit_eq_mask)
qed
lemma bit_small: "bit (2 :: u32) n \<longleftrightarrow> n = 1" "bit (1 :: u32) n \<longleftrightarrow> n = 0" "bit (0 :: u32) n \<longleftrightarrow> False"
  "bit (2 :: int) n \<longleftrightarrow> n = 1"
  by (auto simp: bit_2_iff bit_1_iff)
lemma bit_mdio_frame:
  "bit (mdio_frame rd phy r v) n \<longleftrightarrow> n = 30 \<or> n = 29 \<and> rd \<or> n = 28 \<and> \<not> rd
     \<or> 23 \<le> n \<and> n < 28 \<and> bit phy (n - 23) \<or> 18 \<le> n \<and> n < 23 \<and> bit r (n - 18)
     \<or> n = 17 \<and> \<not> rd \<or> n < 16 \<and> \<not> rd \<and> bit v n"
proof -
  have v: "bit v n \<Longrightarrow> n < 16" by (drule bit_imp_le_length) simp
  have len32: "LENGTH(32) = 32" by simp
  have ranges: "(30 \<le> n \<and> n < 32 \<and> n - 30 = 0) = (n = 30)" "(28 \<le> n \<and> n < 32 \<and> n - 28 = 1) = (n = 29)"
    "(28 \<le> n \<and> n < 32 \<and> n - 28 = 0) = (n = 28)" "(16 \<le> n \<and> n < 32 \<and> n - 16 = 1) = (n = 17)"
    "(23 \<le> n \<and> n < 32 \<and> n - 23 < 32 \<and> n - 23 < 5 \<and> b) = (23 \<le> n \<and> n < 28 \<and> b)"
    "(18 \<le> n \<and> n < 32 \<and> n - 18 < 32 \<and> n - 18 < 5 \<and> b) = (18 \<le> n \<and> n < 23 \<and> b)"
    "(n < 32 \<and> bit v n) = (n < 16 \<and> bit v n)" for b
    using v by auto
  show ?thesis
    by (cases rd; simp only: mdio_frame_def Let_def low_bits bit_or_iff bit_push_bit_iff
        bit_unsigned_iff bit_take_bit_iff possible_bit_word if_True if_False bit_small len32
        ranges simp_thms)
qed
lemma frame_fields:
  "drop_bit 30 (mdio_frame rd phy r v) AND 3 = 1"
  "drop_bit 28 (mdio_frame rd phy r v) AND 3 = (if rd then 2 else 1)"
  "ucast (drop_bit 23 (mdio_frame rd phy r v) AND 0x1F) = phy AND 0x1F"
  "ucast (drop_bit 18 (mdio_frame rd phy r v) AND 0x1F) = r AND 0x1F"
  "drop_bit 16 (mdio_frame rd phy r v) AND 3 = (if rd then 0 else 2)"
  "\<not> rd \<Longrightarrow> ucast (mdio_frame rd phy r v) = v"
  unfolding low_bits
  by (rule bit_word_eqI; cases rd; auto simp: bit_mdio_frame bit_drop_bit_eq bit_take_bit_iff
      bit_unsigned_iff bit_small dest: bit_imp_le_length)+

lemma phy_dev_frame:
  assumes "pa = phy AND 0x1F"
  shows "phy_dev pa (mdio_frame True phy r v) p
      = (case phy_read (r AND 0x1F) p of (v, p') \<Rightarrow> (Some v, p'))"
    and "phy_dev pa (mdio_frame False phy r v) p = (None, phy_write (r AND 0x1F) v p)"
  using assms by (simp_all add: phy_dev_def Let_def frame_fields)

text \<open>What the four frames of an MMD request do to such a PHY.\<close>

definition mmd_mode :: "u8 \<Rightarrow> u16" where
  "mmd_mode mmd = MMD_DATA OR ucast (mmd AND 0x1F)"

lemma low5_idem: "take_bit 5 (take_bit 5 x) = take_bit 5 x" for x :: "'a::len word"
  by simp

lemma mmd_ctl_fields:
  "ucast ((MMD_ADDR OR ucast (mmd AND 0x1F)) AND 0x1F) = mmd AND 0x1F"
  "drop_bit 14 (MMD_ADDR OR ucast (mmd AND 0x1F)) = (0 :: u16)"
  "ucast (mmd_mode mmd AND 0x1F) = mmd AND 0x1F"
  "drop_bit 14 (mmd_mode mmd) = 1"
proof -
  have d: "MMD_DATA = push_bit 14 1" by (simp add: MMD_DATA_def)
  show "ucast ((MMD_ADDR OR ucast (mmd AND 0x1F)) AND 0x1F) = mmd AND 0x1F"
    unfolding low_bits MMD_ADDR_def by (rule bit_word_eqI) (auto simp: bit_simps)
  show "drop_bit 14 (MMD_ADDR OR ucast (mmd AND 0x1F)) = (0 :: u16)"
    unfolding low_bits MMD_ADDR_def by (rule bit_word_eqI) (auto simp: bit_simps)
  show "ucast (mmd_mode mmd AND 0x1F) = mmd AND 0x1F"
    unfolding low_bits mmd_mode_def d
    by (rule bit_word_eqI)
       (auto simp: bit_or_iff bit_take_bit_iff bit_unsigned_iff bit_push_bit_iff simp del: push_bit_of_1)
  show "drop_bit 14 (mmd_mode mmd) = 1"
    unfolding low_bits mmd_mode_def d
    by (rule bit_word_eqI)
       (auto simp: bit_or_iff bit_take_bit_iff bit_unsigned_iff bit_push_bit_iff bit_drop_bit_eq
          bit_1_iff simp del: push_bit_of_1)
qed

definition selected :: "u8 \<Rightarrow> u16 \<Rightarrow> phy \<Rightarrow> phy" where
  "selected mmd reg p = p\<lparr>ph_ctl := mmd_mode mmd, ph_addr := (ph_addr p)(mmd AND 0x1F := reg)\<rparr>"

lemma REGCR_ADDAR: "REGCR AND 0x1F = 13" "ADDAR AND 0x1F = 14"
  by (simp_all add: REGCR_def ADDAR_def)

lemma phy_select:
  "phy_write 13 (mmd_mode mmd) (phy_write 14 reg (phy_write 13 (MMD_ADDR OR ucast (mmd AND 0x1F)) p))
   = selected mmd reg p"
  using mmd_ctl_fields [of mmd]
  by (simp add: phy_write_def phy_func_def phy_devad_def selected_def Let_def)

lemma selected_data:
  "phy_read 14 (selected mmd reg p) = (ph_mmd p (mmd AND 0x1F) reg, selected mmd reg p)"
  "phy_write 14 v (selected mmd reg p)
   = (selected mmd reg p)\<lparr>ph_mmd := (ph_mmd p)(mmd AND 0x1F := (ph_mmd p (mmd AND 0x1F))(reg := v))\<rparr>"
  using mmd_ctl_fields(3,4) [of mmd]
  by (simp_all add: phy_read_def phy_write_def phy_func_def phy_devad_def selected_def phy_bump_def Let_def)

lemma transact_write: "pa = phy AND 0x1F \<Longrightarrow>
  transact (phy_dev pa) (False, mdio_frame False phy r v) p = (Done, 0, phy_write (r AND 0x1F) v p)"
  by (simp add: transact_def phy_dev_frame)

lemma transact_read: "pa = phy AND 0x1F \<Longrightarrow> phy_read (r AND 0x1F) p = (w, q) \<Longrightarrow>
  transact (phy_dev pa) (True, mdio_frame True phy r v) p = (Done, w, q)"
  by (simp add: transact_def phy_dev_frame)

lemma bus_mmd:
  assumes "pa = phy AND 0x1F"
  shows "bus (phy_dev pa) (plan OpReadMmd phy mmd reg val) p
      = (Done, ph_mmd p (mmd AND 0x1F) reg, selected mmd reg p)"
    and "bus (phy_dev pa) (plan OpWriteMmd phy mmd reg val) p
      = (Done, 0, (selected mmd reg p)
          \<lparr>ph_mmd := (ph_mmd p)(mmd AND 0x1F := (ph_mmd p (mmd AND 0x1F))(reg := val))\<rparr>)"
  using phy_select [of mmd reg p] selected_data(1) [of mmd reg p] selected_data(2) [of val mmd reg p]
  by (simp_all add: todo_def transact_write [OF assms] transact_read [OF assms] REGCR_ADDAR
      flip: mmd_mode_def)

text \<open>The PIOC program keeping up with the driver: one run of it after each tick.\<close>

definition serve :: "u32 list \<Rightarrow> event list" where
  "serve ts = concat (map (\<lambda>t. [Tick t, Blob]) ts)"

lemma settled_run: "settled a final s p \<Longrightarrow> run dev evs (s, p) = (s, p)"
proof (induction dev evs "(s, p)" rule: run.induct)
  case (2 dev t es)
  then have "master_tick False t s = s" by (intro tick_inactive) (simp add: settled_def)
  with 2 show ?case by simp
next
  case (3 dev es)
  then have "blob dev (s, p) = (s, p)" by (intro quiet_blob) (simp add: settled_def)
  with 3 show ?case by simp
qed simp

lemma serve_replied:
  assumes "owns a s" "stage_ok s" "replied dev final s p" "length (m_todo s) < length ts"
  shows "case run dev (serve ts) (s, p) of (s', p') \<Rightarrow> settled a final s' p'"
  using assms
proof (induction ts arbitrary: s p)
  case Nil
  then show ?case by simp
next
  case (Cons t ts)
  let ?s = "master_tick False t s"
  obtain s2 p2 where b: "blob dev (?s, p) = (s2, p2)" by fastforce
  have run: "run dev (serve (t # ts)) (s, p) = run dev (serve ts) (s2, p2)"
    by (simp add: serve_def b)
  from tick_replied [OF Cons.prems(1-3), of t] show ?case
  proof
    assume st: "settled a final ?s p"
    then have "run dev (serve (t # ts)) (s, p) = (?s, p)"
      using settled_run [OF st, of dev "Blob # serve ts"] by (simp add: serve_def)
    with st show ?thesis by simp
  next
    assume w: "owns a ?s \<and> stage_ok ?s \<and> waiting dev final ?s p \<and> length (m_todo ?s) < length (m_todo s)"
    obtain d where "s2 = ?s\<lparr>dr := d\<rparr>" using blob_frame [OF b] by blast
    with w Cons.prems(4) have "owns a s2" "stage_ok s2" "length (m_todo s2) < length ts" by simp_all
    then show ?thesis using Cons.IH [of s2 p2] blob_waiting [OF _ b] w by (simp add: run)
  qed
qed

lemma serve_submit:
  assumes "\<not> m_active s" "quiet s" "5 \<le> length ts"
  shows "case run dev (serve ts) (snd (submit op phy mmd reg val a s), p) of (s', p') \<Rightarrow>
    settled a (bus dev (plan op phy mmd reg val) p) s' p'"
proof -
  let ?s = "snd (submit op phy mmd reg val a s)" and ?f = "bus dev (plan op phy mmd reg val) p"
  obtain t us where ts: "ts = t # us" "4 \<le> length us" using assms(3) by (cases ts) auto
  have s: "m_active ?s" "\<not> m_started ?s" "m_step ?s = StepStart" "owns a ?s" "bus dev (m_todo ?s) p = ?f"
    using assms(1) by (simp_all add: submit_def Let_def owns_def clear_def)
  have t: "m_todo ?s \<noteq> []" "length (m_todo ?s) \<le> 4" unfolding s(3) by (simp_all add: todo_def Let_def)
  let ?n = "startNextTransaction False t ?s"
  note n = startNextTransaction_next [OF t(1), of t]
  obtain f where f: "m_todo ?s = f # m_todo ?n" "fst f = m_wireRead ?n" "armed f ?n" using n(1) by blast
  have "master_tick False t ?s = ?n"
    using s f(3) n(6) by (simp add: master_tick_def armed_def MDIO_TIMEOUT_MS_def)
  moreover obtain s2 p2 where b: "blob dev (?n, p) = (s2, p2)" by fastforce
  ultimately have run: "run dev (serve ts) (?s, p) = run dev (serve us) (s2, p2)"
    by (simp add: serve_def ts)
  have "bus dev (f # m_todo ?n) p = ?f" using f(1) s(5) by simp
  with f(2,3) have w: "waiting dev ?f ?n p" unfolding waiting_def by blast
  obtain d where "s2 = ?n\<lparr>dr := d\<rparr>" using blob_frame [OF b] by blast
  moreover have "owns a ?n" using n(3,4,5) s(4) by (simp add: owns_def)
  moreover have "length (m_todo ?n) < length us" using f(1) t(2) ts(2) by simp
  ultimately have "owns a s2" "stage_ok s2" "length (m_todo s2) < length us" using n(2) by simp_all
  from serve_replied [OF this(1,2) blob_waiting [OF w b] this(3)] show ?thesis by (simp add: run)
qed

text \<open>The mailbox of the request, and only that one, is written, and it does not stay pending.\<close>

definition answers :: "nat \<Rightarrow> (nat \<Rightarrow> Response) \<Rightarrow> mdio \<Rightarrow> bool" where
  "answers a m0 s \<longleftrightarrow> (\<forall>b. b \<noteq> a \<longrightarrow> mem s b = m0 b)
     \<and> (if m_active s then m_resp s = Some a \<and> status (mem s a) = Pending
         else status (mem s a) \<in> {Done, NoResp, Timeout})"

lemma answers_dr [simp]: "answers a m0 (s\<lparr>dr := d\<rparr>) = answers a m0 s"
  by (simp add: answers_def)

lemma startNextTransaction_frame:
  "mem (startNextTransaction False now s) = mem s"
  "m_active (startNextTransaction False now s) = m_active s"
  "m_resp (startNextTransaction False now s) = m_resp s"
  by (auto simp: startNextTransaction_def nextWire_def Let_def split: Step.splits)

lemma answers_finish:
  "answers a m0 s \<Longrightarrow> m_active s \<Longrightarrow> st \<in> {Done, NoResp, Timeout} \<Longrightarrow> answers a m0 (finish st v s)"
  by (auto simp: answers_def finish_def)

lemma answers_next:
  "answers a m0 s \<Longrightarrow> m_active s \<Longrightarrow> answers a m0 (startNextTransaction False now s)"
  by (simp add: answers_def startNextTransaction_frame)

lemma answers_complete:
  assumes "answers a m0 s" "m_active s" "st \<in> {Done, NoResp, Timeout}"
  shows "answers a m0 (completeTransaction False now st v s)"
proof -
  let ?s = "s\<lparr>m_started := False\<rparr>"
  have "answers a m0 ?s" "m_active ?s" using assms(1,2) by (simp_all add: answers_def)
  note f = answers_finish [OF this] and n = answers_next [OF this]
  show ?thesis using f [of Done] f [OF assms(3)] n by (simp add: completeTransaction_def Let_def)
qed

lemma answers_tick:
  assumes "answers a m0 s"
  shows "answers a m0 (master_tick False now s)"
proof (cases "m_active s")
  case True
  define s' where "s' = (if m_started s then s else startNextTransaction False now s)"
  have s': "answers a m0 s'" "m_active s'"
    using assms True answers_next [OF assms True] by (auto simp: s'_def startNextTransaction_frame)
  have "master_tick False now s =
      (if dr s' DR_STATUS = 0 then if MDIO_TIMEOUT_MS < now - m_startedMs s' then finish Timeout 0 s' else s'
       else if dr s' DR_STATUS = ST_NORESP then completeTransaction False now NoResp 0 s'
       else if dr s' DR_STATUS \<noteq> ST_OK then completeTransaction False now Timeout 0 s'
       else completeTransaction False now Done
         (if m_wireRead s' then push_bit 8 (ucast (dr s' DR_RES_H)) OR ucast (dr s' DR_RES_L) else 0) s')"
    using True unfolding master_tick_def Let_def s'_def by (simp only: if_True if_False not_True_eq_False)
  then show ?thesis
    using s'(1) answers_finish [OF s', of Timeout 0] answers_complete [OF s', of NoResp now 0]
      answers_complete [OF s', of Timeout now 0] answers_complete [OF s', of Done now]
    by simp
next
  case False
  then show ?thesis using assms by (simp add: tick_inactive)
qed

lemma answers_run_env: "answers a m0 s \<Longrightarrow> answers a m0 (run_env es s)"
proof (induction es s rule: run_env.induct)
  case (2 t d es s)
  then show ?case using answers_tick [of a m0 "s\<lparr>dr := d\<rparr>" t] by simp
qed simp

subsection \<open>Properties\<close>

text \<open>
  C5. Whatever the interleaving of driver ticks (at any times) and runs of the PIOC program, an accepted
  request is still pending, or was given up with Timeout, or has exactly the result, and left the
  device in exactly the state, of sending the frames of its plan one after the other.
\<close>

theorem master_refines_bus:
  assumes "\<not> m_active s" and "quiet s"
  shows "case run dev evs (snd (submit op phy mmd reg val a s), p) of (s', p') \<Rightarrow>
    case bus dev (plan op phy mmd reg val) p of (st, v, q) \<Rightarrow>
      m_active s' \<and> status (mem s' a) = Pending
    \<or> \<not> m_active s' \<and> (mem s' a = \<lparr>status = Timeout, resp_value = 0\<rparr>
        \<or> mem s' a = \<lparr>status = st, resp_value = v\<rparr> \<and> p' = q)"
  using req_inv_run [OF req_inv_submit [OF assms, of dev a op phy mmd reg val p], of evs]
  by (auto simp: req_inv_def owns_def finished_def settled_def split: prod.splits)

theorem master_refines_bus_witness:
  "case run (\<lambda>frame n. (Some (ucast frame), n + 1)) [Tick 7, Blob, Tick 20]
      (snd (submit OpRead 1 0 4 0 9 mdio_init), 0 :: nat) of (s', p') \<Rightarrow>
    case bus (\<lambda>frame n. (Some (ucast frame), n + 1)) (plan OpRead 1 0 4 0) (0 :: nat) of (st, v, q) \<Rightarrow>
      m_active s' \<and> status (mem s' 9) = Pending
    \<or> \<not> m_active s' \<and> (mem s' 9 = \<lparr>status = Timeout, resp_value = 0\<rparr>
        \<or> mem s' 9 = \<lparr>status = st, resp_value = v\<rparr> \<and> p' = q)"
  by (rule master_refines_bus) (simp_all add: mdio_init_def quiet_def)

text \<open>
  C39. When the PIOC program keeps up with the driver, five ticks at any times complete any request, a
  Clause-22 access or the four frames of an MMD access, with the result of the bus.
\<close>

theorem master_serves:
  assumes "\<not> m_active s" and "quiet s" and "5 \<le> length ts"
  shows "case run dev (serve ts) (snd (submit op phy mmd reg val a s), p) of (s', p') \<Rightarrow>
    case bus dev (plan op phy mmd reg val) p of (st, v, q) \<Rightarrow>
      \<not> m_active s' \<and> mem s' a = \<lparr>status = st, resp_value = v\<rparr> \<and> p' = q"
  using serve_submit [OF assms, where dev = dev and op = op and phy = phy and mmd = mmd and reg = reg
      and val = val and a = a and p = p]
  by (auto simp: settled_def split: prod.splits)

theorem master_serves_witness:
  "case run (\<lambda>frame n. (None, n + 1)) (serve [0, 1, 2, 3, 4])
      (snd (submit OpWriteMmd 1 31 0x300 7 9 mdio_init), 0 :: nat) of (s', p') \<Rightarrow>
    case bus (\<lambda>frame n. (None, n + 1)) (plan OpWriteMmd 1 31 0x300 7) (0 :: nat) of (st, v, q) \<Rightarrow>
      \<not> m_active s' \<and> mem s' 9 = \<lparr>status = st, resp_value = v\<rparr> \<and> p' = q"
  by (rule master_serves) (simp_all add: mdio_init_def quiet_def)

text \<open>
  C6. The MMD calls do what their names say on a PHY with Clause-22 MMD access: \<open>readMmd\<close> delivers the
  MMD register and changes no MMD register and no basic register; \<open>writeMmd\<close> changes exactly that MMD
  register.
\<close>

theorem mmd_access:
  assumes "\<not> m_active s" and "quiet s" and "5 \<le> length ts"
  shows "(case run (phy_dev (phy AND 0x1F)) (serve ts) (snd (master_readMmd phy mmd reg a s), p) of
       (s', p') \<Rightarrow> mem s' a = \<lparr>status = Done, resp_value = ph_mmd p (mmd AND 0x1F) reg\<rparr>
          \<and> ph_mmd p' = ph_mmd p \<and> ph_regs p' = ph_regs p)
    \<and> (case run (phy_dev (phy AND 0x1F)) (serve ts) (snd (master_writeMmd phy mmd reg val a s), p) of
       (s', p') \<Rightarrow> mem s' a = \<lparr>status = Done, resp_value = 0\<rparr> \<and> ph_regs p' = ph_regs p
          \<and> ph_mmd p' = (ph_mmd p)(mmd AND 0x1F := (ph_mmd p (mmd AND 0x1F))(reg := val)))"
  using serve_submit [OF assms, where dev = "phy_dev (phy AND 0x1F)" and op = OpReadMmd and phy = phy
      and mmd = mmd and reg = reg and val = 0 and a = a and p = p]
    serve_submit [OF assms, where dev = "phy_dev (phy AND 0x1F)" and op = OpWriteMmd and phy = phy
      and mmd = mmd and reg = reg and val = val and a = a and p = p]
  by (auto simp: master_readMmd_def master_writeMmd_def bus_mmd settled_def selected_def
      split: prod.splits)

theorem mmd_access_witness:
  "(case run (phy_dev (1 AND 0x1F)) (serve [1, 2, 3, 4, 5]) (snd (master_readMmd 1 31 0x300 9 mdio_init),
        \<lparr>ph_regs = \<lambda>_. 0, ph_ctl = 0, ph_addr = \<lambda>_. 0, ph_mmd = \<lambda>d r. r\<rparr>) of
       (s', p') \<Rightarrow> mem s' 9 = \<lparr>status = Done, resp_value = 0x300\<rparr>)"
proof -
  have "\<not> m_active mdio_init" "quiet mdio_init" "5 \<le> length [1, 2, 3, 4, 5 :: u32]"
    by (simp_all add: mdio_init_def quiet_def)
  from mmd_access [OF this, where phy = 1 and mmd = 31 and reg = "0x300" and a = 9 and
      p = "\<lparr>ph_regs = \<lambda>_. 0, ph_ctl = 0, ph_addr = \<lambda>_. 0, ph_mmd = \<lambda>d r. r\<rparr>"]
  show ?thesis by (auto split: prod.splits)
qed



text \<open>
  The stub build answers every request in one tick, with the documented value (phy 31 does not
  respond), and touches no register.
\<close>

theorem master_stub_answers:
  assumes "\<not> m_active s"
  shows "let s' = master_tick True now (snd (submit op phy mmd reg val a s)) in
    \<not> m_active s' \<and> dr s' = dr s \<and> wr s' = wr s \<and>
    mem s' a = (if phy = 0x1F then \<lparr>status = NoResp, resp_value = 0\<rparr>
      else \<lparr>status = Done, resp_value =
        (if op = OpRead then push_bit 8 (ucast phy) OR (reg AND 0x1F)
         else if op = OpReadMmd then push_bit 11 (ucast (mmd AND 0x1F)) XOR reg else 0)\<rparr>)"
  using assms
  by (cases op) (simp_all add: submit_def Let_def master_tick_def startNextTransaction_def nextWire_def
      startTransaction_def finish_def stub_value_def response_eq)

theorem master_stub_answers_witness:
  "let s' = master_tick True 3 (snd (submit OpRead 2 0 5 0 9 mdio_init)) in
    mem s' 9 = \<lparr>status = Done, resp_value = 0x205\<rparr>"
  using master_stub_answers [of mdio_init 3 OpRead 2 0 5 0 9]
  by (simp add: mdio_init_def Let_def)

end
