(* ===== verification/MdioBridge.thy ===== *)
theory MdioBridge
  imports MdioParse MdioMaster "HOL-Library.Multiset"
begin

text \<open>
  The USB command bridge of the active MDIO master (\<^verbatim>\<open>src/mdio/mdio_bridge.hpp\<close>, \<^verbatim>\<open>mdio_bridge.cpp\<close>):
  the line accumulator, the command handler, the poll for the response of the one outstanding
  request, and the bulk print. The bridge state holds the master it drives (\<open>mdio_\<close>), its response
  mailbox at the fixed address \<open>RESP\<close>, and two output logs: the lines it prints and the blinks it
  queues. Each \<open>printf\<close> of the code is one \<open>out_line\<close>; \<open>render\<close> is its format.
\<close>

subsection \<open>Data\<close>

datatype LineEvent = NoEvent | Ready | Invalid

text \<open>\<open><phy>/<reg>\<close> or \<open><phy>:<mmd>/<reg>\<close>.\<close>

datatype target = C22 u8 u16 | Mmd u8 u8 u16

datatype out_line =
    ReadVal target u16
  | WriteOk target
  | Err BridgeOp target string
  | ErrInvalid

record bridge =
  b_mdio :: mdio
  b_line :: string
  b_lineLen :: nat
  b_discard :: bool
  b_pending :: bool
  b_activeOp :: BridgeOp
  b_activePhy :: u8
  b_activeMmdAccess :: bool
  b_activeMmd :: u8
  b_activeReg :: u16
  b_printActive :: bool
  b_printAllOk :: bool
  b_printPhy :: u8
  b_printNextReg :: u8
  b_hasLed :: bool
  b_out :: "out_line list"
  b_blinks :: "(u32 \<times> u32) list"

definition RESP :: nat where "RESP = 0"

definition LINE_SIZE :: nat where "LINE_SIZE = 48"

definition bridge_init :: "bool \<Rightarrow> mdio \<Rightarrow> bridge" where
  "bridge_init hasLed m =
    \<lparr>b_mdio = m, b_line = replicate LINE_SIZE (CHR 0x00), b_lineLen = 0, b_discard = False,
     b_pending = False, b_activeOp = Read, b_activePhy = 0, b_activeMmdAccess = False,
     b_activeMmd = 0, b_activeReg = 0, b_printActive = False, b_printAllOk = True, b_printPhy = 0,
     b_printNextReg = 0, b_hasLed = hasLed, b_out = [], b_blinks = []\<rparr>"

subsection \<open>Output\<close>

fun dec :: "nat \<Rightarrow> string" where
  "dec n = (if n < 10 then [char_of (48 + n)] else dec (n div 10) @ [char_of (48 + n mod 10)])"

definition hex_digit :: "nat \<Rightarrow> char" where
  "hex_digit n = (if n < 10 then char_of (48 + n) else char_of (55 + n))"

definition hex4 :: "u16 \<Rightarrow> string" where
  "hex4 w = map (\<lambda>k. hex_digit (unat (drop_bit k w) mod 16)) [12, 8, 4, 0]"

fun render_target :: "target \<Rightarrow> string" where
  "render_target (C22 phy reg) = dec (unat phy) @ ''/'' @ dec (unat reg)"
| "render_target (Mmd phy mmd reg) =
     dec (unat phy) @ '':'' @ dec (unat mmd) @ ''/0x'' @ hex4 reg"

definition crlf :: string where "crlf = [CHR 0x0D, CHR 0x0A]"

fun render :: "out_line \<Rightarrow> string" where
  "render (ReadVal t v) = ''read '' @ render_target t @ '' 0x'' @ hex4 v @ crlf"
| "render (WriteOk t) = ''write '' @ render_target t @ '' ok'' @ crlf"
| "render (Err op t e) = verb op @ '' '' @ render_target t @ '' err '' @ e @ crlf"
| "render ErrInvalid = ''err invalid'' @ crlf"

definition printf :: "out_line \<Rightarrow> bridge \<Rightarrow> bridge" where
  "printf l s = s\<lparr>b_out := b_out s @ [l]\<rparr>"

fun statusErr :: "Status \<Rightarrow> string" where
  "statusErr NoResp = ''noresp''"
| "statusErr Timeout = ''timeout''"
| "statusErr _ = ''busy''"

definition blinkOk :: "bridge \<Rightarrow> bridge" where
  "blinkOk s = (if b_hasLed s then s\<lparr>b_blinks := b_blinks s @ [(50, 50)]\<rparr> else s)"

definition blinkBad :: "bridge \<Rightarrow> bridge" where
  "blinkBad s = (if b_hasLed s then s\<lparr>b_blinks := b_blinks s @ [(500, 100)]\<rparr> else s)"

subsection \<open>The line accumulator\<close>

definition pushCommandByte :: "u8 \<Rightarrow> bridge \<Rightarrow> LineEvent \<times> bridge" where
  "pushCommandByte b s =
    (if b = 0x0A \<or> b = 0x0D then
       (if b_discard s then (Invalid, s\<lparr>b_discard := False, b_lineLen := 0\<rparr>)
        else (if b_lineLen s \<noteq> 0 then Ready else NoEvent, s))
     else if b_discard s then (NoEvent, s)
     else if b_lineLen s < LINE_SIZE then
       (NoEvent, s\<lparr>b_line := (b_line s)[b_lineLen s := char_of (unat b)], b_lineLen := b_lineLen s + 1\<rparr>)
     else (NoEvent, s\<lparr>b_lineLen := 0, b_discard := True\<rparr>))"

definition resetCommandLine :: "bridge \<Rightarrow> bridge" where
  "resetCommandLine s = s\<lparr>b_lineLen := 0, b_discard := False\<rparr>"

subsection \<open>Requests and responses\<close>

definition startRead :: "BridgeCommand \<Rightarrow> bridge \<Rightarrow> bool \<times> bridge" where
  "startRead c s =
    (let (r, m) = (if c_mmdAccess c
                   then master_readMmd (c_phy c) (c_mmd c) (c_reg c) RESP (b_mdio s)
                   else master_read (c_phy c) (ucast (c_reg c)) RESP (b_mdio s));
         s = s\<lparr>b_mdio := m\<rparr>
     in if r \<noteq> Ok then (False, s)
        else (True, s\<lparr>b_pending := True, b_activeOp := Read, b_activePhy := c_phy c,
                      b_activeMmdAccess := c_mmdAccess c, b_activeMmd := c_mmd c,
                      b_activeReg := c_reg c\<rparr>))"

definition startWrite :: "BridgeCommand \<Rightarrow> bridge \<Rightarrow> bool \<times> bridge" where
  "startWrite c s =
    (let (r, m) = (if c_mmdAccess c
                   then master_writeMmd (c_phy c) (c_mmd c) (c_reg c) (c_val c) RESP (b_mdio s)
                   else master_write (c_phy c) (ucast (c_reg c)) (c_val c) RESP (b_mdio s));
         s = s\<lparr>b_mdio := m\<rparr>
     in if r \<noteq> Ok then (False, s)
        else (True, s\<lparr>b_pending := True, b_activeOp := Write, b_activePhy := c_phy c,
                      b_activeMmdAccess := c_mmdAccess c, b_activeMmd := c_mmd c,
                      b_activeReg := c_reg c\<rparr>))"

definition b_resp :: "bridge \<Rightarrow> Response" where
  "b_resp s = mem (b_mdio s) RESP"

definition active_target :: "bridge \<Rightarrow> target" where
  "active_target s =
    (if b_activeMmdAccess s then Mmd (b_activePhy s) (b_activeMmd s) (b_activeReg s)
     else C22 (b_activePhy s) (b_activeReg s))"

definition emitActiveResponse :: "bridge \<Rightarrow> bridge" where
  "emitActiveResponse s =
    (let v = (if b_activeOp s = Read then Read else Write) in
     if status (b_resp s) = Done then
       (if b_activeOp s = Read then printf (ReadVal (active_target s) (resp_value (b_resp s))) s
        else printf (WriteOk (active_target s)) s)
     else printf (Err v (active_target s) (statusErr (status (b_resp s)))) s)"

definition emitPrintBusy :: "u8 \<Rightarrow> bridge \<Rightarrow> bridge" where
  "emitPrintBusy phy s =
     fold (\<lambda>reg. printf (Err Read (C22 phy (of_nat reg)) ''busy'')) [0..<32] s"

definition emitInvalid :: "bridge \<Rightarrow> bridge" where
  "emitInvalid s = blinkBad (printf ErrInvalid s)"

text \<open>The register read the print sequence issues.\<close>

definition print_read :: "bridge \<Rightarrow> BridgeCommand" where
  "print_read s = bridge_default\<lparr>c_valid := True, c_op := Read, c_phy := b_printPhy s,
     c_reg := ucast (b_printNextReg s)\<rparr>"

text \<open>\<open>pollResponse\<close>: the answer to the outstanding request, then the next step of a print.\<close>

definition pollAnswer :: "bridge \<Rightarrow> bridge" where
  "pollAnswer s =
    (if b_pending s \<and> status (b_resp s) \<noteq> Pending then
       (let ok = (status (b_resp s) = Done);
            s = (emitActiveResponse s)\<lparr>b_pending := False\<rparr>
        in if b_printActive s then (if \<not> ok then s\<lparr>b_printAllOk := False\<rparr> else s)
           else (if ok then blinkOk s else blinkBad s))
     else s)"

definition pollPrint :: "bridge \<Rightarrow> bridge" where
  "pollPrint s =
    (if \<not> b_printActive s \<or> b_pending s then s
     else if b_printNextReg s < 32 then
       (case startRead (print_read s) s of (started, s) \<Rightarrow>
          if started then s\<lparr>b_printNextReg := b_printNextReg s + 1\<rparr> else s)
     else (if b_printAllOk s then blinkOk s else blinkBad s)\<lparr>b_printActive := False\<rparr>)"

definition pollResponse :: "bridge \<Rightarrow> bridge" where
  "pollResponse s = pollPrint (pollAnswer s)"

definition cmd_target :: "BridgeCommand \<Rightarrow> target" where
  "cmd_target c = (if c_mmdAccess c then Mmd (c_phy c) (c_mmd c) (c_reg c) else C22 (c_phy c) (c_reg c))"

definition handlePrint :: "BridgeCommand \<Rightarrow> bridge \<Rightarrow> bridge" where
  "handlePrint c s =
    (if b_printActive s \<or> b_pending s then blinkBad (emitPrintBusy (c_phy c) s)
     else
      let s = s\<lparr>b_printActive := True, b_printAllOk := True, b_printPhy := c_phy c,
                b_printNextReg := 0\<rparr>;
          s = blinkOk s
      in case startRead (print_read s) s of (started, s) \<Rightarrow>
           if started then s\<lparr>b_printNextReg := b_printNextReg s + 1\<rparr>
           else blinkBad (emitPrintBusy (c_phy c) (s\<lparr>b_printActive := False\<rparr>)))"

definition handleLine :: "string \<Rightarrow> bridge \<Rightarrow> bridge" where
  "handleLine line s =
    (let c = mdio_parse line in
     if \<not> c_valid c then emitInvalid s
     else case c_op c of
       Read \<Rightarrow>
         (case (if b_printActive s \<or> b_pending s then (False, s) else startRead c s) of
            (started, s) \<Rightarrow> if \<not> started then blinkBad (printf (Err Read (cmd_target c) ''busy'') s)
                           else blinkOk s)
     | Write \<Rightarrow>
         (case (if b_printActive s \<or> b_pending s then (False, s) else startWrite c s) of
            (started, s) \<Rightarrow> if \<not> started then blinkBad (printf (Err Write (cmd_target c) ''busy'') s)
                           else blinkOk s)
     | Print \<Rightarrow> handlePrint c s
     | OpNone \<Rightarrow> blinkBad s)"

text \<open>The loop of \<open>pollCommand\<close>, over the bytes the USB device delivers while it runs.\<close>

definition commandByte :: "u8 \<Rightarrow> bridge \<Rightarrow> bridge" where
  "commandByte b s =
    (case pushCommandByte b s of
       (Ready, s) \<Rightarrow> (handleLine (take (b_lineLen s) (b_line s)) s)\<lparr>b_lineLen := 0\<rparr>
     | (Invalid, s) \<Rightarrow> emitInvalid s
     | (NoEvent, s) \<Rightarrow> s)"

fun pollCommand :: "u8 list \<Rightarrow> bridge \<Rightarrow> bridge" where
  "pollCommand [] s = s"
| "pollCommand (b # bs) s = pollCommand bs (commandByte b s)"

definition bridge_tick :: "bool \<Rightarrow> u8 list \<Rightarrow> bridge \<Rightarrow> bridge" where
  "bridge_tick sessionStarted bytes s =
    (let s = (if sessionStarted then resetCommandLine s else s)
     in pollCommand bytes (pollResponse s))"

text \<open>
  The main loop of the driver build: the master is advanced, then the bridge. Between two rounds the
  PIOC program may write the data registers.
\<close>

definition bridge_round :: "bool \<Rightarrow> u32 \<Rightarrow> (u8 \<Rightarrow> u8) \<Rightarrow> bool \<Rightarrow> u8 list \<Rightarrow> bridge \<Rightarrow> bridge" where
  "bridge_round stub now regs sessionStarted bytes s =
    bridge_tick sessionStarted bytes
      (s\<lparr>b_mdio := master_tick stub now ((b_mdio s)\<lparr>dr := regs\<rparr>)\<rparr>)"

text \<open>Both starts, without the mailbox protocol: refused when the master is busy, else one request.\<close>

definition bridge_submit :: "BridgeOp \<Rightarrow> BridgeCommand \<Rightarrow> bridge \<Rightarrow> bridge" where
  "bridge_submit op c s = s\<lparr>b_pending := True, b_activeOp := op, b_activePhy := c_phy c,
     b_activeMmdAccess := c_mmdAccess c, b_activeMmd := c_mmd c, b_activeReg := c_reg c\<rparr>"

lemma submit_eq: "submit op phy mmd reg val a m =
  (if m_active m then (Busy, m) else (Ok, snd (submit op phy mmd reg val a m)))"
  by (simp add: submit_def Let_def)

lemma same_mdio [simp]: "s\<lparr>b_mdio := b_mdio s\<rparr> = s"
  by (cases s) simp

lemma startRead_eq: "startRead c s =
  (if m_active (b_mdio s) then (False, s)
   else (True, bridge_submit Read c (s\<lparr>b_mdio := snd (if c_mmdAccess c
     then master_readMmd (c_phy c) (c_mmd c) (c_reg c) RESP (b_mdio s)
     else master_read (c_phy c) (ucast (c_reg c)) RESP (b_mdio s))\<rparr>)))"
  unfolding startRead_def master_readMmd_def master_read_def
  by (subst (1 2) submit_eq) (simp add: Let_def bridge_submit_def)

lemma startWrite_eq: "startWrite c s =
  (if m_active (b_mdio s) then (False, s)
   else (True, bridge_submit Write c (s\<lparr>b_mdio := snd (if c_mmdAccess c
     then master_writeMmd (c_phy c) (c_mmd c) (c_reg c) (c_val c) RESP (b_mdio s)
     else master_write (c_phy c) (ucast (c_reg c)) (c_val c) RESP (b_mdio s))\<rparr>)))"
  unfolding startWrite_def master_writeMmd_def master_write_def
  by (subst (1 2) submit_eq) (simp add: Let_def bridge_submit_def)

subsection \<open>Lines\<close>

text \<open>
  The line discipline without the buffer: \<open>p\<close> is the text collected so far, \<open>None\<close> once the line is
  over-long. A terminator ends a line; a line that never fitted is reported as a whole.
\<close>

datatype line_event = Line string | TooLong

definition is_eol :: "u8 \<Rightarrow> bool" where
  "is_eol b \<longleftrightarrow> b = 0x0A \<or> b = 0x0D"

definition line_step :: "string option \<Rightarrow> u8 \<Rightarrow> line_event list \<times> string option" where
  "line_step p b =
    (if is_eol b then
       ((case p of None \<Rightarrow> [TooLong] | Some l \<Rightarrow> if l = [] then [] else [Line l]), Some [])
     else ([], case p of None \<Rightarrow> None
                 | Some l \<Rightarrow> if length l < LINE_SIZE then Some (l @ [char_of (unat b)]) else None))"

fun line_events :: "string option \<Rightarrow> u8 list \<Rightarrow> line_event list" where
  "line_events p [] = []"
| "line_events p (b # bs) = fst (line_step p b) @ line_events (snd (line_step p b)) bs"

fun line_rest :: "string option \<Rightarrow> u8 list \<Rightarrow> string option" where
  "line_rest p [] = p"
| "line_rest p (b # bs) = line_rest (snd (line_step p b)) bs"

fun on_event :: "line_event \<Rightarrow> bridge \<Rightarrow> bridge" where
  "on_event (Line l) s = handleLine l s"
| "on_event TooLong s = emitInvalid s"

text \<open>The collected text of a bridge state, and the state without its line buffer.\<close>

definition line_ok :: "bridge \<Rightarrow> bool" where
  "line_ok s \<longleftrightarrow> length (b_line s) = LINE_SIZE \<and> b_lineLen s \<le> LINE_SIZE
     \<and> (b_discard s \<longrightarrow> b_lineLen s = 0)"

definition collected :: "bridge \<Rightarrow> string option" where
  "collected s = (if b_discard s then None else Some (take (b_lineLen s) (b_line s)))"

definition set_line :: "bridge \<Rightarrow> bridge \<Rightarrow> bridge" where
  "set_line t s = s\<lparr>b_line := b_line t, b_lineLen := b_lineLen t, b_discard := b_discard t\<rparr>"

named_theorems bridge_line_simps

lemma set_line_fields [simp]:
  "b_mdio (set_line t s) = b_mdio s" "b_pending (set_line t s) = b_pending s"
  "b_printActive (set_line t s) = b_printActive s" "b_out (set_line t s) = b_out s"
  "b_hasLed (set_line t s) = b_hasLed s" "b_blinks (set_line t s) = b_blinks s"
  "b_printPhy (set_line t s) = b_printPhy s" "b_printNextReg (set_line t s) = b_printNextReg s"
  "b_line (set_line t s) = b_line t" "b_lineLen (set_line t s) = b_lineLen t"
  "b_discard (set_line t s) = b_discard t"
  by (simp_all add: set_line_def)

lemma set_line_out [bridge_line_simps]:
  "printf l (set_line t s) = set_line t (printf l s)"
  "blinkOk (set_line t s) = set_line t (blinkOk s)"
  "blinkBad (set_line t s) = set_line t (blinkBad s)"
  by (simp_all add: printf_def blinkOk_def blinkBad_def set_line_def)

lemma set_line_invalid [bridge_line_simps]:
  "emitInvalid (set_line t s) = set_line t (emitInvalid s)"
  by (simp add: emitInvalid_def bridge_line_simps)

lemma set_line_busy [bridge_line_simps]:
  "emitPrintBusy phy (set_line t s) = set_line t (emitPrintBusy phy s)"
proof -
  have "fold (\<lambda>reg. printf (f reg)) rs (set_line t s) = set_line t (fold (\<lambda>reg. printf (f reg)) rs s)"
    for rs f by (induction rs arbitrary: s) (simp_all add: bridge_line_simps)
  then show ?thesis by (simp add: emitPrintBusy_def)
qed

lemma set_line_start [bridge_line_simps]:
  "startRead c (set_line t s) = (case startRead c s of (ok, s') \<Rightarrow> (ok, set_line t s'))"
  "startWrite c (set_line t s) = (case startWrite c s of (ok, s') \<Rightarrow> (ok, set_line t s'))"
  by (simp_all add: startRead_eq startWrite_eq bridge_submit_def set_line_def)

lemma set_line_print [bridge_line_simps]:
  "handlePrint c (set_line t s) = set_line t (handlePrint c s)"
proof -
  have v: "(set_line t s)\<lparr>b_printNextReg := n\<rparr> = set_line t (s\<lparr>b_printNextReg := n\<rparr>)"
    "(set_line t s)\<lparr>b_printActive := x\<rparr> = set_line t (s\<lparr>b_printActive := x\<rparr>)"
    "(set_line t s)\<lparr>b_printAllOk := x\<rparr> = set_line t (s\<lparr>b_printAllOk := x\<rparr>)"
    "(set_line t s)\<lparr>b_printPhy := n\<rparr> = set_line t (s\<lparr>b_printPhy := n\<rparr>)" for s n x
    by (simp_all add: set_line_def)
  have r: "print_read (set_line t s) = print_read s" for s by (simp add: print_read_def)
  show ?thesis
    by (auto simp: handlePrint_def Let_def v r bridge_line_simps split: prod.split)
qed

lemma set_line_handle [bridge_line_simps]:
  "handleLine l (set_line t s) = set_line t (handleLine l s)"
  by (cases "c_op (mdio_parse l)")
     (auto simp: handleLine_def Let_def bridge_line_simps split: prod.splits)

lemma set_line_event: "on_event e (set_line t s) = set_line t (on_event e s)"
  by (cases e) (simp_all add: bridge_line_simps)

text \<open>Handling a line leaves the accumulator alone.\<close>

lemma set_line_self: "set_line s s = s"
  by (simp add: set_line_def)

lemma set_line_set_line [simp]: "set_line t (set_line u s) = set_line t s"
  by (simp add: set_line_def)

lemma on_event_line: "set_line s (on_event e s) = on_event e s"
  using set_line_event [of e s s] by (simp add: set_line_self)

lemma on_event_buffer:
  "b_line (on_event e s) = b_line s" "b_lineLen (on_event e s) = b_lineLen s"
  "b_discard (on_event e s) = b_discard s"
  by (metis on_event_line set_line_fields(9))
     (metis on_event_line set_line_fields(10), metis on_event_line set_line_fields(11))

text \<open>One byte of the accumulator is one step of the line discipline.\<close>

lemma take_store: "n < length l \<Longrightarrow> take (n + 1) (l[n := c]) = take n l @ [c]"
  by (simp add: take_Suc_conv_app_nth)

lemma commandByte_step:
  assumes "line_ok s"
  shows "line_ok (commandByte b s)" (is ?ok)
    and "collected (commandByte b s) = snd (line_step (collected s) b)" (is ?col)
    and "set_line t (commandByte b s) = fold on_event (fst (line_step (collected s) b)) (set_line t s)"
      (is ?evs)
proof -
  have emit: "b_line (emitInvalid u) = b_line u" "b_lineLen (emitInvalid u) = b_lineLen u"
    "b_discard (emitInvalid u) = b_discard u" for u
    using on_event_buffer [of TooLong u] by simp_all
  note handle = on_event_buffer [of "Line l" u for l u, simplified]
  have upd: "set_line t (s\<lparr>b_line := l, b_lineLen := n, b_discard := d\<rparr>) = set_line t s"
    "set_line t (s\<lparr>b_lineLen := n\<rparr>) = set_line t s" "set_line t (s\<lparr>b_discard := d\<rparr>) = set_line t s"
    "set_line t (s\<lparr>b_lineLen := n, b_discard := d\<rparr>) = set_line t s"
    "set_line t (s\<lparr>b_discard := d, b_lineLen := n\<rparr>) = set_line t s"
    "set_line t (s\<lparr>b_line := l\<rparr>) = set_line t s" for s n d l
    by (simp_all add: set_line_def)
  consider (long_end) "is_eol b" "b_discard s" | (end_line) "is_eol b" "\<not> b_discard s"
    | (long) "\<not> is_eol b" "b_discard s" | (store) "\<not> is_eol b" "\<not> b_discard s" "b_lineLen s < LINE_SIZE"
    | (over) "\<not> is_eol b" "\<not> b_discard s" "\<not> b_lineLen s < LINE_SIZE" by blast
  then have "?ok \<and> ?col \<and> ?evs"
  proof cases
    case long_end
    then have "commandByte b s = emitInvalid (s\<lparr>b_discard := False, b_lineLen := 0\<rparr>)"
      by (auto simp: commandByte_def pushCommandByte_def is_eol_def)
    then show ?thesis
      using assms long_end
      by (simp add: line_ok_def collected_def line_step_def emit upd bridge_line_simps [symmetric])
  next
    case end_line
    show ?thesis
    proof (cases "b_lineLen s = 0")
      case True
      then have "commandByte b s = s"
        using end_line by (auto simp: commandByte_def pushCommandByte_def is_eol_def)
      then show ?thesis using assms end_line True by (simp add: collected_def line_step_def)
    next
      case False
      then have c: "commandByte b s = (handleLine (take (b_lineLen s) (b_line s)) s)\<lparr>b_lineLen := 0\<rparr>"
        using end_line by (auto simp: commandByte_def pushCommandByte_def is_eol_def)
      have "take (b_lineLen s) (b_line s) \<noteq> []" using False assms by (auto simp: line_ok_def LINE_SIZE_def)
      then show ?thesis
        using assms end_line
        by (simp add: c line_ok_def collected_def line_step_def handle upd bridge_line_simps [symmetric])
    qed
  next
    case long
    then have "commandByte b s = s" by (auto simp: commandByte_def pushCommandByte_def is_eol_def)
    then show ?thesis using assms long by (simp add: collected_def line_step_def)
  next
    case store
    then have c: "commandByte b s = s\<lparr>b_line := (b_line s)[b_lineLen s := char_of (unat b)],
        b_lineLen := b_lineLen s + 1\<rparr>"
      by (auto simp: commandByte_def pushCommandByte_def is_eol_def)
    show ?thesis
      using assms store take_store [of "b_lineLen s" "b_line s"]
      by (simp add: c line_ok_def collected_def line_step_def upd)
  next
    case over
    then have c: "commandByte b s = s\<lparr>b_lineLen := 0, b_discard := True\<rparr>"
      by (auto simp: commandByte_def pushCommandByte_def is_eol_def)
    show ?thesis
      using assms over by (simp add: c line_ok_def collected_def line_step_def upd)
  qed
  then show ?ok ?col ?evs by blast+
qed

lemma pollCommand_events:
  assumes "line_ok s"
  shows "line_ok (pollCommand bs s)" "collected (pollCommand bs s) = line_rest (collected s) bs"
    "set_line t (pollCommand bs s) = fold on_event (line_events (collected s) bs) (set_line t s)"
  using assms
  by (induction bs s rule: pollCommand.induct) (simp_all add: commandByte_step)

subsection \<open>Every command is answered\<close>

text \<open>
  The answers a state still owes: the outstanding request and, while a print runs, the registers it
  has not asked for yet. An answer names the operation and the target of its command.
\<close>

type_synonym answer = "BridgeOp \<times> target"

fun answer_of :: "out_line \<Rightarrow> answer" where
  "answer_of (ReadVal t v) = (Read, t)"
| "answer_of (WriteOk t) = (Write, t)"
| "answer_of (Err op t e) = (op, t)"
| "answer_of ErrInvalid = (OpNone, C22 0 0)"

definition print_answers :: "u8 \<Rightarrow> nat \<Rightarrow> answer multiset" where
  "print_answers phy k = mset (map (\<lambda>r. (Read, C22 phy (of_nat r))) [k..<32])"

definition owed :: "bridge \<Rightarrow> answer multiset" where
  "owed s = (if b_pending s then {#(b_activeOp s, active_target s)#} else {#})
     + (if b_printActive s then print_answers (b_printPhy s) (unat (b_printNextReg s)) else {#})"

definition answered_lines :: "bridge \<Rightarrow> answer multiset" where
  "answered_lines s = mset (map answer_of (b_out s))"

text \<open>What a line asks for.\<close>

definition demand :: "line_event \<Rightarrow> answer multiset" where
  "demand e =
    (case e of
       TooLong \<Rightarrow> {#(OpNone, C22 0 0)#}
     | Line l \<Rightarrow> (let c = mdio_parse l in
         if \<not> c_valid c then {#(OpNone, C22 0 0)#}
         else if c_op c = Print then print_answers (c_phy c) 0
         else {#(c_op c, cmd_target c)#}))"

definition ledger :: "bridge \<Rightarrow> answer multiset" where
  "ledger s = answered_lines s + owed s"

definition print_ok :: "bridge \<Rightarrow> bool" where
  "print_ok s \<longleftrightarrow> unat (b_printNextReg s) \<le> 32 \<and> b_activeOp s \<in> {Read, Write}"

lemma print_answers_step:
  "k < 32 \<Longrightarrow> print_answers phy k = {#(Read, C22 phy (of_nat k))#} + print_answers phy (Suc k)"
  by (simp add: print_answers_def upt_conv_Cons)

lemma ledger_frame [simp]:
  "owed (printf l s) = owed s" "owed (blinkOk s) = owed s" "owed (blinkBad s) = owed s"
  "answered_lines (blinkOk s) = answered_lines s" "answered_lines (blinkBad s) = answered_lines s"
  "answered_lines (printf l s) = answered_lines s + {#answer_of l#}"
  "print_ok (printf l s) = print_ok s" "print_ok (blinkOk s) = print_ok s"
  "print_ok (blinkBad s) = print_ok s"
  by (simp_all add: owed_def active_target_def printf_def blinkOk_def blinkBad_def answered_lines_def
      print_ok_def)

lemma emitPrintBusy_ledger:
  "owed (emitPrintBusy phy s) = owed s" "print_ok (emitPrintBusy phy s) = print_ok s"
  "answered_lines (emitPrintBusy phy s) = answered_lines s + print_answers phy 0"
proof -
  let ?f = "\<lambda>reg. printf (Err Read (C22 phy (of_nat reg)) ''busy'')"
  have "owed (fold ?f rs s) = owed s \<and> print_ok (fold ?f rs s) = print_ok s
      \<and> answered_lines (fold ?f rs s) = answered_lines s + mset (map (\<lambda>r. (Read, C22 phy (of_nat r))) rs)" for rs
    by (induction rs arbitrary: s) simp_all
  then show "owed (emitPrintBusy phy s) = owed s" "print_ok (emitPrintBusy phy s) = print_ok s"
    "answered_lines (emitPrintBusy phy s) = answered_lines s + print_answers phy 0"
    by (simp_all add: emitPrintBusy_def print_answers_def)
qed

lemma start_ledger:
  assumes "\<not> b_pending s"
  shows "startRead c s = (ok, s') \<Longrightarrow> answered_lines s' = answered_lines s
      \<and> owed s' = owed s + (if ok then {#(Read, cmd_target c)#} else {#}) \<and> (print_ok s \<longrightarrow> print_ok s')
      \<and> b_printActive s' = b_printActive s \<and> b_printNextReg s' = b_printNextReg s
      \<and> b_printPhy s' = b_printPhy s \<and> (ok \<longrightarrow> b_pending s')"
    and "startWrite c s = (ok, s') \<Longrightarrow> answered_lines s' = answered_lines s
      \<and> owed s' = owed s + (if ok then {#(Write, cmd_target c)#} else {#}) \<and> (print_ok s \<longrightarrow> print_ok s')"
  using assms
  by (auto simp: startRead_eq startWrite_eq bridge_submit_def answered_lines_def owed_def
      active_target_def cmd_target_def print_ok_def split: if_splits)

lemma emitActiveResponse_ledger:
  assumes "print_ok s"
  shows "answered_lines (emitActiveResponse s)
      = answered_lines s + {#(b_activeOp s, active_target s)#}"
    and "owed (emitActiveResponse s) = owed s" "print_ok (emitActiveResponse s)"
    "b_pending (emitActiveResponse s) = b_pending s"
    "b_activeOp (emitActiveResponse s) = b_activeOp s"
    "active_target (emitActiveResponse s) = active_target s"
    "b_printActive (emitActiveResponse s) = b_printActive s"
    "b_printPhy (emitActiveResponse s) = b_printPhy s"
    "b_printNextReg (emitActiveResponse s) = b_printNextReg s"
proof -
  have op: "b_activeOp s = Read \<or> b_activeOp s = Write" using assms by (simp add: print_ok_def)
  show "answered_lines (emitActiveResponse s)
      = answered_lines s + {#(b_activeOp s, active_target s)#}"
    "owed (emitActiveResponse s) = owed s" "print_ok (emitActiveResponse s)"
    using assms op by (auto simp: emitActiveResponse_def Let_def)
  show "b_pending (emitActiveResponse s) = b_pending s"
    "b_activeOp (emitActiveResponse s) = b_activeOp s"
    "active_target (emitActiveResponse s) = active_target s"
    "b_printActive (emitActiveResponse s) = b_printActive s"
    "b_printPhy (emitActiveResponse s) = b_printPhy s"
    "b_printNextReg (emitActiveResponse s) = b_printNextReg s"
    by (simp_all add: emitActiveResponse_def Let_def printf_def active_target_def)
qed

lemma pollAnswer_ledger:
  assumes "print_ok s"
  shows "ledger (pollAnswer s) = ledger s" "print_ok (pollAnswer s)"
proof -
  note e = emitActiveResponse_ledger [OF assms]
  let ?e = "(emitActiveResponse s)\<lparr>b_pending := False\<rparr>"
  have p: "print_ok ?e" using e(3) by (simp add: print_ok_def)
  have o: "owed ?e = (if b_printActive s
      then print_answers (b_printPhy s) (unat (b_printNextReg s)) else {#})"
    using e by (simp add: owed_def)
  have a: "answered_lines ?e = answered_lines s + {#(b_activeOp s, active_target s)#}"
    using e(1) by (simp add: answered_lines_def)
  have k: "owed (u\<lparr>b_printAllOk := x\<rparr>) = owed u" "answered_lines (u\<lparr>b_printAllOk := x\<rparr>) = answered_lines u"
    "print_ok (u\<lparr>b_printAllOk := x\<rparr>) = print_ok u" for u x
    by (simp_all add: owed_def active_target_def answered_lines_def print_ok_def)
  show "ledger (pollAnswer s) = ledger s" "print_ok (pollAnswer s)"
  proof (cases "b_pending s \<and> status (b_resp s) \<noteq> Pending", goal_cases)
    case 1
    then have "owed (pollAnswer s) = owed ?e" "answered_lines (pollAnswer s) = answered_lines ?e"
      by (auto simp: pollAnswer_def Let_def k)
    moreover have "owed s = {#(b_activeOp s, active_target s)#} + owed ?e"
      using 1 unfolding o by (simp add: owed_def)
    ultimately show ?case by (simp add: ledger_def a)
  next
    case 3
    show ?case using p assms by (auto simp: pollAnswer_def Let_def k)
  qed (auto simp: pollAnswer_def assms)
qed

text \<open>Asking for the next register of a print moves one answer from the print to the request.\<close>

lemma print_next_ledger:
  assumes "print_ok s" "b_printActive s" "\<not> b_pending s" "b_printNextReg s < 32"
    "startRead (print_read s) s = (True, s')"
  shows "answered_lines (s'\<lparr>b_printNextReg := b_printNextReg s' + 1\<rparr>) = answered_lines s
    \<and> owed (s'\<lparr>b_printNextReg := b_printNextReg s' + 1\<rparr>) = owed s
    \<and> print_ok (s'\<lparr>b_printNextReg := b_printNextReg s' + 1\<rparr>)"
proof -
  note st = start_ledger(1) [OF assms(3,5)]
  have n: "unat (b_printNextReg s) < 32" using assms(4) by (simp add: word_less_nat_alt)
  then have suc: "unat (b_printNextReg s + 1) = Suc (unat (b_printNextReg s))"
    by (simp add: unat_word_ariths)
  have tgt: "cmd_target (print_read s) = C22 (b_printPhy s) (of_nat (unat (b_printNextReg s)))"
    by (simp add: cmd_target_def print_read_def bridge_default_def)
  have act: "owed s' = {#(b_activeOp s', active_target s')#}
      + print_answers (b_printPhy s) (unat (b_printNextReg s))"
    using st assms(2) by (simp add: owed_def)
  moreover have "owed s' = owed s + {#(Read, cmd_target (print_read s))#}" using st by simp
  moreover have "owed s = print_answers (b_printPhy s) (unat (b_printNextReg s))"
    using assms(2,3) by (simp add: owed_def)
  ultimately have "{#(b_activeOp s', active_target s')#} = {#(Read, cmd_target (print_read s))#}"
    by (metis add.commute add_left_cancel)
  then have id: "b_activeOp s' = Read" "active_target s' = C22 (b_printPhy s) (of_nat (unat (b_printNextReg s)))"
    by (simp_all add: tgt)
  have "active_target (s'\<lparr>b_printNextReg := k\<rparr>) = active_target s'" for k
    by (simp add: active_target_def)
  then have "owed (s'\<lparr>b_printNextReg := b_printNextReg s' + 1\<rparr>) = owed s"
    using st assms(2,3) print_answers_step [OF n, of "b_printPhy s"] id
    by (simp add: owed_def suc)
  moreover have "print_ok s'" using st assms(1) by simp
  then have "print_ok (s'\<lparr>b_printNextReg := b_printNextReg s' + 1\<rparr>)"
    using st n suc by (simp add: print_ok_def)
  ultimately show ?thesis using st by (simp add: answered_lines_def)
qed

lemma pollPrint_ledger:
  assumes "print_ok s"
  shows "ledger (pollPrint s) = ledger s" "print_ok (pollPrint s)"
proof -
  have k: "answered_lines (u\<lparr>b_printActive := x\<rparr>) = answered_lines u"
    "print_ok (u\<lparr>b_printActive := x\<rparr>) = print_ok u" for u x
    by (simp_all add: answered_lines_def print_ok_def)
  consider (idle) "\<not> b_printActive s \<or> b_pending s"
    | (ask) "b_printActive s" "\<not> b_pending s" "b_printNextReg s < 32"
    | (stop) "b_printActive s" "\<not> b_pending s" "\<not> b_printNextReg s < 32" by blast
  then have "ledger (pollPrint s) = ledger s \<and> print_ok (pollPrint s)"
  proof cases
    case idle
    then show ?thesis using assms by (simp add: pollPrint_def)
  next
    case ask
    obtain ok s' where st: "startRead (print_read s) s = (ok, s')" by fastforce
    show ?thesis
    proof (cases ok)
      case True
      then show ?thesis
        using print_next_ledger [OF assms ask] st ask by (simp add: pollPrint_def ledger_def)
    next
      case False
      then show ?thesis
        using start_ledger(1) [OF ask(2) st] st ask assms by (simp add: pollPrint_def ledger_def)
    qed
  next
    case stop
    let ?s = "if b_printAllOk s then blinkOk s else blinkBad s"
    have "unat (b_printNextReg s) = 32"
      using stop(3) assms by (simp add: print_ok_def word_less_nat_alt)
    then have "owed s = {#}" using stop by (simp add: owed_def print_answers_def)
    moreover have "owed (?s\<lparr>b_printActive := False\<rparr>) = {#}"
      using stop by (simp add: owed_def blinkOk_def blinkBad_def)
    ultimately show ?thesis
      using stop assms by (simp add: pollPrint_def ledger_def k)
  qed
  then show "ledger (pollPrint s) = ledger s" "print_ok (pollPrint s)" by simp_all
qed

lemma handlePrint_ledger:
  assumes "print_ok s"
  shows "ledger (handlePrint c s) = ledger s + print_answers (c_phy c) 0 \<and> print_ok (handlePrint c s)"
proof (cases "b_printActive s \<or> b_pending s")
  case True
  then show ?thesis
    using assms by (simp add: handlePrint_def ledger_def emitPrintBusy_ledger ac_simps)
next
  case False
  let ?u = "blinkOk (s\<lparr>b_printActive := True, b_printAllOk := True, b_printPhy := c_phy c, b_printNextReg := 0\<rparr>)"
  have u: "b_printActive ?u" "\<not> b_pending ?u" "b_printNextReg ?u = 0" "b_printPhy ?u = c_phy c"
    using False by (simp_all add: blinkOk_def)
  have ok: "print_ok ?u" using assms by (simp add: print_ok_def blinkOk_def)
  have owed: "owed s = {#}" "owed ?u = print_answers (c_phy c) 0" "answered_lines ?u = answered_lines s"
    using False u by (simp_all add: owed_def answered_lines_def blinkOk_def)
  obtain st s' where st: "startRead (print_read ?u) ?u = (st, s')" by fastforce
  show ?thesis
  proof (cases st)
    case True
    then show ?thesis
      using print_next_ledger [OF ok u(1,2)] u(3) st False owed
      by (simp add: handlePrint_def ledger_def)
  next
    case no: False
    note l = start_ledger(1) [OF u(2) st]
    have k: "answered_lines (w\<lparr>b_printActive := x\<rparr>) = answered_lines w"
      "print_ok (w\<lparr>b_printActive := x\<rparr>) = print_ok w" for w x
      by (simp_all add: answered_lines_def print_ok_def)
    have "s' = ?u" using st no by (simp add: startRead_eq split: if_splits)
    then have "owed (s'\<lparr>b_printActive := False\<rparr>) = {#}" using u(2) by (simp add: owed_def)
    then show ?thesis
      using l no st False owed ok \<open>s' = ?u\<close>
      by (simp add: handlePrint_def ledger_def emitPrintBusy_ledger k)
  qed
qed

lemma emitInvalid_ledger:
  "ledger (emitInvalid s) = ledger s + {#(OpNone, C22 0 0)#}" "print_ok (emitInvalid s) = print_ok s"
  by (simp_all add: emitInvalid_def ledger_def)

lemma handleLine_ledger:
  assumes "print_ok s"
  shows "ledger (handleLine l s) = ledger s + demand (Line l) \<and> print_ok (handleLine l s)"
proof -
  let ?c = "mdio_parse l"
  show ?thesis
  proof (cases "c_valid ?c")
    case False
    then show ?thesis
      using assms emitInvalid_ledger [of s] by (simp add: handleLine_def demand_def Let_def)
  next
    case True
    have op: "c_op ?c \<noteq> OpNone" using mdio_parse_sound [OF refl True] by (simp add: cmd_line_def)
    show ?thesis
    proof (cases "b_printActive s \<or> b_pending s")
      case busy: True
      then show ?thesis
        using True op assms handlePrint_ledger [OF assms, of ?c]
        by (cases "c_op ?c") (simp_all add: handleLine_def demand_def Let_def ledger_def)
    next
      case False
      then have p: "\<not> b_pending s" "\<not> b_printActive s" by simp_all
      obtain r s1 w s2 where st: "startRead ?c s = (r, s1)" "startWrite ?c s = (w, s2)" by fastforce
      then show ?thesis
        using True op assms p handlePrint_ledger [OF assms, of ?c]
          start_ledger(1) [OF p(1) st(1)] start_ledger(2) [OF p(1) st(2)]
        by (cases "c_op ?c") (simp_all add: handleLine_def demand_def Let_def ledger_def)
    qed
  qed
qed

lemma on_event_ledger:
  assumes "print_ok s"
  shows "ledger (on_event e s) = ledger s + demand e" "print_ok (on_event e s)"
  using assms handleLine_ledger [OF assms] emitInvalid_ledger [of s]
  by (cases e; simp add: demand_def)+

lemma events_ledger:
  "print_ok s \<Longrightarrow> ledger (fold on_event es s) = ledger s + sum_list (map demand es)
    \<and> print_ok (fold on_event es s)"
  by (induction es arbitrary: s) (simp_all add: on_event_ledger)

subsection \<open>Runs of the main loop\<close>

type_synonym round_input = "u32 \<times> (u8 \<Rightarrow> u8) \<times> bool \<times> u8 list"

fun run_rounds :: "bool \<Rightarrow> round_input list \<Rightarrow> bridge \<Rightarrow> bridge" where
  "run_rounds stub [] s = s"
| "run_rounds stub ((now, regs, started, bytes) # rs) s =
     run_rounds stub rs (bridge_round stub now regs started bytes s)"

text \<open>The lines the host sent: a new session drops a partial line.\<close>

fun run_events :: "string option \<Rightarrow> round_input list \<Rightarrow> line_event list" where
  "run_events p [] = []"
| "run_events p ((now, regs, started, bytes) # rs) =
     (let p = (if started then Some [] else p)
      in line_events p bytes @ run_events (line_rest p bytes) rs)"

lemma set_line_ledger [simp]: "ledger (set_line t s) = ledger s" "print_ok (set_line t s) = print_ok s"
  by (simp_all add: ledger_def owed_def active_target_def answered_lines_def print_ok_def set_line_def)

lemma pollCommand_ledger:
  assumes "line_ok s" "print_ok s"
  shows "ledger (pollCommand bs s) = ledger s + sum_list (map demand (line_events (collected s) bs))"
    and "print_ok (pollCommand bs s)"
proof -
  have "ledger (set_line s (pollCommand bs s))
      = ledger s + sum_list (map demand (line_events (collected s) bs)) \<and> print_ok (set_line s (pollCommand bs s))"
    using events_ledger [of "set_line s s"] assms
    unfolding pollCommand_events(3) [OF assms(1), of s] by simp
  then show "ledger (pollCommand bs s) = ledger s + sum_list (map demand (line_events (collected s) bs))"
    "print_ok (pollCommand bs s)" by simp_all
qed

lemma pollResponse_line:
  "b_line (pollResponse s) = b_line s" "b_lineLen (pollResponse s) = b_lineLen s"
  "b_discard (pollResponse s) = b_discard s"
  by (auto simp: pollResponse_def pollPrint_def pollAnswer_def emitActiveResponse_def printf_def
      blinkOk_def blinkBad_def startRead_eq bridge_submit_def Let_def)

lemma pollResponse_line_ok [simp]:
  "line_ok (pollResponse s) = line_ok s" "collected (pollResponse s) = collected s"
  by (simp_all add: line_ok_def collected_def pollResponse_line)

lemma bridge_round_ledger:
  fixes s :: bridge
  defines "p \<equiv> \<lambda>started. if started then Some [] else collected s"
  assumes "line_ok s" "print_ok s"
  shows "ledger (bridge_round stub now regs started bytes s)
      = ledger s + sum_list (map demand (line_events (p started) bytes))"
    and "line_ok (bridge_round stub now regs started bytes s)"
    and "print_ok (bridge_round stub now regs started bytes s)"
    and "collected (bridge_round stub now regs started bytes s) = line_rest (p started) bytes"
proof -
  let ?m = "s\<lparr>b_mdio := master_tick stub now ((b_mdio s)\<lparr>dr := regs\<rparr>)\<rparr>"
  let ?r = "if started then resetCommandLine ?m else ?m"
  have r: "ledger ?r = ledger s" "print_ok ?r" "line_ok ?r" "collected ?r = p started"
    using assms by (auto simp: ledger_def owed_def active_target_def answered_lines_def print_ok_def
        line_ok_def resetCommandLine_def collected_def)
  let ?q = "pollResponse ?r"
  have q: "ledger ?q = ledger s" "print_ok ?q"
    using r pollAnswer_ledger [OF r(2)] pollPrint_ledger by (simp_all add: pollResponse_def)
  have l: "line_ok ?q" "collected ?q = p started"
    using r(3,4) by simp_all
  have eq: "bridge_round stub now regs started bytes s = pollCommand bytes ?q"
    by (simp add: bridge_round_def bridge_tick_def Let_def)
  show "ledger (bridge_round stub now regs started bytes s)
      = ledger s + sum_list (map demand (line_events (p started) bytes))"
    "line_ok (bridge_round stub now regs started bytes s)"
    "print_ok (bridge_round stub now regs started bytes s)"
    "collected (bridge_round stub now regs started bytes s) = line_rest (p started) bytes"
    unfolding eq using pollCommand_ledger [OF l(1) q(2)] pollCommand_events(1,2) [OF l(1)] l(2) q(1)
    by simp_all
qed

lemma run_rounds_ledger:
  "line_ok s \<Longrightarrow> print_ok s \<Longrightarrow> ledger (run_rounds stub rs s)
     = ledger s + sum_list (map demand (run_events (collected s) rs))"
proof (induction stub rs s rule: run_rounds.induct)
  case (2 stub now regs started bytes rs s)
  then show ?case
    using bridge_round_ledger [OF 2(2,3)] by (simp add: Let_def)
qed simp

text \<open>The one outstanding request and the mailbox agree.\<close>

definition req_ok :: "bridge \<Rightarrow> bool" where
  "req_ok s \<longleftrightarrow> (if b_pending s then answers RESP (mem (b_mdio s)) (b_mdio s) else \<not> m_active (b_mdio s))"

lemma answers_self: "answers a m0 s \<Longrightarrow> answers a (mem s) s"
  by (auto simp: answers_def)

lemma req_ok_frame [simp]:
  "req_ok (printf l s) = req_ok s" "req_ok (blinkOk s) = req_ok s" "req_ok (blinkBad s) = req_ok s"
  "req_ok (s\<lparr>b_lineLen := n\<rparr>) = req_ok s" "req_ok (s\<lparr>b_discard := d\<rparr>) = req_ok s"
  "req_ok (s\<lparr>b_line := l'\<rparr>) = req_ok s" "req_ok (s\<lparr>b_printActive := d\<rparr>) = req_ok s"
  "req_ok (s\<lparr>b_printAllOk := d\<rparr>) = req_ok s" "req_ok (s\<lparr>b_printNextReg := k\<rparr>) = req_ok s"
  "req_ok (s\<lparr>b_printPhy := k\<rparr>) = req_ok s"
  by (simp_all add: req_ok_def printf_def blinkOk_def blinkBad_def)

lemma submit_answers: "\<not> m_active m \<Longrightarrow> answers RESP (mem (snd (submit op phy mmd reg val RESP m)))
    (snd (submit op phy mmd reg val RESP m))"
  by (simp add: answers_def submit_def Let_def clear_def)

lemma req_ok_start:
  assumes "req_ok s"
  shows "startRead c s = (ok, s') \<Longrightarrow> req_ok s'" "startWrite c s = (ok, s') \<Longrightarrow> req_ok s'"
  using assms submit_answers [of "b_mdio s"]
  by (auto simp: startRead_eq startWrite_eq bridge_submit_def req_ok_def master_read_def
      master_readMmd_def master_write_def master_writeMmd_def split: if_splits)

lemma req_ok_busy: "req_ok (emitPrintBusy phy s) = req_ok s"
proof -
  have "req_ok (fold (\<lambda>reg. printf (f reg)) rs s) = req_ok s" for f rs
    by (induction rs arbitrary: s) simp_all
  then show ?thesis by (simp add: emitPrintBusy_def)
qed

lemma emitActiveResponse_mdio:
  "b_mdio (emitActiveResponse s) = b_mdio s" "b_pending (emitActiveResponse s) = b_pending s"
  by (simp_all add: emitActiveResponse_def Let_def printf_def)

lemma req_ok_answer:
  assumes "req_ok s"
  shows "req_ok (pollAnswer s)"
proof (cases "b_pending s \<and> status (b_resp s) \<noteq> Pending")
  case True
  then have "\<not> m_active (b_mdio s)" using assms by (auto simp: req_ok_def answers_def b_resp_def)
  then have "req_ok ((emitActiveResponse s)\<lparr>b_pending := False\<rparr>)"
    by (simp add: req_ok_def emitActiveResponse_mdio)
  then show ?thesis using True by (simp add: pollAnswer_def Let_def)
next
  case False
  then show ?thesis using assms by (auto simp: pollAnswer_def)
qed

lemma req_ok_started:
  assumes "req_ok s"
  shows "req_ok (snd (startRead c s))" "req_ok (snd (startWrite c s))"
  using req_ok_start [OF assms] by (metis prod.collapse)+

lemma req_ok_print: "req_ok s \<Longrightarrow> req_ok (pollPrint s)"
  using req_ok_started(1) [of s "print_read s"]
  by (cases "startRead (print_read s) s") (simp add: pollPrint_def)

lemma req_ok_handlePrint:
  assumes "req_ok s"
  shows "req_ok (handlePrint c s)"
proof -
  let ?u = "blinkOk (s\<lparr>b_printActive := True, b_printAllOk := True, b_printPhy := c_phy c, b_printNextReg := 0\<rparr>)"
  have "req_ok (snd (startRead (print_read ?u) ?u))"
    using assms by (intro req_ok_started) simp
  then show ?thesis
    using assms
    by (cases "startRead (print_read ?u) ?u") (simp add: handlePrint_def req_ok_busy)
qed

lemma req_ok_handle:
  assumes "req_ok s"
  shows "req_ok (handleLine l s)"
proof -
  let ?c = "mdio_parse l"
  obtain r s1 w s2 where st: "startRead ?c s = (r, s1)" "startWrite ?c s = (w, s2)" by fastforce
  then have "req_ok s1" "req_ok s2" using req_ok_start [OF assms] by blast+
  then show ?thesis
    using assms st req_ok_handlePrint [OF assms]
    by (cases "c_op ?c") (simp_all add: handleLine_def Let_def emitInvalid_def)
qed

lemma req_ok_poll: "req_ok s \<Longrightarrow> req_ok (pollCommand bs s)"
proof (induction bs s rule: pollCommand.induct)
  case (2 b bs s)
  have "req_ok (snd (pushCommandByte b s))"
    using 2(2) by (simp add: pushCommandByte_def)
  then have "req_ok (commandByte b s)"
    by (auto simp: commandByte_def emitInvalid_def req_ok_handle split: prod.split LineEvent.split)
  then show ?case using 2 by simp
qed simp

lemma req_ok_round:
  assumes "req_ok s"
  shows "req_ok (bridge_round False now regs started bytes s)"
proof -
  let ?m = "s\<lparr>b_mdio := master_tick False now ((b_mdio s)\<lparr>dr := regs\<rparr>)\<rparr>"
  have "req_ok ?m"
  proof (cases "b_pending s")
    case True
    then have "answers RESP (mem (b_mdio s)) ((b_mdio s)\<lparr>dr := regs\<rparr>)"
      using assms by (simp add: req_ok_def)
    from answers_self [OF answers_tick [OF this]] show ?thesis
      using True by (simp add: req_ok_def)
  next
    case False
    then show ?thesis using assms by (simp add: req_ok_def tick_inactive)
  qed
  then have "req_ok (if started then resetCommandLine ?m else ?m)"
    by (simp add: resetCommandLine_def)
  then show ?thesis
    unfolding bridge_round_def bridge_tick_def Let_def pollResponse_def
    by (intro req_ok_poll req_ok_print req_ok_answer)
qed

lemma req_ok_run: "req_ok s \<Longrightarrow> req_ok (run_rounds False rs s)"
  by (induction False rs s rule: run_rounds.induct) (simp_all add: req_ok_round)

lemma bridge_init_ok:
  "line_ok (bridge_init led m)" "print_ok (bridge_init led m)" "collected (bridge_init led m) = Some []"
  "ledger (bridge_init led m) = {#}"
  by (simp_all add: bridge_init_def line_ok_def print_ok_def collected_def ledger_def answered_lines_def
      owed_def)

lemma line_events_text:
  assumes "\<forall>b \<in> set l. \<not> is_eol b" "length acc \<le> LINE_SIZE"
  shows "line_events (Some acc) (l @ bs) =
    line_events (if length acc + length l \<le> LINE_SIZE then Some (acc @ map (\<lambda>b. char_of (unat b)) l)
                 else None) bs"
  using assms
proof (induction l arbitrary: acc)
  case (Cons b l)
  have none: "line_events None (l @ bs) = line_events None bs" if "\<forall>b \<in> set l. \<not> is_eol b" for l
    using that by (induction l) (simp_all add: line_step_def)
  show ?case
  proof (cases "length acc < LINE_SIZE")
    case True
    then show ?thesis using Cons by (simp add: line_step_def)
  next
    case False
    then show ?thesis using Cons.prems none [of l] by (simp add: line_step_def)
  qed
qed simp

subsection \<open>Properties\<close>

text \<open>
  Every command gets its answers: over any run of the main loop, with any register contents, bytes
  and session starts, the answers printed plus the answers still owed are exactly those the received
  lines ask for, one per read, write or malformed line, 32 per print; none is lost or invented.
\<close>

theorem bridge_answers_every_command:
  "let s = run_rounds stub rounds (bridge_init led m) in
     answered_lines s + owed s = sum_list (map demand (run_events (Some []) rounds))"
  using run_rounds_ledger [OF bridge_init_ok(1,2), of stub rounds led m] bridge_init_ok(3,4) [of led m]
  by (simp add: Let_def ledger_def)

text \<open>
  The bridge never has more than one request on the bus and never misreads its mailbox: whenever
  the master is busy the bridge is waiting for it with the mailbox still pending, and when the bridge is
  about to report an error the status is NoResp or Timeout (the default of \<open>statusErr\<close> is unreachable).
\<close>

theorem bridge_one_request:
  assumes "\<not> m_active m"
  shows "let s = run_rounds False rounds (bridge_init led m) in
     (m_active (b_mdio s) \<longrightarrow> b_pending s \<and> m_resp (b_mdio s) = Some RESP \<and> status (b_resp s) = Pending)
   \<and> (b_pending s \<longrightarrow> status (b_resp s) \<notin> {Pending, Done} \<longrightarrow>
        statusErr (status (b_resp s)) \<in> {''noresp'', ''timeout''})"
proof -
  have "req_ok (bridge_init led m)" using assms by (simp add: req_ok_def bridge_init_def)
  from req_ok_run [OF this, of rounds] show ?thesis
    unfolding Let_def by (auto simp: req_ok_def answers_def b_resp_def split: if_splits)
qed

theorem bridge_one_request_witness:
  "let s = run_rounds False [(0, \<lambda>_. 0, True, map (\<lambda>c. of_char c) (''!read 1/4'' @ [CHR 0x0A]))]
      (bridge_init True mdio_init) in
     (m_active (b_mdio s) \<longrightarrow> b_pending s \<and> m_resp (b_mdio s) = Some RESP \<and> status (b_resp s) = Pending)
   \<and> (b_pending s \<longrightarrow> status (b_resp s) \<notin> {Pending, Done} \<longrightarrow>
        statusErr (status (b_resp s)) \<in> {''noresp'', ''timeout''})"
  by (rule bridge_one_request) (simp add: mdio_init_def)

text \<open>A line that is no command is answered \<open>err invalid\<close> and leaves the master as it was.\<close>

theorem malformed_line_is_inert:
  assumes "\<nexists>c. c_valid c \<and> cmd_line c l"
  shows "handleLine l s = blinkBad (printf ErrInvalid s) \<and> b_mdio (handleLine l s) = b_mdio s"
proof -
  have "\<not> c_valid (mdio_parse l)" using assms mdio_parse_sound [OF refl] by blast
  then have "handleLine l s = emitInvalid s" by (simp add: handleLine_def Let_def)
  then show ?thesis by (simp add: emitInvalid_def blinkBad_def printf_def)
qed

lemma no_bang_no_command:
  assumes "l \<noteq> []" "hd l \<noteq> CHR ''!''" "\<not> is_ws (hd l)"
  shows "\<not> cmd_line c l"
proof
  assume "cmd_line c l"
  then obtain a r where "l = a @ ''!'' @ r" "\<forall>x \<in> set a. is_ws x" by (auto simp: cmd_line_def)
  then show False using assms by (cases a) auto
qed

theorem malformed_line_is_inert_witness:
  "handleLine ''read 1/4'' (bridge_init True mdio_init)
     = blinkBad (printf ErrInvalid (bridge_init True mdio_init))
   \<and> b_mdio (handleLine ''read 1/4'' (bridge_init True mdio_init)) = b_mdio (bridge_init True mdio_init)"
  by (rule malformed_line_is_inert) (simp add: no_bang_no_command is_ws_def)

text \<open>
  C40. The line discipline: from a fresh line, received lines of at most 48 characters are handled one
  by one with their exact text, empty lines are ignored and an over-long line is rejected as a whole,
  once, without eating into the next line.
\<close>

theorem bridge_lines:
  assumes "line_ok s" and "collected s = Some []"
    and "\<forall>(l, e) \<in> set ls. is_eol e \<and> (\<forall>b \<in> set l. \<not> is_eol b)"
  shows "set_line t (pollCommand (concat (map (\<lambda>(l, e). l @ [e]) ls)) s) =
    fold (\<lambda>(l, e). if l = [] then id else if length l \<le> LINE_SIZE
            then handleLine (map (\<lambda>b. char_of (unat b)) l) else emitInvalid) ls (set_line t s)"
proof -
  let ?ev = "\<lambda>(l, e). if l = [] then [] else if length l \<le> LINE_SIZE
      then [Line (map (\<lambda>b. char_of (unat b)) l)] else [TooLong]"
  have "line_events (Some []) (concat (map (\<lambda>(l, e). l @ [e]) ls)) = concat (map ?ev ls)"
    using assms(3)
  proof (induction ls)
    case (Cons x ls)
    obtain l e where x: "x = (l, e)" by fastforce
    with Cons show ?case
      using line_events_text [of l "[]"] by (auto simp: line_step_def)
  qed simp
  moreover have "fold on_event (concat (map ?ev ls)) u =
      fold (\<lambda>(l, e). if l = [] then id else if length l \<le> LINE_SIZE
            then handleLine (map (\<lambda>b. char_of (unat b)) l) else emitInvalid) ls u" for u
    by (induction ls arbitrary: u) (auto split: prod.splits)
  ultimately show ?thesis by (simp add: pollCommand_events(3) [OF assms(1)] assms(2))
qed

theorem bridge_lines_witness:
  "set_line (bridge_init True mdio_init)
     (pollCommand [0x0D, 0x21, 0x70, 0x0A] (bridge_init True mdio_init)) =
   handleLine [CHR ''!'', CHR ''p''] (bridge_init True mdio_init)"
proof -
  have "\<forall>(l, e) \<in> set [([], 0x0D), ([0x21, 0x70], 0x0A :: u8)]. is_eol e \<and> (\<forall>b \<in> set l. \<not> is_eol b)"
    by (simp add: is_eol_def)
  from bridge_lines [OF bridge_init_ok(1) bridge_init_ok(3) this, of "bridge_init True mdio_init" True mdio_init]
  moreover have "char_of (33 :: nat) = CHR ''!''" "char_of (112 :: nat) = CHR ''p''"
    by (simp_all add: char_of_def bit_iff_odd)
  ultimately show ?thesis by (simp add: LINE_SIZE_def set_line_self)
qed

end
