(* ===== verification/Fifo.thy ===== *)
theory Fifo
  imports Prelude
begin

text \<open>
  The contract the byte queues of the firmware share: the generic \<open>Ring<>\<close> of the USB device and the
  clocked datapath, and the hand-written ring of the RLE datapath. An enqueue takes a prefix of the
  offered items and says how long it was; a dequeue removes a prefix of the contents. Whatever the
  sequence of operations, nothing is lost, duplicated or reordered after it was accepted.
\<close>

datatype 'a fifo_op = Enq "'a list" | Deq nat

text \<open>Run a sequence of operations; collect what was accepted and what was delivered.\<close>

fun fifo_run ::
  "('a list \<Rightarrow> 'q \<Rightarrow> nat \<times> 'q) \<Rightarrow> (nat \<Rightarrow> 'q \<Rightarrow> 'a list \<times> 'q) \<Rightarrow>
   'a fifo_op list \<Rightarrow> 'q \<Rightarrow> 'a list \<times> 'a list \<times> 'q" where
  "fifo_run enq deq [] q = ([], [], q)"
| "fifo_run enq deq (Enq xs # ops) q =
     (let (n, q1) = enq xs q; (acc, out, q2) = fifo_run enq deq ops q1
      in (take n xs @ acc, out, q2))"
| "fifo_run enq deq (Deq n # ops) q =
     (let (xs, q1) = deq n q; (acc, out, q2) = fifo_run enq deq ops q1
      in (acc, xs @ out, q2))"

locale fifo =
  fixes items :: "'q \<Rightarrow> 'a list"
    and ok :: "'q \<Rightarrow> bool"
    and enq :: "'a list \<Rightarrow> 'q \<Rightarrow> nat \<times> 'q"
    and deq :: "nat \<Rightarrow> 'q \<Rightarrow> 'a list \<times> 'q"
  assumes enq_ok: "ok q \<Longrightarrow> ok (snd (enq xs q))"
    and enq_items: "ok q \<Longrightarrow> items (snd (enq xs q)) = items q @ take (fst (enq xs q)) xs"
    and deq_ok: "ok q \<Longrightarrow> ok (snd (deq n q))"
    and deq_items: "ok q \<Longrightarrow> fst (deq n q) @ items (snd (deq n q)) = items q"
begin

lemma run_conserves:
  "ok q \<Longrightarrow> (case fifo_run enq deq ops q of (acc, out, q') \<Rightarrow>
     out @ items q' = items q @ acc \<and> ok q')"
proof (induction ops arbitrary: q)
  case Nil
  then show ?case by simp
next
  case (Cons op ops)
  show ?case
  proof (cases op)
    case (Enq xs)
    obtain n q1 where e: "enq xs q = (n, q1)" by fastforce
    have "ok q1" "items q1 = items q @ take n xs"
      using enq_ok [OF Cons.prems, of xs] enq_items [OF Cons.prems, of xs] e by simp_all
    with Cons.IH [of q1] e Enq show ?thesis
      by (auto split: prod.splits)
  next
    case (Deq n)
    obtain xs q1 where d: "deq n q = (xs, q1)" by fastforce
    have "ok q1" "xs @ items q1 = items q"
      using deq_ok [OF Cons.prems, of n] deq_items [OF Cons.prems, of n] d by simp_all
    with Cons.IH [of q1] d Deq show ?thesis
      by (auto split: prod.splits)
  qed
qed

end

end
