(* ===== verification/RingBuf.thy ===== *)
theory RingBuf
  imports Prelude Fifo
begin

text \<open>
  The single-producer / single-consumer ring buffer of \<^verbatim>\<open>src/util/ring.hpp\<close>: two free-running
  32-bit cursors and a backing array whose length is the template parameter \<open>Capacity\<close>.
  The abstract value of a ring is the list of its unread items (\<open>ring_list\<close>).
\<close>

subsection \<open>State and operations\<close>

record 'a ring =
  r_head :: u32
  r_tail :: u32
  r_buf :: "'a list"

definition ring_cap :: "'a ring \<Rightarrow> u32" where
  "ring_cap r = of_nat (length (r_buf r))"

definition ring_clear :: "'a ring \<Rightarrow> 'a ring" where
  "ring_clear r = r\<lparr>r_head := 0, r_tail := 0\<rparr>"

definition ring_size :: "'a ring \<Rightarrow> u32" where
  "ring_size r = r_head r - r_tail r"

definition ring_free :: "'a ring \<Rightarrow> u32" where
  "ring_free r = ring_cap r - ring_size r"

definition ring_empty :: "'a ring \<Rightarrow> bool" where
  "ring_empty r \<longleftrightarrow> r_head r = r_tail r"

definition ring_full :: "'a ring \<Rightarrow> bool" where
  "ring_full r \<longleftrightarrow> ring_size r = ring_cap r"

text \<open>\<open>index(pos)\<close>: a mask for power-of-two capacities, a modulo otherwise.\<close>

definition ring_index :: "u32 \<Rightarrow> u32 \<Rightarrow> u32" where
  "ring_index C pos = (if C AND (C - 1) = 0 then pos AND (C - 1) else pos mod C)"

text \<open>The copy loop of \<open>copyIn\<close>, from the running position \<open>h + i\<close>.\<close>

fun copy_in_loop :: "u32 \<Rightarrow> u32 \<Rightarrow> 'a list \<Rightarrow> 'a list \<Rightarrow> 'a list" where
  "copy_in_loop C pos [] buf = buf"
| "copy_in_loop C pos (x # src) buf =
     copy_in_loop C (pos + 1) src (buf[unat (ring_index C pos) := x])"

definition ring_copyIn :: "'a list \<Rightarrow> u32 \<Rightarrow> 'a ring \<Rightarrow> 'a ring" where
  "ring_copyIn src n r =
     r\<lparr>r_buf := copy_in_loop (ring_cap r) (r_head r) (take (unat n) src) (r_buf r),
       r_head := r_head r + n\<rparr>"

definition ring_push :: "'a list \<Rightarrow> 'a ring \<Rightarrow> u32 \<times> 'a ring" where
  "ring_push src r =
     (let len = of_nat (length src); n = ring_free r; n = (if len < n then len else n)
      in (n, ring_copyIn src n r))"

definition ring_push1 :: "'a \<Rightarrow> 'a ring \<Rightarrow> bool \<times> 'a ring" where
  "ring_push1 item r = (let (n, r') = ring_push [item] r in (n = 1, r'))"

definition ring_pushAll :: "'a list \<Rightarrow> 'a ring \<Rightarrow> bool \<times> 'a ring" where
  "ring_pushAll src r =
     (let len = of_nat (length src) in
      if ring_free r < len then (False, r) else (True, ring_copyIn src len r))"

definition ring_pop :: "u32 \<Rightarrow> 'a ring \<Rightarrow> 'a list \<times> 'a ring" where
  "ring_pop len r =
     (let n = ring_size r; n = (if len < n then len else n); t = r_tail r
      in (map (\<lambda>i. r_buf r ! unat (ring_index (ring_cap r) (t + of_nat i))) [0..<unat n],
          r\<lparr>r_tail := t + n\<rparr>))"

definition ring_pop1 :: "'a ring \<Rightarrow> 'a option \<times> 'a ring" where
  "ring_pop1 r = (case ring_pop 1 r of ([x], r') \<Rightarrow> (Some x, r') | (_, r') \<Rightarrow> (None, r'))"

text \<open>
  The zero-copy sides. \<open>writePtr\<close> and \<open>readPtr\<close> are offsets into the backing array.
\<close>

definition ring_freeContig :: "'a ring \<Rightarrow> u32" where
  "ring_freeContig r =
     (let f = ring_free r; toWrap = ring_cap r - ring_index (ring_cap r) (r_head r)
      in if f < toWrap then f else toWrap)"

definition ring_writePtr :: "'a ring \<Rightarrow> nat" where
  "ring_writePtr r = unat (ring_index (ring_cap r) (r_head r))"

definition ring_writeCommit :: "u32 \<Rightarrow> 'a ring \<Rightarrow> 'a ring" where
  "ring_writeCommit n r = r\<lparr>r_head := r_head r + n\<rparr>"

definition ring_readContig :: "'a ring \<Rightarrow> u32" where
  "ring_readContig r =
     (let s = ring_size r; toWrap = ring_cap r - ring_index (ring_cap r) (r_tail r)
      in if s < toWrap then s else toWrap)"

definition ring_readPtr :: "'a ring \<Rightarrow> nat" where
  "ring_readPtr r = unat (ring_index (ring_cap r) (r_tail r))"

definition ring_readCommit :: "u32 \<Rightarrow> 'a ring \<Rightarrow> 'a ring" where
  "ring_readCommit n r = r\<lparr>r_tail := r_tail r + n\<rparr>"

text \<open>A store \<open>dst[i] = v\<close> through a pointer obtained at offset \<open>base\<close>.\<close>

definition ring_poke :: "nat \<Rightarrow> 'a \<Rightarrow> 'a ring \<Rightarrow> 'a ring option" where
  "ring_poke off v r = map_option (\<lambda>b. r\<lparr>r_buf := b\<rparr>) (put (r_buf r) off v)"

subsection \<open>Abstract value and well-formedness\<close>

abbreviation ring_len :: "'a ring \<Rightarrow> nat" where
  "ring_len r \<equiv> length (r_buf r)"

definition ring_list :: "'a ring \<Rightarrow> 'a list" where
  "ring_list r = map (\<lambda>i. r_buf r ! unat (ring_index (ring_cap r) (r_tail r + of_nat i)))
                     [0..<unat (ring_size r)]"

text \<open>
  \<open>ring_wf\<close> is the invariant of a power-of-two ring; \<open>ring_lin\<close> that of any other capacity, which
  needs the cursors not to have reached the 32-bit wrap.
\<close>

definition ring_fits :: "'a ring \<Rightarrow> bool" where
  "ring_fits r \<longleftrightarrow> 0 < ring_len r \<and> ring_len r \<le> 2 ^ 31 \<and> unat (ring_size r) \<le> ring_len r"

definition ring_wf :: "'a ring \<Rightarrow> bool" where
  "ring_wf r \<longleftrightarrow> ring_fits r \<and> (\<exists>k. ring_len r = 2 ^ k)"

definition ring_lin :: "'a ring \<Rightarrow> bool" where
  "ring_lin r \<longleftrightarrow> ring_fits r \<and> ring_cap r AND (ring_cap r - 1) \<noteq> 0
     \<and> unat (r_tail r) + ring_len r \<le> 2 ^ 32"

lemma ring_cap_unat: "ring_fits r \<Longrightarrow> unat (ring_cap r) = ring_len r"
  by (simp add: ring_fits_def ring_cap_def unat_of_nat)

lemma mask_index:
  assumes "k < 32"
  shows "unat (pos AND ((2 :: u32) ^ k - 1)) = unat pos mod 2 ^ k"
proof -
  have "(2 :: u32) ^ k - 1 = mask k" by (simp add: mask_eq_exp_minus_1)
  then have "unat (pos AND (2 ^ k - 1)) = unat (take_bit k pos)"
    by (simp add: take_bit_eq_mask)
  also have "\<dots> = take_bit k (unat pos)" by (rule unsigned_take_bit_eq)
  finally show ?thesis by (simp add: take_bit_eq_mod)
qed

lemma pow2_is_mask:
  assumes "k < 32"
  shows "(2 :: u32) ^ k AND (2 ^ k - 1) = 0"
proof -
  have "(2 :: u32) ^ k - 1 = mask k" by (simp add: mask_eq_exp_minus_1)
  then show ?thesis by (simp flip: take_bit_eq_mask) (simp add: take_bit_eq_0_iff)
qed

lemma ring_index_pow2:
  assumes "k \<le> 31"
  shows "unat (ring_index (2 ^ k) pos) = unat pos mod 2 ^ k"
  using assms mask_index [of k pos] pow2_is_mask [of k] by (simp add: ring_index_def)

lemma ring_cap_pow2: "ring_len r = 2 ^ k \<Longrightarrow> ring_cap r = 2 ^ k"
  by (simp add: ring_cap_def)

lemma pow2_le_31: "(2 :: nat) ^ k \<le> 2 ^ 31 \<Longrightarrow> k \<le> 31"
  by (metis numeral_le_one_iff power_le_imp_le_exp semiring_norm(69) not_less one_less_numeral_iff
      semiring_norm(76))

lemma ring_wf_pow2:
  assumes "ring_fits r" "ring_len r = 2 ^ k"
  shows "k \<le> 31"
  using assms pow2_le_31 [of k] by (simp only: ring_fits_def)

lemma ring_wfI:
  assumes "ring_len r = 2 ^ k" "k \<le> 31" "unat (ring_size r) \<le> 2 ^ k"
  shows "ring_wf r"
proof -
  have "(2 :: nat) ^ k \<le> 2 ^ 31" using assms(2) by (rule power_increasing) simp
  with assms show ?thesis unfolding ring_wf_def ring_fits_def by (metis zero_less_numeral zero_less_power)
qed

text \<open>The slot of the \<open>i\<close>-th unread item, for both kinds of capacity.\<close>

lemma ring_slot:
  assumes "ring_wf r \<or> ring_lin r" and "i < ring_len r \<or> ring_wf r"
  shows "unat (ring_index (ring_cap r) (r_tail r + of_nat i)) = (unat (r_tail r) + i) mod ring_len r"
proof (cases "ring_wf r")
  case True
  then obtain k where k: "ring_len r = 2 ^ k" "k \<le> 31"
    by (metis ring_wf_def ring_wf_pow2)
  have "(unat (r_tail r) + i) mod 2 ^ 32 mod 2 ^ k = (unat (r_tail r) + i) mod (2 :: nat) ^ k"
    using k(2) by (intro mod_mod_cancel le_imp_power_dvd) simp
  then show ?thesis
    using k by (simp add: ring_cap_pow2 ring_index_pow2 wrap_simps)
next
  case False
  with assms have lin: "ring_lin r" "i < ring_len r" by auto
  then have "(unat (r_tail r) + i) mod 2 ^ 32 = unat (r_tail r) + i"
    by (simp add: ring_lin_def)
  with lin show ?thesis
    by (simp add: ring_lin_def ring_index_def unat_mod wrap_simps ring_cap_unat)
qed

lemma ring_index_bound: "unat (ring_index (ring_cap r) p) < ring_len r"
  if "ring_wf r \<or> ring_lin r"
proof (cases "ring_wf r")
  case True
  then obtain k where k: "ring_len r = 2 ^ k" "k \<le> 31"
    by (metis ring_wf_def ring_wf_pow2)
  then show ?thesis by (simp add: ring_cap_pow2 ring_index_pow2)
next
  case False
  with that have "ring_lin r" by blast
  then have "0 < ring_len r" "unat (ring_cap r) = ring_len r" "ring_cap r AND (ring_cap r - 1) \<noteq> 0"
    by (auto simp: ring_lin_def ring_fits_def ring_cap_unat)
  then show ?thesis by (simp add: ring_index_def unat_mod)
qed

lemma ring_free_unat:
  assumes "ring_fits r"
  shows "unat (ring_free r) = ring_len r - unat (ring_size r)"
  using assms ring_cap_unat [OF assms]
  by (simp add: ring_free_def ring_fits_def unat_sub word_le_nat_alt)

text \<open>The contents over the physical slots, counted from the tail.\<close>

lemma ring_list_slots:
  assumes "ring_wf r \<or> ring_lin r"
  shows "ring_list r =
    map (\<lambda>i. r_buf r ! ((unat (r_tail r) + i) mod ring_len r)) [0..<unat (ring_size r)]"
proof -
  have "ring_fits r" using assms by (auto simp: ring_wf_def ring_lin_def)
  then show ?thesis
    using assms by (auto simp: ring_list_def ring_fits_def ring_slot)
qed

lemma ring_list_length [simp]: "length (ring_list r) = unat (ring_size r)"
  by (simp add: ring_list_def)

lemma mod_slots_distinct:
  fixes T n :: nat
  assumes "i < s" "s < n"
  shows "(T + i) mod n \<noteq> (T + s) mod n"
proof
  assume "(T + i) mod n = (T + s) mod n"
  then have "n dvd (T + s) - (T + i)"
    using assms(1) by (intro mod_eq_dvd_iff_nat [THEN iffD1]) auto
  then have "n dvd s - i" by simp
  with assms show False by (auto dest: dvd_imp_le)
qed

lemma copy_in_loop_length [simp]: "length (copy_in_loop C p xs buf) = length buf"
  by (induction C p xs buf rule: copy_in_loop.induct) auto

lemma copy_in_loop_Nil_iff [simp]: "copy_in_loop C p xs buf = [] \<longleftrightarrow> buf = []"
  by (metis copy_in_loop_length length_0_conv)

text \<open>Writing \<open>xs\<close> behind \<open>s\<close> live items appends \<open>xs\<close> and keeps the live items.\<close>

lemma copy_in_loop_appends:
  assumes "\<And>j. j < length xs \<Longrightarrow> unat (ring_index C (p + of_nat j)) = (T + s + j) mod n"
    and "s + length xs \<le> n" and "length buf = n"
  shows "map (\<lambda>i. copy_in_loop C p xs buf ! ((T + i) mod n)) [0..<s + length xs]
       = map (\<lambda>i. buf ! ((T + i) mod n)) [0..<s] @ xs"
  using assms
proof (induction xs arbitrary: p s buf)
  case Nil
  then show ?case by simp
next
  case (Cons x xs)
  let ?buf = "buf[(T + s) mod n := x]"
  have first: "unat (ring_index C p) = (T + s) mod n" using Cons.prems(1) [of 0] by simp
  have rest: "unat (ring_index C (p + 1 + of_nat j)) = (T + Suc s + j) mod n" if "j < length xs" for j
    using Cons.prems(1) [of "Suc j"] that by (simp add: add.assoc)
  have "map (\<lambda>i. copy_in_loop C (p + 1) xs ?buf ! ((T + i) mod n)) [0..<Suc s + length xs]
      = map (\<lambda>i. ?buf ! ((T + i) mod n)) [0..<Suc s] @ xs"
    using rest Cons.prems(2,3) by (intro Cons.IH) auto
  moreover have "map (\<lambda>i. ?buf ! ((T + i) mod n)) [0..<Suc s]
      = map (\<lambda>i. buf ! ((T + i) mod n)) [0..<s] @ [x]"
  proof -
    have "s < n" using Cons.prems(2) by simp
    then have "?buf ! ((T + i) mod n) = buf ! ((T + i) mod n)" if "i < s" for i
      using mod_slots_distinct [OF that, of n T] by (intro nth_list_update_neq) simp
    moreover have "?buf ! ((T + s) mod n) = x"
      using \<open>s < n\<close> Cons.prems(3) by (intro nth_list_update_eq) simp
    ultimately show ?thesis by simp
  qed
  ultimately show ?case using first by simp
qed

lemma ring_copyIn_list:
  assumes "ring_wf r \<or> ring_lin r" and "unat n \<le> unat (ring_free r)" and "unat n \<le> length src"
  shows "ring_list (ring_copyIn src n r) = ring_list r @ take (unat n) src"
    and "ring_size (ring_copyIn src n r) = ring_size r + n"
    and "ring_fits (ring_copyIn src n r)"
    and "unat (ring_size r + n) = unat (ring_size r) + unat n"
proof -
  let ?r' = "ring_copyIn src n r" and ?xs = "take (unat n) src"
  have fits: "ring_fits r" using assms by (auto simp: ring_wf_def ring_lin_def)
  have room: "unat (ring_size r) + unat n \<le> ring_len r"
  proof -
    have "unat (ring_size r) \<le> ring_len r" using fits by (simp add: ring_fits_def)
    then show ?thesis using assms(2) ring_free_unat [OF fits] by linarith
  qed
  show size: "ring_size ?r' = ring_size r + n"
    by (simp add: ring_copyIn_def ring_size_def algebra_simps)
  show add: "unat (ring_size r + n) = unat (ring_size r) + unat n"
    using room fits by (simp add: ring_fits_def unat_word_ariths)
  then show "ring_fits ?r'"
    using fits room by (simp add: ring_fits_def size) (simp add: ring_copyIn_def)
  have head: "r_head r = r_tail r + of_nat (unat (ring_size r))"
    by (simp add: ring_size_def)
  have slot: "unat (ring_index (ring_cap r) (r_head r + of_nat j))
      = (unat (r_tail r) + unat (ring_size r) + j) mod ring_len r" if "j < length ?xs" for j
  proof -
    have "unat (ring_index (ring_cap r) (r_tail r + of_nat (unat (ring_size r) + j)))
      = (unat (r_tail r) + (unat (ring_size r) + j)) mod ring_len r"
      using that room by (intro ring_slot [OF assms(1)]) auto
    then show ?thesis by (simp add: head add.assoc)
  qed
  have wf': "ring_wf ?r' \<or> ring_lin ?r'"
    using assms(1) \<open>ring_fits ?r'\<close>
    by (auto simp: ring_wf_def ring_lin_def) (simp_all add: ring_copyIn_def ring_cap_def)
  have "ring_list ?r' = map (\<lambda>i. copy_in_loop (ring_cap r) (r_head r) ?xs (r_buf r) !
      ((unat (r_tail r) + i) mod ring_len r)) [0..<unat (ring_size r) + length ?xs]"
  proof -
    have "unat (ring_size ?r') = unat (ring_size r) + length ?xs"
      using assms(3) by (simp add: size add)
    then show ?thesis
      unfolding ring_list_slots [OF wf'] by (simp only:) (simp add: ring_copyIn_def)
  qed
  also have "\<dots> = map (\<lambda>i. r_buf r ! ((unat (r_tail r) + i) mod ring_len r))
      [0..<unat (ring_size r)] @ ?xs"
    using slot room by (intro copy_in_loop_appends) auto
  finally show "ring_list ?r' = ring_list r @ ?xs"
    by (simp add: ring_list_slots [OF assms(1)])
qed

lemma ring_copyIn_frame [simp]:
  "r_tail (ring_copyIn src n r) = r_tail r" "ring_len (ring_copyIn src n r) = ring_len r"
  "ring_cap (ring_copyIn src n r) = ring_cap r"
  by (simp_all add: ring_copyIn_def ring_cap_def)

lemma ring_copyIn_wf:
  assumes "unat n \<le> unat (ring_free r)" "unat n \<le> length src"
  shows "ring_wf r \<Longrightarrow> ring_wf (ring_copyIn src n r)"
    and "ring_lin r \<Longrightarrow> ring_lin (ring_copyIn src n r)"
  using ring_copyIn_list(3) [OF _ assms] by (auto simp: ring_wf_def ring_lin_def)

subsection \<open>Each operation on the abstract value\<close>

text \<open>
  A length that fits \<open>uint32_t\<close> is read back exactly; \<open>push\<close> then accepts as many items as there is
  room for, in order.
\<close>

lemma unat_of_nat_u32: "n < 2 ^ 32 \<Longrightarrow> unat (of_nat n :: u32) = n"
  by (simp add: unat_of_nat)

lemma ring_push_list:
  assumes "ring_wf r \<or> ring_lin r"
  shows "ring_list (snd (ring_push src r)) = ring_list r @ take (unat (fst (ring_push src r))) src"
    and "unat (fst (ring_push src r)) \<le> length src"
    and "ring_wf r \<Longrightarrow> ring_wf (snd (ring_push src r))"
    and "ring_lin r \<Longrightarrow> ring_lin (snd (ring_push src r))"
    and "length src < 2 ^ 32 \<Longrightarrow>
         unat (fst (ring_push src r)) = min (length src) (ring_len r - length (ring_list r))"
proof -
  let ?n = "fst (ring_push src r)"
  have eq: "ring_push src r = (?n, ring_copyIn src ?n r)"
    by (simp add: ring_push_def Let_def)
  have n: "?n = (if of_nat (length src) < ring_free r then of_nat (length src) else ring_free r)"
    by (simp add: ring_push_def Let_def)
  have le_free: "unat ?n \<le> unat (ring_free r)"
    by (simp add: n word_less_nat_alt)
  have le_src: "unat ?n \<le> length src"
  proof -
    have "unat (of_nat (length src) :: u32) \<le> length src" by (simp add: unat_of_nat)
    then show ?thesis by (auto simp: n word_less_nat_alt not_less)
  qed
  then show "unat ?n \<le> length src" .
  show "ring_list (snd (ring_push src r)) = ring_list r @ take (unat ?n) src"
    using ring_copyIn_list(1) [OF assms le_free le_src] by (subst eq) simp
  show "ring_wf r \<Longrightarrow> ring_wf (snd (ring_push src r))" "ring_lin r \<Longrightarrow> ring_lin (snd (ring_push src r))"
    using ring_copyIn_wf [OF le_free le_src] by (subst eq, simp)+
  have "ring_fits r" using assms by (auto simp: ring_wf_def ring_lin_def)
  then show "unat ?n = min (length src) (ring_len r - length (ring_list r))" if "length src < 2 ^ 32"
    using that ring_free_unat [of r] unat_of_nat_u32 [OF that]
    by (auto simp: n word_less_nat_alt min_def)
qed

text \<open>\<open>pushAll\<close> is all or nothing.\<close>

lemma ring_pushAll_list:
  assumes "ring_wf r \<or> ring_lin r" and "length src < 2 ^ 32"
  shows "fst (ring_pushAll src r) \<longleftrightarrow> length src \<le> ring_len r - length (ring_list r)"
    and "ring_list (snd (ring_pushAll src r)) =
         ring_list r @ (if fst (ring_pushAll src r) then src else [])"
    and "ring_wf r \<Longrightarrow> ring_wf (snd (ring_pushAll src r))"
proof -
  have len: "unat (of_nat (length src) :: u32) = length src"
    by (rule unat_of_nat_u32 [OF assms(2)])
  have fits: "ring_fits r" using assms by (auto simp: ring_wf_def ring_lin_def)
  show ok: "fst (ring_pushAll src r) \<longleftrightarrow> length src \<le> ring_len r - length (ring_list r)"
    using len ring_free_unat [OF fits] by (auto simp: ring_pushAll_def Let_def word_less_nat_alt)
  show "ring_list (snd (ring_pushAll src r)) =
         ring_list r @ (if fst (ring_pushAll src r) then src else [])"
    using len ring_copyIn_list(1) [OF assms(1), of "of_nat (length src)" src]
    by (auto simp: ring_pushAll_def Let_def word_less_nat_alt)
  show "ring_wf r \<Longrightarrow> ring_wf (snd (ring_pushAll src r))"
    using len ring_copyIn_wf(1) [of "of_nat (length src)" r src]
    by (auto simp: ring_pushAll_def Let_def word_less_nat_alt)
qed

text \<open>Advancing the tail by at most the size drops that many items from the front.\<close>

lemma ring_readCommit_list:
  assumes "unat n \<le> unat (ring_size r)"
  shows "ring_list (ring_readCommit n r) = drop (unat n) (ring_list r)"
    and "ring_size (ring_readCommit n r) = ring_size r - n"
    and "ring_wf r \<Longrightarrow> ring_wf (ring_readCommit n r)"
proof -
  show size: "ring_size (ring_readCommit n r) = ring_size r - n"
    by (simp add: ring_readCommit_def ring_size_def)
  have sub: "unat (ring_size r - n) = unat (ring_size r) - unat n"
    using assms by (simp add: unat_sub word_le_nat_alt)
  show "ring_list (ring_readCommit n r) = drop (unat n) (ring_list r)"
  proof (rule nth_equalityI)
    show "length (ring_list (ring_readCommit n r)) = length (drop (unat n) (ring_list r))"
      using sub by (simp add: size)
  next
    fix i assume "i < length (ring_list (ring_readCommit n r))"
    then have i: "unat n + i < unat (ring_size r)" using sub size by simp
    have "r_tail r + n + of_nat i = r_tail r + of_nat (unat n + i)" by simp
    then show "ring_list (ring_readCommit n r) ! i = drop (unat n) (ring_list r) ! i"
      using i sub by (simp add: ring_list_def ring_readCommit_def ring_cap_def ring_size_def
        algebra_simps)
  qed
  show "ring_wf r \<Longrightarrow> ring_wf (ring_readCommit n r)"
    using sub by (auto simp: ring_wf_def ring_fits_def size) (simp_all add: ring_readCommit_def)
qed

lemma ring_pop_list:
  shows "fst (ring_pop len r) = take (unat len) (ring_list r)"
    and "ring_list (snd (ring_pop len r)) = drop (unat len) (ring_list r)"
    and "ring_wf r \<Longrightarrow> ring_wf (snd (ring_pop len r))"
proof -
  let ?n = "if len < ring_size r then len else ring_size r"
  have n: "unat ?n = min (unat len) (unat (ring_size r))"
    by (auto simp: word_less_nat_alt min_def)
  have pop: "ring_pop len r = (take (unat ?n) (ring_list r), ring_readCommit ?n r)"
    using n by (simp add: ring_pop_def Let_def ring_list_def ring_readCommit_def take_map min_def)
  have le: "unat ?n \<le> unat (ring_size r)" using n by simp
  show "fst (ring_pop len r) = take (unat len) (ring_list r)"
    by (subst pop) (simp add: n min_def)
  show "ring_list (snd (ring_pop len r)) = drop (unat len) (ring_list r)"
    using ring_readCommit_list(1) [OF le] by (subst pop) (simp add: n min_def)
  show "ring_wf r \<Longrightarrow> ring_wf (snd (ring_pop len r))"
    using ring_readCommit_list(3) [OF le] by (subst pop) simp
qed

subsection \<open>The zero-copy sides\<close>

lemma copy_in_loop_contig:
  assumes "\<And>j. j < length xs \<Longrightarrow> unat (ring_index C (p + of_nat j)) = w + j"
    and "w + length xs \<le> length buf"
  shows "copy_in_loop C p xs buf = take w buf @ xs @ drop (w + length xs) buf"
  using assms
proof (induction xs arbitrary: p w buf)
  case Nil
  then show ?case by simp
next
  case (Cons x xs)
  have first: "unat (ring_index C p) = w" using Cons.prems(1) [of 0] by simp
  have "copy_in_loop C (p + 1) xs (buf[w := x])
      = take (Suc w) (buf[w := x]) @ xs @ drop (Suc w + length xs) (buf[w := x])"
    using Cons.prems(1) [of "Suc _"] Cons.prems(2) by (intro Cons.IH) (auto simp: add.assoc)
  with first Cons.prems(2) show ?case
    by (simp add: take_Suc_conv_app_nth take_update_cancel)
qed

lemma ring_head_slot:
  assumes "ring_wf r"
  shows "unat (ring_index (ring_cap r) (r_head r + of_nat j)) = (unat (r_head r) + j) mod ring_len r"
proof -
  from assms obtain k where k: "ring_len r = 2 ^ k" "k \<le> 31"
    by (metis ring_wf_def ring_wf_pow2)
  have "(unat (r_head r) + j) mod 2 ^ 32 mod 2 ^ k = (unat (r_head r) + j) mod (2 :: nat) ^ k"
    using k(2) by (intro mod_mod_cancel le_imp_power_dvd) simp
  then show ?thesis using k by (simp add: ring_cap_pow2 ring_index_pow2 wrap_simps)
qed

lemma mod_no_wrap: "a mod n + j < n \<Longrightarrow> (a + j) mod n = a mod n + (j :: nat)"
  by (metis mod_add_left_eq mod_less)

lemma ring_freeContig_bounds:
  assumes "ring_wf r" "n \<le> unat (ring_freeContig r)"
  shows "n \<le> unat (ring_free r)" and "ring_writePtr r + n \<le> ring_len r"
proof -
  have idx: "unat (ring_index (ring_cap r) (r_head r)) < ring_len r"
    using assms(1) by (intro ring_index_bound) simp
  have cap: "unat (ring_cap r) = ring_len r"
    using assms(1) by (simp add: ring_wf_def ring_cap_unat)
  then have wrap: "unat (ring_cap r - ring_index (ring_cap r) (r_head r))
      = ring_len r - ring_writePtr r"
    using idx by (simp add: unat_sub word_le_nat_alt ring_writePtr_def)
  have "unat (ring_freeContig r) = min (unat (ring_free r)) (ring_len r - ring_writePtr r)"
    using wrap by (auto simp: ring_freeContig_def Let_def word_less_nat_alt min_def)
  with assms(2) idx show "n \<le> unat (ring_free r)" "ring_writePtr r + n \<le> ring_len r"
    by (auto simp: ring_writePtr_def)
qed

text \<open>Filling the reserved run and committing it is a \<open>copyIn\<close>.\<close>

lemma ring_write_contig:
  assumes "ring_wf r" "length xs \<le> unat (ring_freeContig r)"
  shows "ring_writeCommit (of_nat (length xs))
           (r\<lparr>r_buf := take (ring_writePtr r) (r_buf r) @ xs
                      @ drop (ring_writePtr r + length xs) (r_buf r)\<rparr>)
       = ring_copyIn xs (of_nat (length xs)) r"
proof -
  note fits = ring_freeContig_bounds [OF assms]
  have len: "unat (of_nat (length xs) :: u32) = length xs"
    using fits(1) unat_u32_lt [of "ring_free r"] by (intro unat_of_nat_u32) simp
  have "unat (ring_index (ring_cap r) (r_head r + of_nat j)) = ring_writePtr r + j"
    if "j < length xs" for j
    using ring_head_slot [OF assms(1), of j] ring_head_slot [OF assms(1), of 0]
      mod_no_wrap [of "unat (r_head r)" "ring_len r" j] fits(2) that
    by (simp add: ring_writePtr_def)
  then have "copy_in_loop (ring_cap r) (r_head r) xs (r_buf r)
      = take (ring_writePtr r) (r_buf r) @ xs @ drop (ring_writePtr r + length xs) (r_buf r)"
    using fits(2) by (intro copy_in_loop_contig)
  then show ?thesis
    by (simp add: ring_copyIn_def ring_writeCommit_def len)
qed

lemma ring_read_contig:
  assumes "ring_wf r" "n \<le> unat (ring_readContig r)"
  shows "take n (drop (ring_readPtr r) (r_buf r)) = take n (ring_list r)"
    and "n \<le> length (ring_list r)"
proof -
  have idx: "ring_readPtr r < ring_len r"
    using assms(1) unfolding ring_readPtr_def by (intro ring_index_bound) simp
  have cap: "unat (ring_cap r) = ring_len r"
    using assms(1) by (simp add: ring_wf_def ring_cap_unat)
  then have wrap: "unat (ring_cap r - ring_index (ring_cap r) (r_tail r))
      = ring_len r - ring_readPtr r"
    using idx by (simp add: unat_sub word_le_nat_alt ring_readPtr_def)
  have "unat (ring_readContig r) = min (unat (ring_size r)) (ring_len r - ring_readPtr r)"
    using wrap by (auto simp: ring_readContig_def Let_def word_less_nat_alt min_def)
  with assms(2) idx have n: "n \<le> unat (ring_size r)" "ring_readPtr r + n \<le> ring_len r"
    by auto
  then show "n \<le> length (ring_list r)" by simp
  have ptr: "ring_readPtr r = unat (r_tail r) mod ring_len r"
    using ring_slot [of r 0] assms(1) by (simp add: ring_readPtr_def)
  show "take n (drop (ring_readPtr r) (r_buf r)) = take n (ring_list r)"
  proof (rule nth_equalityI)
    show "length (take n (drop (ring_readPtr r) (r_buf r))) = length (take n (ring_list r))"
      using n by simp
  next
    fix i assume "i < length (take n (drop (ring_readPtr r) (r_buf r)))"
    then have "i < n" by simp
    then have "(unat (r_tail r) + i) mod ring_len r = ring_readPtr r + i"
      using n(2) by (simp add: ptr mod_no_wrap)
    with \<open>i < n\<close> n show "take n (drop (ring_readPtr r) (r_buf r)) ! i = take n (ring_list r) ! i"
      using assms(1) by (simp add: ring_list_slots)
  qed
qed

subsection \<open>The ring is a FIFO\<close>

definition ring_enq :: "'a list \<Rightarrow> 'a ring \<Rightarrow> nat \<times> 'a ring" where
  "ring_enq xs r = (let (n, r') = ring_push xs r in (unat n, r'))"

definition ring_deq :: "nat \<Rightarrow> 'a ring \<Rightarrow> 'a list \<times> 'a ring" where
  "ring_deq n r = ring_pop (of_nat n) r"

interpretation rq: fifo ring_list ring_wf ring_enq ring_deq
  by unfold_locales
     (simp_all add: ring_enq_def ring_deq_def ring_push_list ring_pop_list case_prod_beta)

subsection \<open>Properties\<close>

text \<open>
  C13. A ring of power-of-two capacity is a FIFO under every sequence of pushes and pops, whatever its
  cursors, the wrap of the 32-bit cursors included: what was read, followed by what is still stored,
  is what was stored before followed by what was accepted, and the fill never exceeds the capacity.
\<close>

theorem ring_fifo:
  assumes "ring_wf r"
  shows "case fifo_run ring_enq ring_deq ops r of (acc, out, r') \<Rightarrow>
    out @ ring_list r' = ring_list r @ acc \<and> unat (ring_size r') \<le> ring_len r'"
  using rq.run_conserves [OF assms, of ops]
  by (auto simp: ring_wf_def ring_fits_def split: prod.splits)

theorem ring_fifo_witness:
  "case fifo_run ring_enq ring_deq [Enq [1, 2, 3, 4], Deq 2, Enq [5]]
      \<lparr>r_head = 0xFFFFFFFF, r_tail = 0xFFFFFFFE, r_buf = [0, 0, 7, 0 :: u8]\<rparr> of (acc, out, r') \<Rightarrow>
    out @ ring_list r' = [7] @ acc \<and> unat (ring_size r') \<le> ring_len r'"
proof -
  let ?r = "\<lparr>r_head = 0xFFFFFFFF, r_tail = 0xFFFFFFFE, r_buf = [0, 0, 7, 0 :: u8]\<rparr>"
  have wf: "ring_wf ?r" by (rule ring_wfI [of _ 2]) (simp_all add: ring_size_def)
  have "ring_list ?r = [7]"
    by (simp add: ring_list_def ring_size_def ring_cap_def ring_index_def)
  with ring_fifo [OF wf, of "[Enq [1, 2, 3, 4], Deq 2, Enq [5]]"] show ?thesis by simp
qed

text \<open>
  The two producer calls on a well-formed ring: \<open>push\<close> accepts exactly the items that fit and
  reports their number, \<open>pushAll\<close> accepts the whole block when it fits and otherwise leaves the ring
  as it was.
\<close>

theorem ring_push_spec:
  assumes "ring_wf r" and "length src < 2 ^ 32"
  shows "(case ring_push src r of (n, r') \<Rightarrow>
      unat n = min (length src) (ring_len r - length (ring_list r))
      \<and> ring_list r' = ring_list r @ take (unat n) src)
    \<and> (case ring_pushAll src r of (done, r') \<Rightarrow>
      (done \<longleftrightarrow> length (ring_list r) + length src \<le> ring_len r)
      \<and> ring_list r' = ring_list r @ (if done then src else [])
      \<and> (\<not> done \<longrightarrow> r' = r))"
    (is "?push \<and> ?all")
proof
  have wf: "ring_wf r \<or> ring_lin r" using assms by simp
  have size: "length (ring_list r) \<le> ring_len r"
    using assms(1) by (simp add: ring_wf_def ring_fits_def)
  show ?push
    using ring_push_list [OF wf, of src] assms(2) by (simp add: case_prod_beta)
  show ?all
    using ring_pushAll_list(1,2) [OF wf assms(2)] size
    by (auto simp: case_prod_beta) (simp add: ring_pushAll_def Let_def split: if_splits)
qed

theorem ring_push_spec_witness:
  "(case ring_push [1, 2, 3] \<lparr>r_head = 1, r_tail = 0, r_buf = [7, 0 :: u8]\<rparr> of (n, r') \<Rightarrow>
      unat n = Suc 0 \<and> ring_list r' = ring_list \<lparr>r_head = 1, r_tail = 0, r_buf = [7, 0]\<rparr> @ take (unat n) [1, 2, 3])"
proof -
  have "ring_wf \<lparr>r_head = 1, r_tail = 0, r_buf = [7, 0 :: u8]\<rparr>"
    by (rule ring_wfI [of _ 1]) (simp_all add: ring_size_def)
  from ring_push_spec [OF this, of "[1, 2, 3]"] show ?thesis
    by (simp add: ring_size_def case_prod_beta)
qed

text \<open>
  C38. The zero-copy producer is the copying one: filling any run of at most \<open>freeContig()\<close> bytes at
  \<open>writePtr()\<close> and committing it gives the ring that \<open>pushAll\<close> gives, and reading a run of at most
  \<open>readContig()\<close> at \<open>readPtr()\<close> reads what \<open>pop\<close> would deliver.
\<close>

theorem ring_zero_copy:
  assumes "ring_wf r" and "length xs \<le> unat (ring_freeContig r)" and "n \<le> unat (ring_readContig r)"
  shows "(True, ring_writeCommit (of_nat (length xs))
            (r\<lparr>r_buf := take (ring_writePtr r) (r_buf r) @ xs
                       @ drop (ring_writePtr r + length xs) (r_buf r)\<rparr>))
          = ring_pushAll xs r
    \<and> (take n (drop (ring_readPtr r) (r_buf r)), ring_readCommit (of_nat n) r)
          = ring_pop (of_nat n) r"
proof
  have free: "length xs \<le> unat (ring_free r)" using ring_freeContig_bounds [OF assms(1,2)] by simp
  then have len: "unat (of_nat (length xs) :: u32) = length xs"
    using unat_u32_lt [of "ring_free r"] by (intro unat_of_nat_u32) simp
  then have "\<not> ring_free r < of_nat (length xs)" using free by (simp add: word_less_nat_alt)
  then show "(True, ring_writeCommit (of_nat (length xs))
            (r\<lparr>r_buf := take (ring_writePtr r) (r_buf r) @ xs
                       @ drop (ring_writePtr r + length xs) (r_buf r)\<rparr>)) = ring_pushAll xs r"
    unfolding ring_write_contig [OF assms(1,2)] by (simp add: ring_pushAll_def)
  have n: "n \<le> unat (ring_size r)" using ring_read_contig(2) [OF assms(1,3)] by simp
  then have un: "unat (of_nat n :: u32) = n"
    using unat_u32_lt [of "ring_size r"] by (intro unat_of_nat_u32) simp
  have "snd (ring_pop (of_nat n) r) = ring_readCommit (of_nat n) r"
    using n un by (auto simp: ring_pop_def Let_def ring_readCommit_def word_less_nat_alt)
  moreover have "fst (ring_pop (of_nat n) r) = take n (drop (ring_readPtr r) (r_buf r))"
    by (simp add: ring_pop_list(1) un ring_read_contig(1) [OF assms(1,3)])
  ultimately show "(take n (drop (ring_readPtr r) (r_buf r)), ring_readCommit (of_nat n) r)
      = ring_pop (of_nat n) r"
    by (metis prod.collapse)
qed

theorem ring_zero_copy_witness:
  "\<exists>r :: u8 ring. ring_freeContig r = 1 \<and> ring_readContig r = 1 \<and>
     (True, ring_writeCommit (of_nat (length [9 :: u8]))
            (r\<lparr>r_buf := take (ring_writePtr r) (r_buf r) @ [9]
                       @ drop (ring_writePtr r + length [9 :: u8]) (r_buf r)\<rparr>))
          = ring_pushAll [9] r
    \<and> (take 1 (drop (ring_readPtr r) (r_buf r)), ring_readCommit (of_nat 1) r)
          = ring_pop (of_nat 1) r"
proof -
  let ?r = "\<lparr>r_head = 1, r_tail = 0, r_buf = [7, 0 :: u8]\<rparr>"
  have wf: "ring_wf ?r" by (rule ring_wfI [of _ 1]) (simp_all add: ring_size_def)
  have c: "ring_freeContig ?r = 1" "ring_readContig ?r = 1"
    by (simp_all add: ring_freeContig_def ring_readContig_def ring_free_def ring_size_def
        ring_cap_def ring_index_def)
  show ?thesis
    by (rule exI [of _ ?r], intro conjI c; insert ring_zero_copy [OF wf, of "[9]" 1] c; simp)
qed

end
