(* ===== verification/UsbDesc.thy ===== *)
theory UsbDesc
  imports Prelude
begin

text \<open>
  The USB descriptor tables of \<^verbatim>\<open>src/usb/usb_descriptors.hpp\<close>, as byte lists, and what makes a table
  well formed: a configuration is a chain of sub-descriptors whose length bytes add up to the total
  length in its header.
\<close>

definition kVid :: u16 where "kVid = 0x1A86"
definition kPid :: u16 where "kPid = 0xFE0C"
definition kEp0Size :: u8 where "kEp0Size = 64"
definition kPacket :: u16 where "kPacket = 64"

definition kStrLang :: u8 where "kStrLang = 0x00"
definition kStrManu :: u8 where "kStrManu = 0x01"
definition kStrProd :: u8 where "kStrProd = 0x02"
definition kStrSerial :: u8 where "kStrSerial = 0x03"

definition kDevice :: "u8 list" where
  "kDevice =
    [0x12, 0x01, 0x10, 0x01, 0x02, 0x00, 0x00, kEp0Size,
     ucast kVid, ucast (drop_bit 8 kVid), ucast kPid, ucast (drop_bit 8 kPid),
     0x01, 0x00, kStrManu, kStrProd, 0x00, 0x01]"

definition kConfig :: "u8 list" where
  "kConfig =
    [0x09, 0x02, 0x43, 0x00, 0x02, 0x01, 0x00, 0x80, 0x32,
     0x09, 0x04, 0x00, 0x00, 0x01, 0x02, 0x02, 0x01, 0x00,
     0x05, 0x24, 0x00, 0x10, 0x01,
     0x05, 0x24, 0x01, 0x00, 0x01,
     0x04, 0x24, 0x02, 0x02,
     0x05, 0x24, 0x06, 0x00, 0x01,
     0x07, 0x05, 0x81, 0x03, ucast kPacket, ucast (drop_bit 8 kPacket), 0x01,
     0x09, 0x04, 0x01, 0x00, 0x02, 0x0A, 0x00, 0x00, 0x00,
     0x07, 0x05, 0x02, 0x02, ucast kPacket, ucast (drop_bit 8 kPacket), 0x00,
     0x07, 0x05, 0x83, 0x02, ucast kPacket, ucast (drop_bit 8 kPacket), 0x00]"

definition kLang :: "u8 list" where
  "kLang = [0x04, 0x03, 0x09, 0x04]"

definition kManufacturer :: "u8 list" where
  "kManufacturer = [0x0E, 0x03, 0x77, 0, 0x63, 0, 0x68, 0, 0x2E, 0, 0x63, 0, 0x6E, 0]"

definition kProduct :: "u8 list" where
  "kProduct = [0x16, 0x03, 0x55, 0, 0x53, 0, 0x42, 0, 0x20, 0, 0x53, 0, 0x65, 0,
               0x72, 0, 0x69, 0, 0x61, 0, 0x6C, 0]"

definition kSerial :: "u8 list" where
  "kSerial = [0x16, 0x03, 0x30, 0, 0x31, 0, 0x32, 0, 0x33, 0, 0x34, 0, 0x35, 0,
              0x36, 0, 0x37, 0, 0x38, 0, 0x39, 0]"

definition deviceLen :: u16 where
  "deviceLen = ucast (kDevice ! 0)"

definition configLen :: u16 where
  "configLen = ucast (kConfig ! 2) OR push_bit 8 (ucast (kConfig ! 3))"

lemmas table_defs = kVid_def kPid_def kEp0Size_def kPacket_def kStrLang_def kStrManu_def kStrProd_def
  kStrSerial_def kDevice_def kConfig_def kLang_def kManufacturer_def kProduct_def kSerial_def
  deviceLen_def configLen_def

text \<open>The chain of sub-descriptors of a table, by their length bytes; \<open>None\<close> when it does not fit.\<close>

function chain :: "u8 list \<Rightarrow> u8 list list option" where
  "chain [] = Some []"
| "chain (b # bs) =
    (let n = unat b in
     if n < 2 \<or> length bs + 1 < n then None
     else map_option ((#) (b # take (n - 1) bs)) (chain (drop (n - 1) bs)))"
  by pat_completeness auto
termination
  by (relation "measure length") auto

text \<open>The endpoint addresses a configuration declares.\<close>

definition endpoints :: "u8 list \<Rightarrow> u8 list option" where
  "endpoints t = map_option (\<lambda>ds. map (\<lambda>d. d ! 2) (filter (\<lambda>d. d ! 1 = 0x05) ds)) (chain t)"

lemma table_lengths:
  "length kDevice = 18" "length kConfig = 67" "length kLang = 4" "length kManufacturer = 14"
  "length kProduct = 22" "length kSerial = 22" "deviceLen = 18" "configLen = 67"
  "kLang ! 0 = 4" "kManufacturer ! 0 = 14" "kProduct ! 0 = 22" "kSerial ! 0 = 22"
  by (simp_all add: table_defs)

subsection \<open>Properties\<close>


end
