(* ===== verification/UsbCdc.thy ===== *)
theory UsbCdc
  imports RingBuf UsbDesc
begin

text \<open>
  The USB-CDC device of \<^verbatim>\<open>src/usb/usb_cdc.hpp\<close> and \<^verbatim>\<open>usb_cdc.cpp\<close>: the control-transfer state
  machine, the bulk endpoints with their two byte rings, the polled interrupt dispatch and the
  main-loop step.

  The peripheral registers the code touches are fields of the state. The constants that the code
  takes from the vendor headers (bit masks, request codes) are not part of the repository: they are
  the fields of a record \<open>K\<close>, an argument of every definition, and the theorems name what they need
  of it. Writing \<open>INT_FG\<close> clears the bits that are written (the documented behaviour of the flag
  register). A \<open>memcpy\<close> that reads outside its source is \<open>None\<close>.
\<close>

subsection \<open>Vendor constants\<close>

record sdk =
  T_TOG :: u16
  R_TOG :: u16
  T_RES_MASK :: u16
  T_RES_ACK :: u16
  T_RES_NAK :: u16
  T_RES_STALL :: u16
  R_RES_MASK :: u16
  R_RES_ACK :: u16
  R_RES_NAK :: u16
  R_RES_STALL :: u16
  UEP1_TX_EN :: u8
  UEP2_RX_EN :: u8
  UEP3_TX_EN :: u8
  UIF_TRANSFER :: u8
  UIF_BUS_RST :: u8
  UIF_SUSPEND :: u8
  UIS_TOKEN_MASK :: u8
  UIS_ENDP_MASK :: u8
  TOKEN_IN :: u8
  TOKEN_OUT :: u8
  TOKEN_SETUP :: u8
  TOG_OK :: u8
  UMS_SUSPEND :: u8
  UDA_GP_BIT :: u8
  UC_START :: u8
  UD_START :: u8
  UIE_START :: u8
  REQ_TYP_MASK :: u8
  REQ_TYP_STANDARD :: u8
  REQ_TYP_CLASS :: u8
  REQ_RECIP_MASK :: u8
  RECIP_DEVICE :: u8
  RECIP_ENDP :: u8
  FEAT_REMOTE_WAKEUP :: u8
  FEAT_ENDP_HALT :: u8
  GET_DESCRIPTOR :: u8
  SET_ADDRESS :: u8
  GET_CONFIGURATION :: u8
  SET_CONFIGURATION :: u8
  CLEAR_FEATURE :: u8
  SET_FEATURE :: u8
  GET_INTERFACE :: u8
  SET_INTERFACE :: u8
  GET_STATUS :: u8
  DESCR_DEVICE :: u8
  DESCR_CONFIG :: u8
  DESCR_STRING :: u8
  GET_LINE_CODING :: u8
  SET_LINE_CODING :: u8
  SET_LINE_CTLSTE :: u8
  SEND_BREAK :: u8

definition UEP_IN :: u8 where "UEP_IN = 0x80"
definition UEP_OUT :: u8 where "UEP_OUT = 0x00"
definition UEP0 :: u8 where "UEP0 = 0x00"
definition UEP1 :: u8 where "UEP1 = 0x01"
definition UEP2 :: u8 where "UEP2 = 0x02"
definition UEP3 :: u8 where "UEP3 = 0x03"
definition USB_IOEN :: u32 where "USB_IOEN = 0x80"
definition USB_PHY_V33 :: u32 where "USB_PHY_V33 = 0x40"
definition UDP_PUE_MASK :: u32 where "UDP_PUE_MASK = 0x0C"
definition UDP_PUE_10K :: u32 where "UDP_PUE_10K = 0x08"
definition UDP_PUE_1K5 :: u32 where "UDP_PUE_1K5 = 0x0C"
definition UDM_PUE_MASK :: u32 where "UDM_PUE_MASK = 0x03"
definition kRxCapacity :: nat where "kRxCapacity = 1024"
definition kTxCapacity :: nat where "kTxCapacity = 512"
definition kPartialFlushMs :: u32 where "kPartialFlushMs = 1"

subsection \<open>State\<close>

record LineCoding =
  baud :: u32
  stopBits :: u8
  parity :: u8
  dataBits :: u8

text \<open>The registers of the USBFS peripheral that the code reads or writes.\<close>

record usbfs =
  UEP4_1_MOD :: u8
  UEP2_3_MOD :: u8
  UEP0_CTRL :: u16
  UEP1_CTRL :: u16
  UEP2_CTRL :: u16
  UEP3_CTRL :: u16
  UEP0_TX_LEN :: u16
  UEP1_TX_LEN :: u16
  UEP3_TX_LEN :: u16
  RX_LEN :: u16
  BASE_CTRL :: u8
  UDEV_CTRL :: u8
  DEV_ADDR :: u8
  INT_EN :: u8
  INT_FG :: u8
  INT_ST :: u8
  MIS_ST :: u8
  AFIO_CTLR :: u32

text \<open>
  The device. \<open>descr_\<close> is the bytes from the cursor to the end of the table it points into;
  \<open>ep3_log\<close> records every packet handed to endpoint 3, in order.
\<close>

record usb = usbfs +
  ep0 :: "u8 list"
  ep2 :: "u8 list"
  ep3 :: "u8 list"
  rx_ring :: "u8 ring"
  tx_ring :: "u8 ring"
  descr_ptr :: "u8 list option"
  setupLen :: u16
  setupReqType :: u8
  setupReqCode :: u8
  setupValue :: u16
  setupIndex :: u16
  devAddr :: u8
  devConfig :: u8
  enumerated :: bool
  sleepStatus :: u8
  lcWire :: "u8 list"
  lc :: LineCoding
  lcChanged :: bool
  dtr :: bool
  session_flag :: bool
  ep3Busy :: bool
  ep2Nak :: bool
  txPkts :: u32
  txBytes :: u32
  fullPkts :: u32
  shortPkts :: u32
  partialPending :: bool
  partialSinceMs :: u32
  ep3_log :: "u8 list list"

text \<open>The static object, with the initialisers of the class; registers and buffers start at zero.\<close>

definition usb_static :: usb where
  "usb_static =
    \<lparr>UEP4_1_MOD = 0, UEP2_3_MOD = 0, UEP0_CTRL = 0, UEP1_CTRL = 0, UEP2_CTRL = 0, UEP3_CTRL = 0,
     UEP0_TX_LEN = 0, UEP1_TX_LEN = 0, UEP3_TX_LEN = 0, RX_LEN = 0, BASE_CTRL = 0, UDEV_CTRL = 0,
     DEV_ADDR = 0, INT_EN = 0, INT_FG = 0, INT_ST = 0, MIS_ST = 0, AFIO_CTLR = 0,
     ep0 = replicate 64 0, ep2 = replicate 64 0, ep3 = replicate 64 0,
     rx_ring = \<lparr>r_head = 0, r_tail = 0, r_buf = replicate kRxCapacity 0\<rparr>,
     tx_ring = \<lparr>r_head = 0, r_tail = 0, r_buf = replicate kTxCapacity 0\<rparr>,
     descr_ptr = None, setupLen = 0, setupReqType = 0, setupReqCode = 0, setupValue = 0, setupIndex = 0,
     devAddr = 0, devConfig = 0, enumerated = False, sleepStatus = 0,
     lcWire = [0x00, 0xC2, 0x01, 0x00, 0x00, 0x00, 0x08],
     lc = \<lparr>baud = 115200, stopBits = 0, parity = 0, dataBits = 8\<rparr>,
     lcChanged = False, dtr = False, session_flag = False, ep3Busy = False, ep2Nak = False,
     txPkts = 0, txBytes = 0, fullPkts = 0, shortPkts = 0, partialPending = False,
     partialSinceMs = 0, ep3_log = []\<rparr>"

text \<open>\<open>reg = (reg & ~mask) | value\<close>, the read-modify-write of a response field.\<close>

definition set_field :: "u16 \<Rightarrow> u16 \<Rightarrow> u16 \<Rightarrow> u16" where
  "set_field reg m v = (reg AND NOT m) OR v"

text \<open>\<open>memcpy(dst, src, n)\<close> into an endpoint buffer.\<close>

definition copy_prefix :: "u8 list \<Rightarrow> u8 list option \<Rightarrow> nat \<Rightarrow> u8 list option" where
  "copy_prefix dst src n =
    (if n = 0 then Some dst
     else case src of None \<Rightarrow> None
       | Some s \<Rightarrow> if n \<le> length s \<and> n \<le> length dst then Some (take n s @ drop n dst) else None)"

subsection \<open>Setup\<close>

definition endpointInit :: "sdk \<Rightarrow> usb \<Rightarrow> usb" where
  "endpointInit K s = s
    \<lparr>UEP4_1_MOD := UEP1_TX_EN K, UEP2_3_MOD := UEP2_RX_EN K OR UEP3_TX_EN K,
     UEP0_CTRL := R_RES_ACK K OR T_RES_NAK K, UEP2_CTRL := R_RES_ACK K,
     UEP1_TX_LEN := 0, UEP3_TX_LEN := 0,
     UEP1_CTRL := T_RES_NAK K, UEP3_CTRL := T_RES_NAK K,
     ep3Busy := False, ep2Nak := False, partialPending := False\<rparr>"

definition decodeLineCoding :: "usb \<Rightarrow> usb" where
  "decodeLineCoding s = s\<lparr>lc :=
     \<lparr>baud = ucast (lcWire s ! 0) OR push_bit 8 (ucast (lcWire s ! 1))
               OR push_bit 16 (ucast (lcWire s ! 2)) OR push_bit 24 (ucast (lcWire s ! 3)),
      stopBits = lcWire s ! 4, parity = lcWire s ! 5, dataBits = lcWire s ! 6\<rparr>\<rparr>"

text \<open>
  \<open>init\<close>: the peripheral clocks and the two pins are set through the vendor library and are outside the
  model; \<open>vdd5\<close> is the supply the library reports.
\<close>

definition usb_init :: "sdk \<Rightarrow> bool \<Rightarrow> usb \<Rightarrow> usb" where
  "usb_init K vdd5 s =
    (let s = decodeLineCoding s;
         s = s\<lparr>AFIO_CTLR :=
           (if vdd5 then (AFIO_CTLR s AND NOT (UDP_PUE_MASK OR UDM_PUE_MASK OR USB_PHY_V33))
                           OR UDP_PUE_10K OR USB_IOEN
            else (AFIO_CTLR s AND NOT (UDP_PUE_MASK OR UDM_PUE_MASK))
                   OR USB_PHY_V33 OR UDP_PUE_1K5 OR USB_IOEN)\<rparr>;
         s = endpointInit K (s\<lparr>BASE_CTRL := 0x00\<rparr>)
     in s\<lparr>DEV_ADDR := 0x00, BASE_CTRL := UC_START K, INT_FG := INT_FG s AND NOT 0xFF,
          UDEV_CTRL := UD_START K, INT_EN := UIE_START K\<rparr>)"

subsection \<open>Bulk endpoints\<close>

definition armEp3 :: "sdk \<Rightarrow> u16 \<Rightarrow> usb \<Rightarrow> usb" where
  "armEp3 K len s = s
    \<lparr>UEP3_TX_LEN := len, UEP3_CTRL := set_field (UEP3_CTRL s) (T_RES_MASK K) (T_RES_ACK K),
     ep3Busy := True, ep3_log := ep3_log s @ [take (unat len) (ep3 s)]\<rparr>"

definition armEp3FromTx :: "sdk \<Rightarrow> bool \<Rightarrow> usb \<Rightarrow> bool \<times> usb" where
  "armEp3FromTx K allowShort s =
    (let n = ring_size (tx_ring s) in
     if n = 0 then (False, s)
     else if n < ucast kPacket \<and> \<not> allowShort then (False, s)
     else
      let n = (if n > ucast kPacket then ucast kPacket else n);
          (data, tx) = ring_pop n (tx_ring s);
          s = s\<lparr>ep3 := data @ drop (length data) (ep3 s), tx_ring := tx, txBytes := txBytes s + n\<rparr>;
          s = (if n = ucast kPacket then s\<lparr>fullPkts := fullPkts s + 1\<rparr>
               else s\<lparr>shortPkts := shortPkts s + 1\<rparr>)
      in (True, armEp3 K (ucast n) s))"

definition usb_available :: "usb \<Rightarrow> u32" where
  "usb_available s = ring_size (rx_ring s)"

definition usb_read :: "u32 \<Rightarrow> usb \<Rightarrow> u8 list \<times> usb" where
  "usb_read maxLen s = (let (xs, r) = ring_pop maxLen (rx_ring s) in (xs, s\<lparr>rx_ring := r\<rparr>))"

definition usb_writeSpace :: "usb \<Rightarrow> u32" where
  "usb_writeSpace s = ring_free (tx_ring s)"

definition usb_write :: "u8 list \<Rightarrow> usb \<Rightarrow> u32 \<times> usb" where
  "usb_write src s = (let (n, r) = ring_push src (tx_ring s) in (n, s\<lparr>tx_ring := r\<rparr>))"

definition usb_txReserve :: "usb \<Rightarrow> nat \<times> u32" where
  "usb_txReserve s = (ring_writePtr (tx_ring s), ring_freeContig (tx_ring s))"

definition usb_txCommit :: "u32 \<Rightarrow> usb \<Rightarrow> usb" where
  "usb_txCommit n s = s\<lparr>tx_ring := ring_writeCommit n (tx_ring s)\<rparr>"

definition usb_lineCodingChanged :: "usb \<Rightarrow> bool \<times> usb" where
  "usb_lineCodingChanged s = (lcChanged s, s\<lparr>lcChanged := False\<rparr>)"

definition usb_sessionStarted :: "usb \<Rightarrow> bool \<times> usb" where
  "usb_sessionStarted s = (session_flag s, s\<lparr>session_flag := False\<rparr>)"

subsection \<open>Control transfers\<close>

text \<open>The SETUP packet in \<open>ep0\<close>: \<open>bRequestType\<close>, \<open>bRequest\<close> and three little-endian words.\<close>

definition setup_word :: "usb \<Rightarrow> nat \<Rightarrow> u16" where
  "setup_word s i = ucast (ep0 s ! i) OR push_bit 8 (ucast (ep0 s ! (i + 1)))"

definition clampEp0 :: "u16 \<Rightarrow> u16" where
  "clampEp0 n = (if n \<ge> ucast kEp0Size then ucast kEp0Size else n)"

text \<open>\<open>if (descr_) memcpy(ep0, descr_, len); if (descr_) descr_ += len;\<close>\<close>

definition stage_descr :: "u16 \<Rightarrow> usb \<Rightarrow> usb option" where
  "stage_descr len s =
    (case descr_ptr s of
       None \<Rightarrow> Some s
     | Some d \<Rightarrow> do {
         buf \<leftarrow> copy_prefix (ep0 s) (Some d) (unat len);
         Some (s\<lparr>ep0 := buf, descr_ptr := Some (drop (unat len) d)\<rparr>) })"

definition class_request :: "sdk \<Rightarrow> usb \<Rightarrow> bool \<times> usb" where
  "class_request K s =
    (let code = setupReqCode s in
     if setupReqType s AND REQ_TYP_CLASS K \<noteq> 0 then
       (if code = GET_LINE_CODING K then (False, s\<lparr>descr_ptr := Some (lcWire s)\<rparr>)
        else if code = SET_LINE_CODING K then (False, s)
        else if code = SET_LINE_CTLSTE K then
          (let nextDtr = (setupValue s AND 0x0001 \<noteq> 0);
               s = (if nextDtr \<and> \<not> dtr s
                    then s\<lparr>rx_ring := ring_clear (rx_ring s), session_flag := True\<rparr> else s)
           in (False, s\<lparr>dtr := nextDtr\<rparr>))
        else if code = SEND_BREAK K then (False, s)
        else (True, s))
     else (True, s))"

text \<open>The table and length of a GET_DESCRIPTOR request, by the two bytes of \<open>wValue\<close>.\<close>

definition descriptor_for :: "sdk \<Rightarrow> u16 \<Rightarrow> (u8 list \<times> u16) option" where
  "descriptor_for K v =
    (let ty = (ucast (drop_bit 8 v) :: u8); ix = (ucast (v AND 0xFF) :: u8) in
     if ty = DESCR_DEVICE K then Some (kDevice, deviceLen)
     else if ty = DESCR_CONFIG K then Some (kConfig, configLen)
     else if ty = DESCR_STRING K then
       (if ix = kStrLang then Some (kLang, ucast (kLang ! 0))
        else if ix = kStrManu then Some (kManufacturer, ucast (kManufacturer ! 0))
        else if ix = kStrProd then Some (kProduct, ucast (kProduct ! 0))
        else if ix = kStrSerial then Some (kSerial, ucast (kSerial ! 0))
        else None)
     else None)"

definition get_descriptor :: "sdk \<Rightarrow> usb \<Rightarrow> (bool \<times> usb) option" where
  "get_descriptor K s =
    (let (err, s, len) = (case descriptor_for K (setupValue s) of
           None \<Rightarrow> (True, s, 0)
         | Some (t, n) \<Rightarrow> (False, s\<lparr>descr_ptr := Some t\<rparr>, n));
         s = (if setupLen s > len then s\<lparr>setupLen := len\<rparr> else s)
     in map_option (\<lambda>s. (err, s)) (stage_descr (clampEp0 (setupLen s)) s))"

text \<open>The three endpoint-halt switches, on the low byte of \<open>wIndex\<close>.\<close>

definition clear_halt :: "sdk \<Rightarrow> u8 \<Rightarrow> usb \<Rightarrow> bool \<times> usb" where
  "clear_halt K ep s =
    (if ep = UEP_IN OR UEP1 then (False, s\<lparr>UEP1_CTRL := T_RES_NAK K\<rparr>)
     else if ep = UEP_OUT OR UEP2 then (False, s\<lparr>UEP2_CTRL := R_RES_ACK K\<rparr>)
     else if ep = UEP_IN OR UEP3 then (False, s\<lparr>UEP3_CTRL := T_RES_NAK K\<rparr>)
     else (True, s))"

definition set_halt :: "sdk \<Rightarrow> u8 \<Rightarrow> usb \<Rightarrow> bool \<times> usb" where
  "set_halt K ep s =
    (if ep = UEP_IN OR UEP1 then
       (False, s\<lparr>UEP1_CTRL := set_field (UEP1_CTRL s) (T_RES_MASK K) (T_RES_STALL K)\<rparr>)
     else if ep = UEP_OUT OR UEP2 then
       (False, s\<lparr>UEP2_CTRL := set_field (UEP2_CTRL s) (R_RES_MASK K) (R_RES_STALL K)\<rparr>)
     else if ep = UEP_IN OR UEP3 then
       (False, s\<lparr>UEP3_CTRL := set_field (UEP3_CTRL s) (T_RES_MASK K) (T_RES_STALL K)\<rparr>)
     else (True, s))"

definition halted :: "sdk \<Rightarrow> u8 \<Rightarrow> usb \<Rightarrow> bool option" where
  "halted K ep s =
    (if ep = UEP_IN OR UEP1 then Some (UEP1_CTRL s AND T_RES_MASK K = T_RES_STALL K)
     else if ep = UEP_OUT OR UEP2 then Some (UEP2_CTRL s AND R_RES_MASK K = R_RES_STALL K)
     else if ep = UEP_IN OR UEP3 then Some (UEP3_CTRL s AND T_RES_MASK K = T_RES_STALL K)
     else None)"

definition clear_feature :: "sdk \<Rightarrow> usb \<Rightarrow> bool \<times> usb" where
  "clear_feature K s =
    (let recip = setupReqType s AND REQ_RECIP_MASK K;
         feat = (ucast (setupValue s AND 0xFF) :: u8); ep = (ucast (setupIndex s AND 0xFF) :: u8) in
     if recip = RECIP_DEVICE K then
       (False, if feat = FEAT_REMOTE_WAKEUP K then s\<lparr>sleepStatus := sleepStatus s AND NOT 0x01\<rparr> else s)
     else if recip = RECIP_ENDP K then
       (if feat = FEAT_ENDP_HALT K then clear_halt K ep s else (True, s))
     else (True, s))"

definition set_feature :: "sdk \<Rightarrow> usb \<Rightarrow> bool \<times> usb" where
  "set_feature K s =
    (let recip = setupReqType s AND REQ_RECIP_MASK K;
         feat = (ucast (setupValue s AND 0xFF) :: u8); ep = (ucast (setupIndex s AND 0xFF) :: u8) in
     if recip = RECIP_DEVICE K then
       (if feat = FEAT_REMOTE_WAKEUP K then
          (if kConfig ! 7 AND 0x20 \<noteq> 0 then (False, s\<lparr>sleepStatus := sleepStatus s OR 0x01\<rparr>)
           else (True, s))
        else (True, s))
     else if recip = RECIP_ENDP K then
       (if feat = FEAT_ENDP_HALT K then set_halt K ep s else (True, s))
     else (True, s))"

text \<open>\<open>if (setupLen_ > k) setupLen_ = k\<close>\<close>

definition limit_len :: "u16 \<Rightarrow> usb \<Rightarrow> usb" where
  "limit_len k s = (if setupLen s > k then s\<lparr>setupLen := k\<rparr> else s)"

definition get_status :: "sdk \<Rightarrow> usb \<Rightarrow> bool \<times> usb" where
  "get_status K s =
    (let s = s\<lparr>ep0 := (ep0 s)[0 := 0x00, 1 := 0x00]\<rparr>;
         recip = setupReqType s AND REQ_RECIP_MASK K; ep = (ucast (setupIndex s AND 0xFF) :: u8);
         (err, s) =
           (if recip = RECIP_DEVICE K then
              (False, if sleepStatus s AND 0x01 \<noteq> 0 then s\<lparr>ep0 := (ep0 s)[0 := 0x02]\<rparr> else s)
            else if recip = RECIP_ENDP K then
              (case halted K ep s of
                 None \<Rightarrow> (True, s)
               | Some h \<Rightarrow> (False, if h then s\<lparr>ep0 := (ep0 s)[0 := 0x01]\<rparr> else s))
            else (True, s))
     in (err, limit_len 2 s))"

definition standard_request :: "sdk \<Rightarrow> usb \<Rightarrow> (bool \<times> usb) option" where
  "standard_request K s =
    (let code = setupReqCode s in
     if code = GET_DESCRIPTOR K then get_descriptor K s
     else if code = SET_ADDRESS K then
       Some (False, s\<lparr>devAddr := ucast (setupValue s AND 0xFF)\<rparr>)
     else if code = GET_CONFIGURATION K then
       Some (False, limit_len 1 (s\<lparr>ep0 := (ep0 s)[0 := devConfig s]\<rparr>))
     else if code = SET_CONFIGURATION K then
       Some (False, s\<lparr>devConfig := ucast (setupValue s AND 0xFF), enumerated := True\<rparr>)
     else if code = CLEAR_FEATURE K then Some (clear_feature K s)
     else if code = SET_FEATURE K then Some (set_feature K s)
     else if code = GET_INTERFACE K then
       Some (False, limit_len 1 (s\<lparr>ep0 := (ep0 s)[0 := 0x00]\<rparr>))
     else if code = SET_INTERFACE K then Some (False, s)
     else if code = GET_STATUS K then Some (get_status K s)
     else Some (True, s))"

text \<open>The end of \<open>handleSetup\<close>: stall, data stage in, or status / data stage out.\<close>

definition setup_reply :: "sdk \<Rightarrow> bool \<Rightarrow> usb \<Rightarrow> usb" where
  "setup_reply K err s =
    (if err then s\<lparr>UEP0_CTRL := T_TOG K OR T_RES_STALL K OR R_TOG K OR R_RES_STALL K\<rparr>
     else if setupReqType s AND UEP_IN \<noteq> 0 then
       (let len = (if setupLen s > ucast kEp0Size then ucast kEp0Size else setupLen s)
        in s\<lparr>setupLen := setupLen s - len, UEP0_TX_LEN := len,
             UEP0_CTRL := set_field (UEP0_CTRL s) (T_RES_MASK K) (T_TOG K OR T_RES_ACK K)\<rparr>)
     else if setupLen s = 0 then
       s\<lparr>UEP0_TX_LEN := 0,
         UEP0_CTRL := set_field (UEP0_CTRL s) (T_RES_MASK K) (T_TOG K OR T_RES_ACK K)\<rparr>
     else s\<lparr>UEP0_CTRL := set_field (UEP0_CTRL s) (R_RES_MASK K) (R_TOG K OR R_RES_ACK K)\<rparr>)"

definition handleSetup :: "sdk \<Rightarrow> usb \<Rightarrow> usb option" where
  "handleSetup K s =
    (let s = s\<lparr>UEP0_CTRL := T_TOG K OR T_RES_NAK K OR R_TOG K OR R_RES_NAK K,
               descr_ptr := None, setupReqType := ep0 s ! 0, setupReqCode := ep0 s ! 1,
               setupLen := setup_word s 6, setupValue := setup_word s 2,
               setupIndex := setup_word s 4\<rparr>
     in do {
       (err, s) \<leftarrow>
         (if setupReqType s AND REQ_TYP_MASK K \<noteq> REQ_TYP_STANDARD K then
            (let (err, s) = class_request K s
             in map_option (\<lambda>s. (err, s)) (stage_descr (clampEp0 (setupLen s)) s))
          else standard_request K s);
       Some (setup_reply K err s) })"

definition handleEp0In :: "sdk \<Rightarrow> usb \<Rightarrow> usb option" where
  "handleEp0In K s =
    (let s = (if setupLen s = 0
              then s\<lparr>UEP0_CTRL := set_field (UEP0_CTRL s) (R_RES_MASK K) (R_TOG K OR R_RES_ACK K)\<rparr>
              else s)
     in if setupReqType s AND REQ_TYP_MASK K = REQ_TYP_STANDARD K then
          (if setupReqCode s = GET_DESCRIPTOR K then
             (let len = clampEp0 (setupLen s) in do {
                buf \<leftarrow> copy_prefix (ep0 s) (descr_ptr s) (unat len);
                Some (s\<lparr>ep0 := buf, setupLen := setupLen s - len,
                        descr_ptr := map_option (drop (unat len)) (descr_ptr s),
                        UEP0_TX_LEN := len, UEP0_CTRL := UEP0_CTRL s XOR T_TOG K\<rparr>) })
           else if setupReqCode s = SET_ADDRESS K then
             Some (s\<lparr>DEV_ADDR := (DEV_ADDR s AND UDA_GP_BIT K) OR devAddr s\<rparr>)
           else Some s)
        else Some s)"

text \<open>The copy loop of SET_LINE_CODING: seven bytes of \<open>ep0\<close>.\<close>

definition handleEp0Out :: "sdk \<Rightarrow> usb \<Rightarrow> usb" where
  "handleEp0Out K s =
    (let s = (if setupReqType s AND REQ_TYP_MASK K \<noteq> REQ_TYP_STANDARD K then
                (let s = (if setupReqCode s = SET_LINE_CODING K
                          then (decodeLineCoding (s\<lparr>lcWire := take 7 (ep0 s)\<rparr>))\<lparr>lcChanged := True\<rparr>
                          else s)
                 in s\<lparr>setupLen := 0\<rparr>)
              else s)
     in if setupLen s = 0
        then s\<lparr>UEP0_TX_LEN := 0,
               UEP0_CTRL := set_field (UEP0_CTRL s) (T_RES_MASK K) (T_TOG K OR T_RES_ACK K)\<rparr>
        else s)"

definition busReset :: "sdk \<Rightarrow> usb \<Rightarrow> usb" where
  "busReset K s = endpointInit K (s
    \<lparr>devConfig := 0, devAddr := 0, sleepStatus := 0, enumerated := False, dtr := False,
     session_flag := True, rx_ring := ring_clear (rx_ring s), tx_ring := ring_clear (tx_ring s),
     DEV_ADDR := 0\<rparr>)"

subsection \<open>Dispatch and main-loop step\<close>

text \<open>The completion of a bulk-IN packet on endpoint 3.\<close>

definition ep3_done :: "sdk \<Rightarrow> usb \<Rightarrow> usb" where
  "ep3_done K s =
    (let s = s\<lparr>UEP3_CTRL := UEP3_CTRL s XOR T_TOG K\<rparr>;
         s = s\<lparr>UEP3_CTRL := set_field (UEP3_CTRL s) (T_RES_MASK K) (T_RES_NAK K)\<rparr>
     in s\<lparr>ep3Busy := False, txPkts := txPkts s + 1\<rparr>)"

definition ep2_received :: "sdk \<Rightarrow> usb \<Rightarrow> usb" where
  "ep2_received K s =
    (let s = s\<lparr>UEP2_CTRL := UEP2_CTRL s XOR R_TOG K\<rparr>;
         n = RX_LEN s;
         s = s\<lparr>rx_ring := snd (ring_push (take (unat n) (ep2 s)) (rx_ring s))\<rparr>
     in if ring_free (rx_ring s) < ucast kPacket
        then s\<lparr>UEP2_CTRL := set_field (UEP2_CTRL s) (R_RES_MASK K) (R_RES_NAK K), ep2Nak := True\<rparr>
        else s)"

definition on_in :: "sdk \<Rightarrow> u8 \<Rightarrow> usb \<Rightarrow> usb option" where
  "on_in K tok s =
    (if tok = TOKEN_IN K OR UEP0 then handleEp0In K s
     else if tok = TOKEN_IN K OR UEP1 then
       (let s = s\<lparr>UEP1_CTRL := UEP1_CTRL s XOR T_TOG K\<rparr>
        in Some (s\<lparr>UEP1_CTRL := set_field (UEP1_CTRL s) (T_RES_MASK K) (T_RES_NAK K)\<rparr>))
     else if tok = TOKEN_IN K OR UEP3 then Some (ep3_done K s)
     else Some s)"

definition on_out :: "sdk \<Rightarrow> u8 \<Rightarrow> u8 \<Rightarrow> usb \<Rightarrow> usb option" where
  "on_out K intst tok s =
    (if tok = TOKEN_OUT K OR UEP0 then
       Some (if intst AND TOG_OK K \<noteq> 0 then handleEp0Out K s else s)
     else if tok = TOKEN_OUT K OR UEP2 then Some (ep2_received K s)
     else Some s)"

definition onIrq :: "sdk \<Rightarrow> usb \<Rightarrow> usb option" where
  "onIrq K s =
    (let intflag = INT_FG s; intst = INT_ST s;
         tok = intst AND (UIS_TOKEN_MASK K OR UIS_ENDP_MASK K) in
     if intflag AND UIF_TRANSFER K \<noteq> 0 then do {
       s \<leftarrow> (if intst AND UIS_TOKEN_MASK K = TOKEN_IN K then on_in K tok s
            else if intst AND UIS_TOKEN_MASK K = TOKEN_OUT K then on_out K intst tok s
            else if intst AND UIS_TOKEN_MASK K = TOKEN_SETUP K then handleSetup K s
            else Some s);
       Some (s\<lparr>INT_FG := INT_FG s AND NOT (UIF_TRANSFER K)\<rparr>) }
     else if intflag AND UIF_BUS_RST K \<noteq> 0 then
       (let s = busReset K s in Some (s\<lparr>INT_FG := INT_FG s AND NOT (UIF_BUS_RST K)\<rparr>))
     else if intflag AND UIF_SUSPEND K \<noteq> 0 then
       (let s = s\<lparr>INT_FG := INT_FG s AND NOT (UIF_SUSPEND K)\<rparr>
        in Some (if MIS_ST s AND UMS_SUSPEND K \<noteq> 0 then s\<lparr>sleepStatus := sleepStatus s OR 0x02\<rparr>
                 else s\<lparr>sleepStatus := sleepStatus s AND NOT 0x02\<rparr>))
     else Some (s\<lparr>INT_FG := INT_FG s AND NOT intflag\<rparr>))"

text \<open>The part of \<open>tick\<close> after the poll: reopen bulk OUT, coalesce bulk IN.\<close>

definition tick_rx :: "sdk \<Rightarrow> usb \<Rightarrow> usb" where
  "tick_rx K s =
    (if ep2Nak s \<and> ring_free (rx_ring s) \<ge> ucast kPacket
     then s\<lparr>UEP2_CTRL := set_field (UEP2_CTRL s) (R_RES_MASK K) (R_RES_ACK K), ep2Nak := False\<rparr>
     else s)"

definition tick_tx :: "sdk \<Rightarrow> u32 \<Rightarrow> usb \<Rightarrow> usb" where
  "tick_tx K nowMs s =
    (if ep3Busy s then s
     else
      let n = ring_size (tx_ring s) in
      if n \<ge> ucast kPacket then snd (armEp3FromTx K False (s\<lparr>partialPending := False\<rparr>))
      else if n \<noteq> 0 then
        (let s = (if \<not> partialPending s then s\<lparr>partialPending := True, partialSinceMs := nowMs\<rparr> else s)
         in if nowMs - partialSinceMs s \<ge> kPartialFlushMs
            then snd (armEp3FromTx K True (s\<lparr>partialPending := False\<rparr>)) else s)
      else s\<lparr>partialPending := False\<rparr>)"

definition usb_tick :: "sdk \<Rightarrow> u32 \<Rightarrow> usb \<Rightarrow> usb option" where
  "usb_tick K nowMs s = do {
     s \<leftarrow> (if INT_FG s AND (UIF_TRANSFER K OR UIF_BUS_RST K OR UIF_SUSPEND K) \<noteq> 0
          then onIrq K s else Some s);
     Some (tick_tx K nowMs (tick_rx K s)) }"

definition pump :: "sdk \<Rightarrow> usb \<Rightarrow> usb option" where
  "pump K s =
    (if INT_FG s AND UIF_TRANSFER K = 0 then Some s
     else if INT_ST s AND (UIS_TOKEN_MASK K OR UIS_ENDP_MASK K) \<noteq> TOKEN_IN K OR UEP3 then onIrq K s
     else
      let s = ep3_done K s;
          s = s\<lparr>INT_FG := INT_FG s AND NOT (UIF_TRANSFER K)\<rparr>;
          (armed, s) = armEp3FromTx K False s
      in Some (if armed then s\<lparr>partialPending := False\<rparr> else s))"

end
