(* ===== verification/UsbTx.thy ===== *)
theory UsbTx
  imports UsbCdc
begin

text \<open>
  The bulk-IN stream of the USB device: whatever the sequence of writes, ticks, pumps and hardware
  events, the packets handed to endpoint 3 are the written bytes, in order.
\<close>

subsection \<open>Bulk IN: the stream to the host\<close>

text \<open>The buffers have the sizes the class declares, and the rings are well formed.\<close>

definition usb_ok :: "usb \<Rightarrow> bool" where
  "usb_ok s \<longleftrightarrow> length (ep0 s) = 64 \<and> length (ep2 s) = 64 \<and> length (ep3 s) = 64
     \<and> length (lcWire s) = 7
     \<and> ring_wf (rx_ring s) \<and> ring_len (rx_ring s) = kRxCapacity
     \<and> ring_wf (tx_ring s) \<and> ring_len (tx_ring s) = kTxCapacity"

text \<open>What the transmit path sees of a state.\<close>

definition tx_view :: "usb \<Rightarrow> u8 ring \<times> u8 list list \<times> u8 list" where
  "tx_view s = (tx_ring s, ep3_log s, ep3 s)"

lemma ring_wf_clear [simp]: "ring_wf r \<Longrightarrow> ring_wf (ring_clear r)" "ring_len (ring_clear r) = ring_len r"
  by (auto simp: ring_wf_def ring_fits_def ring_clear_def ring_size_def)

lemma ring_clear_list [simp]: "ring_list (ring_clear r) = []"
  by (simp add: ring_list_def ring_clear_def ring_size_def)

lemma ring_pop_len [simp]: "ring_len (snd (ring_pop n r)) = ring_len r"
  by (simp add: ring_pop_def Let_def)

lemma ring_push_len [simp]: "ring_len (snd (ring_push xs r)) = ring_len r"
  by (simp add: ring_push_def Let_def)

lemma kPacket_u32: "(ucast kPacket :: u32) = 64"
  by (simp add: kPacket_def)

text \<open>One packet moved from the ring to the endpoint: the next bytes, in order, at most 64.\<close>

lemma armEp3FromTx_spec:
  assumes "ring_wf (tx_ring s)" "length (ep3 s) = 64" "armEp3FromTx K short s = (ok, s')"
  defines "n \<equiv> min 64 (length (ring_list (tx_ring s)))"
  shows "\<not> ok \<Longrightarrow> s' = s"
    and "ok \<Longrightarrow> 0 < n \<and> (\<not> short \<longrightarrow> n = 64) \<and> ep3Busy s'
         \<and> ep3_log s' = ep3_log s @ [take n (ring_list (tx_ring s))]
         \<and> ring_list (tx_ring s') = drop n (ring_list (tx_ring s))
         \<and> ring_wf (tx_ring s') \<and> ring_len (tx_ring s') = ring_len (tx_ring s)
         \<and> length (ep3 s') = 64 \<and> rx_ring s' = rx_ring s \<and> ep0 s' = ep0 s \<and> ep2 s' = ep2 s
         \<and> lcWire s' = lcWire s \<and> INT_FG s' = INT_FG s \<and> UEP2_CTRL s' = UEP2_CTRL s
         \<and> ep2Nak s' = ep2Nak s"
proof -
  let ?size = "ring_size (tx_ring s)"
  let ?n = "if ?size > 64 then 64 else ?size"
  show "\<not> ok \<Longrightarrow> s' = s"
    using assms(3) by (auto simp: armEp3FromTx_def Let_def split: if_splits prod.splits)
  assume ok: "ok"
  have n: "unat ?n = n" by (auto simp: n_def word_less_nat_alt min_def)
  obtain data tx where pop: "ring_pop ?n (tx_ring s) = (data, tx)" by fastforce
  have data: "data = take n (ring_list (tx_ring s))" "ring_list tx = drop n (ring_list (tx_ring s))"
    "ring_wf tx" "ring_len tx = ring_len (tx_ring s)"
    using ring_pop_list [where len = ?n and r = "tx_ring s"] ring_pop_len [of ?n "tx_ring s"] assms(1) n pop
    by simp_all
  have len: "length data = n" by (simp add: data(1) n_def)
  have pos: "?size \<noteq> 0" "short \<or> \<not> ?size < 64"
    using ok assms(3) by (auto simp: armEp3FromTx_def Let_def kPacket_u32 split: if_splits prod.splits)
  then have "0 < n" by (simp add: n_def unat_gt_0)
  moreover have "\<not> short \<longrightarrow> n = 64" using pos(2) by (auto simp: n_def word_less_nat_alt)
  moreover have "unat (ucast ?n :: u16) = n"
    using n by (simp add: unsigned_ucast_eq take_bit_nat_eq_self n_def)
  moreover have "s' = armEp3 K (ucast ?n)
     ((if ?n = 64 then (\<lambda>s. s\<lparr>fullPkts := fullPkts s + 1\<rparr>) else (\<lambda>s. s\<lparr>shortPkts := shortPkts s + 1\<rparr>))
       (s\<lparr>ep3 := data @ drop (length data) (ep3 s), tx_ring := tx, txBytes := txBytes s + ?n\<rparr>))"
    using assms(3) pos pop by (auto simp: armEp3FromTx_def Let_def kPacket_u32 split: if_splits)
  moreover have "n \<le> 64" by (simp add: n_def)
  ultimately show "0 < n \<and> (\<not> short \<longrightarrow> n = 64) \<and> ep3Busy s'
         \<and> ep3_log s' = ep3_log s @ [take n (ring_list (tx_ring s))]
         \<and> ring_list (tx_ring s') = drop n (ring_list (tx_ring s))
         \<and> ring_wf (tx_ring s') \<and> ring_len (tx_ring s') = ring_len (tx_ring s)
         \<and> length (ep3 s') = 64 \<and> rx_ring s' = rx_ring s \<and> ep0 s' = ep0 s \<and> ep2 s' = ep2 s
         \<and> lcWire s' = lcWire s \<and> INT_FG s' = INT_FG s \<and> UEP2_CTRL s' = UEP2_CTRL s
         \<and> ep2Nak s' = ep2Nak s"
    using data len assms(2) by (simp add: armEp3_def)
qed

text \<open>Everything but the transmit path leaves it alone, and keeps the buffer sizes.\<close>

definition tx_keep :: "usb \<Rightarrow> usb \<Rightarrow> bool" where
  "tx_keep s s' \<longleftrightarrow> tx_ring s' = tx_ring s \<and> ep3_log s' = ep3_log s \<and> ep3 s' = ep3 s
     \<and> ep3Busy s' = ep3Busy s \<and> INT_FG s' = INT_FG s \<and> (usb_ok s \<longrightarrow> usb_ok s')"

lemma tx_keep_refl [simp]: "tx_keep s s"
  by (simp add: tx_keep_def)

lemma tx_keep_trans: "tx_keep s t \<Longrightarrow> tx_keep t u \<Longrightarrow> tx_keep s u"
  by (simp add: tx_keep_def)

lemma stage_descr_keep: "stage_descr n s = Some s' \<Longrightarrow> tx_keep s s'"
  by (auto simp: stage_descr_def copy_prefix_def tx_keep_def usb_ok_def
      split: option.splits if_splits Option.bind_splits)

lemma class_request_keep: "class_request K s = (e, s') \<Longrightarrow> tx_keep s s'"
  by (auto simp: class_request_def Let_def tx_keep_def usb_ok_def split: if_splits)

lemma get_descriptor_keep:
  assumes "get_descriptor K s = Some (e, s')"
  shows "tx_keep s s'"
proof -
  obtain t where t: "stage_descr (clampEp0 (setupLen t)) t = Some s'" "tx_keep s t"
  proof (cases "descriptor_for K (setupValue s)")
    case None
    then show ?thesis
      using assms that [of "if setupLen s > 0 then s\<lparr>setupLen := 0\<rparr> else s"]
      by (auto simp: get_descriptor_def Let_def tx_keep_def usb_ok_def)
  next
    case (Some d)
    obtain tab n where d: "d = (tab, n)" by fastforce
    let ?s = "s\<lparr>descr_ptr := Some tab\<rparr>"
    show ?thesis
      using assms Some d that [of "if setupLen ?s > n then ?s\<lparr>setupLen := n\<rparr> else ?s"]
      by (auto simp: get_descriptor_def Let_def tx_keep_def usb_ok_def)
  qed
  then show ?thesis using stage_descr_keep tx_keep_trans by blast
qed

lemma feature_keep:
  "clear_feature K s = (e, s') \<Longrightarrow> tx_keep s s'" "set_feature K s = (e, s') \<Longrightarrow> tx_keep s s'"
  by (auto simp: clear_feature_def set_feature_def clear_halt_def set_halt_def Let_def tx_keep_def
      usb_ok_def split: if_splits)

lemma get_status_keep: "get_status K s = (e, s') \<Longrightarrow> tx_keep s s'"
  by (auto simp: get_status_def limit_len_def Let_def tx_keep_def usb_ok_def
      split: if_splits option.splits)

lemma standard_request_keep:
  assumes "standard_request K s = Some (e, s')"
  shows "tx_keep s s'"
proof -
  have simple: "tx_keep s (s\<lparr>devAddr := a\<rparr>)" "tx_keep s (limit_len 1 (s\<lparr>ep0 := (ep0 s)[0 := b]\<rparr>))"
    "tx_keep s (s\<lparr>devConfig := c, enumerated := True\<rparr>)" for a b c
    by (auto simp: tx_keep_def usb_ok_def limit_len_def)
  show ?thesis
    using assms get_descriptor_keep [of K s e s'] feature_keep [of K s e s'] get_status_keep [of K s e s']
    unfolding standard_request_def Let_def
    by (auto simp: simple split: if_splits)
qed

lemma setup_reply_keep: "tx_keep s (setup_reply K e s)"
  by (simp add: setup_reply_def Let_def tx_keep_def usb_ok_def)

lemma handleSetup_keep:
  assumes "handleSetup K s = Some s'"
  shows "tx_keep s s'"
proof -
  let ?s = "s\<lparr>UEP0_CTRL := T_TOG K OR T_RES_NAK K OR R_TOG K OR R_RES_NAK K,
               descr_ptr := None, setupReqType := ep0 s ! 0, setupReqCode := ep0 s ! 1,
               setupLen := setup_word s 6, setupValue := setup_word s 2,
               setupIndex := setup_word s 4\<rparr>"
  have start: "tx_keep s ?s" by (simp add: tx_keep_def usb_ok_def)
  obtain e t where t: "s' = setup_reply K e t" "tx_keep ?s t"
  proof (cases "setupReqType ?s AND REQ_TYP_MASK K = REQ_TYP_STANDARD K")
    case True
    then show ?thesis
      using assms that standard_request_keep unfolding handleSetup_def Let_def
      by (auto split: Option.bind_splits)
  next
    case False
    obtain e t where c: "class_request K ?s = (e, t)" by fastforce
    then show ?thesis
      using assms False that stage_descr_keep tx_keep_trans [OF class_request_keep [OF c]]
      unfolding handleSetup_def Let_def by (auto split: Option.bind_splits)
  qed
  then show ?thesis using start setup_reply_keep tx_keep_trans by blast
qed

lemma handleEp0In_keep:
  assumes "handleEp0In K s = Some s'"
  shows "tx_keep s s'"
  using assms
  by (auto simp: handleEp0In_def Let_def copy_prefix_def tx_keep_def usb_ok_def
      split: if_splits Option.bind_splits option.splits)

lemma handleEp0Out_keep: "tx_keep s (handleEp0Out K s)"
  by (auto simp: handleEp0Out_def decodeLineCoding_def Let_def tx_keep_def usb_ok_def)

lemma ep2_received_keep:
  "tx_keep s (ep2_received K s)"
  using ring_push_list(3) [of "rx_ring s" "take (unat (RX_LEN s)) (ep2 s)"]
  by (auto simp: ep2_received_def Let_def tx_keep_def usb_ok_def)

text \<open>
  One call, as the transmit path sees it: the ring and the log are as they were, or one packet of
  1 to 64 bytes went from the front of the ring to the endpoint; or a bus reset emptied the ring.
\<close>

definition tx_moves :: "usb \<Rightarrow> usb \<Rightarrow> bool" where
  "tx_moves s s' \<longleftrightarrow> (tx_ring s' = tx_ring s \<and> ep3_log s' = ep3_log s)
     \<or> (\<exists>p. p \<noteq> [] \<and> length p \<le> 64 \<and> ep3_log s' = ep3_log s @ [p]
          \<and> ring_list (tx_ring s) = p @ ring_list (tx_ring s'))"

definition clears :: "u8 \<Rightarrow> u8 \<Rightarrow> bool" where
  "clears a b \<longleftrightarrow> (\<forall>k. a AND k = 0 \<longrightarrow> b AND k = 0)"

lemma clears_and [simp]: "clears a (a AND m)"
proof -
  have "(a AND m) AND k = (a AND k) AND m" for k by (simp add: ac_simps)
  then show ?thesis by (simp add: clears_def)
qed

lemma clears_refl [simp]: "clears a a"
  by (simp add: clears_def)

lemma clears_0 [simp]: "clears a 0"
  by (simp add: clears_def)

lemma clears_trans: "clears a b \<Longrightarrow> clears b c \<Longrightarrow> clears a c"
  by (simp add: clears_def)

lemma clears_D: "clears a b \<Longrightarrow> a AND k = 0 \<Longrightarrow> b AND k = 0"
  by (simp add: clears_def)

lemma on_in_keep:
  assumes "on_in K tok s = Some s'"
  shows "tx_keep s s' \<or> s' = ep3_done K s"
  using assms handleEp0In_keep
  by (auto simp: on_in_def Let_def split: if_splits) (auto simp: tx_keep_def usb_ok_def)

lemma on_out_keep:
  assumes "on_out K st tok s = Some s'"
  shows "tx_keep s s'"
  using assms handleEp0Out_keep ep2_received_keep by (auto simp: on_out_def split: if_splits)

lemma ep3_done_fields:
  "tx_ring (ep3_done K s) = tx_ring s" "ep3_log (ep3_done K s) = ep3_log s" "ep3 (ep3_done K s) = ep3 s"
  "INT_FG (ep3_done K s) = INT_FG s" "usb_ok (ep3_done K s) = usb_ok s"
  "rx_ring (ep3_done K s) = rx_ring s" "\<not> ep3Busy (ep3_done K s)"
  by (simp_all add: ep3_done_def Let_def usb_ok_def)

lemma onIrq_tx:
  assumes "onIrq K s = Some s'"
  shows "usb_ok s \<longrightarrow> usb_ok s'" and "clears (INT_FG s) (INT_FG s')"
    and "INT_FG s AND UIF_BUS_RST K = 0 \<Longrightarrow> tx_ring s' = tx_ring s \<and> ep3_log s' = ep3_log s"
proof -
  consider (transfer) t where "s' = t\<lparr>INT_FG := INT_FG t AND NOT (UIF_TRANSFER K)\<rparr>"
      "tx_keep s t \<or> t = ep3_done K s"
    | (reset) "s' = (busReset K s)\<lparr>INT_FG := INT_FG (busReset K s) AND NOT (UIF_BUS_RST K)\<rparr>"
      "INT_FG s AND UIF_BUS_RST K \<noteq> 0"
    | (other) a p where "s' = s\<lparr>INT_FG := a, sleepStatus := p\<rparr>" "clears (INT_FG s) a"
  proof (cases "INT_FG s AND UIF_TRANSFER K = 0")
    case True
    show ?thesis
    proof (cases "INT_FG s AND UIF_BUS_RST K = 0")
      case no: True
      define q where "q = (if INT_FG s AND UIF_SUSPEND K = 0 then sleepStatus s
          else if MIS_ST s AND UMS_SUSPEND K \<noteq> 0 then sleepStatus s OR 0x02 else sleepStatus s AND NOT 0x02)"
      define a where "a = (if INT_FG s AND UIF_SUSPEND K = 0 then INT_FG s AND NOT (INT_FG s)
          else INT_FG s AND NOT (UIF_SUSPEND K))"
      have "s' = s\<lparr>INT_FG := a, sleepStatus := q\<rparr>"
        using assms True no by (simp add: onIrq_def Let_def a_def q_def split: if_splits)
      moreover have "clears (INT_FG s) a" by (simp add: a_def)
      ultimately show ?thesis by (rule that(3))
    next
      case False
      then show ?thesis using assms True that(2) by (auto simp: onIrq_def Let_def)
    qed
  next
    case False
    then show ?thesis
      using assms that(1) [of s] that(1) on_in_keep on_out_keep handleSetup_keep unfolding onIrq_def Let_def
      by (auto split: Option.bind_splits if_splits)
  qed
  then have "(usb_ok s \<longrightarrow> usb_ok s') \<and> clears (INT_FG s) (INT_FG s') \<and>
    (INT_FG s AND UIF_BUS_RST K = 0 \<longrightarrow> tx_ring s' = tx_ring s \<and> ep3_log s' = ep3_log s)"
  proof cases
    case transfer
    have "usb_ok (t\<lparr>INT_FG := x\<rparr>) = usb_ok t" for x by (simp add: usb_ok_def)
    then show ?thesis using transfer ep3_done_fields [of K s] by (auto simp: tx_keep_def)
  next
    case reset
    then show ?thesis by (auto simp: busReset_def endpointInit_def usb_ok_def)
  next
    case other
    then show ?thesis by (auto simp: usb_ok_def)
  qed
  then show "usb_ok s \<longrightarrow> usb_ok s'" "clears (INT_FG s) (INT_FG s')"
    "INT_FG s AND UIF_BUS_RST K = 0 \<Longrightarrow> tx_ring s' = tx_ring s \<and> ep3_log s' = ep3_log s" by blast+
qed

lemma arm_moves:
  assumes "usb_ok s" "armEp3FromTx K short s = (ok, s')"
  shows "usb_ok s'" "tx_moves s s'" "INT_FG s' = INT_FG s"
proof -
  let ?l = "ring_list (tx_ring s)" and ?n = "min 64 (length (ring_list (tx_ring s)))"
  have ok: "ring_wf (tx_ring s)" "length (ep3 s) = 64" using assms(1) by (simp_all add: usb_ok_def)
  note spec = armEp3FromTx_spec [OF ok assms(2)]
  show "usb_ok s'" "INT_FG s' = INT_FG s" using spec assms(1) by (cases ok; simp add: usb_ok_def)+
  show "tx_moves s s'"
  proof (cases ok)
    case True
    then have "0 < ?n" using spec(2) by simp
    then have ne: "take ?n ?l \<noteq> []" by (cases ?l) (simp_all del: ring_list_length)
    then show ?thesis
      unfolding tx_moves_def using spec(2) [OF True] ne
      by (intro disjI2 exI [of _ "take ?n ?l"]) (auto simp del: ring_list_length)
  qed (use spec in \<open>simp add: tx_moves_def\<close>)
qed

lemma tick_rx_keep: "tx_keep s (tick_rx K s)"
  by (simp add: tick_rx_def tx_keep_def usb_ok_def)

lemma tx_moves_same: "tx_ring t = tx_ring s \<Longrightarrow> ep3_log t = ep3_log s \<Longrightarrow> tx_moves t u \<Longrightarrow> tx_moves s u"
  by (simp add: tx_moves_def)

lemma tx_moves_refl: "tx_ring t = tx_ring s \<Longrightarrow> ep3_log t = ep3_log s \<Longrightarrow> tx_moves s t"
  by (simp add: tx_moves_def)

lemma tick_tx_moves:
  assumes "usb_ok s"
  shows "usb_ok (tick_tx K now s)" "tx_moves s (tick_tx K now s)" "INT_FG (tick_tx K now s) = INT_FG s"
proof -
  let ?p = "s\<lparr>partialPending := False\<rparr>"
    and ?h = "if \<not> partialPending s then s\<lparr>partialPending := True, partialSinceMs := now\<rparr> else s"
  let ?q = "?h\<lparr>partialPending := False\<rparr>"
  have ok: "usb_ok ?p" "usb_ok ?h" "usb_ok ?q" using assms by (simp_all add: usb_ok_def)
  have "tick_tx K now s \<in> {s, ?p, ?h} \<or> tick_tx K now s = snd (armEp3FromTx K False ?p)
    \<or> tick_tx K now s = snd (armEp3FromTx K True ?q)"
    by (simp add: tick_tx_def Let_def)
  then consider "tick_tx K now s \<in> {s, ?p, ?h}" | "tick_tx K now s = snd (armEp3FromTx K False ?p)"
    | "tick_tx K now s = snd (armEp3FromTx K True ?q)"
    by blast
  then have "usb_ok (tick_tx K now s) \<and> tx_moves s (tick_tx K now s) \<and> INT_FG (tick_tx K now s) = INT_FG s"
  proof cases
    case 1
    then show ?thesis using assms ok by (auto simp: tx_moves_def)
  next
    case 2
    then show ?thesis
      using arm_moves [OF ok(1), of K False] tx_moves_same [of ?p s]
      by (cases "armEp3FromTx K False ?p") simp
  next
    case 3
    then show ?thesis
      using arm_moves [OF ok(3), of K True] tx_moves_same [of ?q s]
      by (cases "armEp3FromTx K True ?q") simp
  qed
  then show "usb_ok (tick_tx K now s)" "tx_moves s (tick_tx K now s)"
    "INT_FG (tick_tx K now s) = INT_FG s" by blast+
qed

lemma usb_tick_moves:
  assumes "usb_ok s" "usb_tick K now s = Some s'"
  shows "usb_ok s'" "clears (INT_FG s) (INT_FG s')"
    and "INT_FG s AND UIF_BUS_RST K = 0 \<Longrightarrow> tx_moves s s'"
proof -
  obtain t where t: "s' = tick_tx K now (tick_rx K t)" "t = s \<or> onIrq K s = Some t"
    using assms(2) by (auto simp: usb_tick_def split: Option.bind_splits if_splits)
  have irq: "usb_ok t" "clears (INT_FG s) (INT_FG t)"
    "INT_FG s AND UIF_BUS_RST K = 0 \<Longrightarrow> tx_ring t = tx_ring s \<and> ep3_log t = ep3_log s"
    using t(2) assms(1) onIrq_tx [of K s t] by auto
  let ?r = "tick_rx K t"
  have r: "usb_ok ?r" "tx_ring ?r = tx_ring t" "ep3_log ?r = ep3_log t" "INT_FG ?r = INT_FG t"
    using tick_rx_keep [of t K] irq(1) by (simp_all add: tx_keep_def)
  note x = tick_tx_moves [OF r(1), of K now]
  show "usb_ok s'" "clears (INT_FG s) (INT_FG s')" using x irq(2) r(4) by (simp_all add: t(1))
  show "tx_moves s s'" if "INT_FG s AND UIF_BUS_RST K = 0"
    using x(2) irq(3) [OF that] r(2,3) tx_moves_same [of ?r s s'] by (simp add: t(1))
qed

lemma pump_moves:
  assumes "usb_ok s" "pump K s = Some s'"
  shows "usb_ok s'" "clears (INT_FG s) (INT_FG s')"
    and "INT_FG s AND UIF_BUS_RST K = 0 \<Longrightarrow> tx_moves s s'"
proof -
  let ?d = "(ep3_done K s)\<lparr>INT_FG := INT_FG (ep3_done K s) AND NOT (UIF_TRANSFER K)\<rparr>"
  have d: "usb_ok ?d" "tx_ring ?d = tx_ring s" "ep3_log ?d = ep3_log s"
    using assms(1) ep3_done_fields [of K s] by (simp_all add: usb_ok_def)
  obtain ok u where a: "armEp3FromTx K False ?d = (ok, u)" by fastforce
  note arm = arm_moves [OF d(1) a]
  have moves: "tx_moves s (u\<lparr>partialPending := b\<rparr>)" "tx_moves s u" for b
    using arm(2) d(2,3) by (simp_all add: tx_moves_def)
  have "s' = s \<or> onIrq K s = Some s' \<or> s' = u\<lparr>partialPending := False\<rparr> \<or> s' = u"
    using assms(2) a unfolding pump_def by (simp add: Let_def split: if_splits)
  then consider "s' = s" | "onIrq K s = Some s'" | "s' = u\<lparr>partialPending := False\<rparr>" | "s' = u"
    by blast
  then have "usb_ok s' \<and> clears (INT_FG s) (INT_FG s')
      \<and> (INT_FG s AND UIF_BUS_RST K = 0 \<longrightarrow> tx_moves s s')"
  proof cases
    case 1
    then show ?thesis using assms(1) by (simp add: tx_moves_def)
  next
    case 2
    then show ?thesis using onIrq_tx [OF 2] assms(1) by (simp add: tx_moves_def)
  next
    case 3
    moreover have "usb_ok (u\<lparr>partialPending := False\<rparr>)" using arm(1) by (simp add: usb_ok_def)
    ultimately show ?thesis using arm(3) moves ep3_done_fields(4) [of K s] by simp
  next
    case 4
    then show ?thesis using arm(1,3) moves ep3_done_fields(4) [of K s] by simp
  qed
  then show "usb_ok s'" "clears (INT_FG s) (INT_FG s')"
    "INT_FG s AND UIF_BUS_RST K = 0 \<Longrightarrow> tx_moves s s'" by blast+
qed

text \<open>
  Sequences of calls, and of hardware events that load the volatile registers and the buffers the
  peripheral writes. \<open>usb_run\<close> collects the bytes that \<open>write\<close> accepted.
\<close>

datatype usb_op =
    UsbWrite "u8 list"
  | UsbRead u32
  | UsbTick u32
  | UsbPump
  | UsbHw u8 u8 u16 u8 "u8 list" "u8 list"

fun usb_step :: "sdk \<Rightarrow> usb_op \<Rightarrow> usb \<Rightarrow> (u8 list \<times> usb) option" where
  "usb_step K (UsbWrite xs) s = (let (n, s') = usb_write xs s in Some (take (unat n) xs, s'))"
| "usb_step K (UsbRead n) s = Some ([], snd (usb_read n s))"
| "usb_step K (UsbTick now) s = map_option (Pair []) (usb_tick K now s)"
| "usb_step K UsbPump s = map_option (Pair []) (pump K s)"
| "usb_step K (UsbHw fg st n mis e0 e2) s =
     Some ([], s\<lparr>INT_FG := fg, INT_ST := st, RX_LEN := n, MIS_ST := mis,
       ep0 := take 64 (e0 @ drop (length e0) (ep0 s)), ep2 := take 64 (e2 @ drop (length e2) (ep2 s))\<rparr>)"

fun usb_run :: "sdk \<Rightarrow> usb_op list \<Rightarrow> usb \<Rightarrow> (u8 list \<times> usb) option" where
  "usb_run K [] s = Some ([], s)"
| "usb_run K (op # ops) s = do {
     (acc, s) \<leftarrow> usb_step K op s;
     (acc', s) \<leftarrow> usb_run K ops s;
     Some (acc @ acc', s) }"

text \<open>No bus reset is signalled.\<close>

fun no_reset :: "sdk \<Rightarrow> usb_op \<Rightarrow> bool" where
  "no_reset K (UsbHw fg st n mis e0 e2) = (fg AND UIF_BUS_RST K = 0)"
| "no_reset K op = True"

lemma usb_step_stream:
  assumes "usb_ok s" "usb_step K op s = Some (acc, s')" "no_reset K op" "INT_FG s AND UIF_BUS_RST K = 0"
  shows "usb_ok s' \<and> INT_FG s' AND UIF_BUS_RST K = 0
    \<and> concat (ep3_log s') @ ring_list (tx_ring s') = concat (ep3_log s) @ ring_list (tx_ring s) @ acc
    \<and> (list_all (\<lambda>p. p \<noteq> [] \<and> length p \<le> 64) (ep3_log s) \<longrightarrow>
        list_all (\<lambda>p. p \<noteq> [] \<and> length p \<le> 64) (ep3_log s'))"
proof -
  have moved: "concat (ep3_log s') @ ring_list (tx_ring s') = concat (ep3_log s) @ ring_list (tx_ring s)
    \<and> (list_all (\<lambda>p. p \<noteq> [] \<and> length p \<le> 64) (ep3_log s) \<longrightarrow>
        list_all (\<lambda>p. p \<noteq> [] \<and> length p \<le> 64) (ep3_log s'))" if "tx_moves s s'"
    using that by (auto simp: tx_moves_def)
  show ?thesis
  proof (cases op)
    case (UsbWrite xs)
    have wf: "ring_wf (tx_ring s) \<or> ring_lin (tx_ring s)" using assms(1) by (simp add: usb_ok_def)
    obtain n r where p: "ring_push xs (tx_ring s) = (n, r)" by fastforce
    then have s': "s' = s\<lparr>tx_ring := r\<rparr>" "acc = take (unat n) xs"
      using assms(2) UsbWrite by (auto simp: usb_write_def)
    have "ring_list r = ring_list (tx_ring s) @ acc" "ring_wf r" "ring_len r = ring_len (tx_ring s)"
      using ring_push_list(1) [OF wf, of xs] ring_push_list(3) [OF wf, of xs]
        ring_push_len [of xs "tx_ring s"] assms(1) p s'(2)
      by (simp_all add: usb_ok_def)
    then show ?thesis using assms(1,4) by (simp add: s' usb_ok_def)
  next
    case (UsbRead n)
    then have "s' = s\<lparr>rx_ring := snd (ring_pop n (rx_ring s))\<rparr>" "acc = []"
      using assms(2) by (auto simp: usb_read_def split: prod.splits)
    then show ?thesis
      using assms(1,4) ring_pop_list(3) [of "rx_ring s" n] by (simp add: usb_ok_def)
  next
    case (UsbTick now)
    then have t: "usb_tick K now s = Some s'" "acc = []" using assms(2) by auto
    show ?thesis
      using usb_tick_moves [OF assms(1) t(1)] moved assms(4) t(2) clears_D by auto
  next
    case UsbPump
    then have t: "pump K s = Some s'" "acc = []" using assms(2) by auto
    show ?thesis
      using pump_moves [OF assms(1) t(1)] moved assms(4) t(2) clears_D by auto
  next
    case (UsbHw fg st n mis e0 e2)
    then show ?thesis using assms by (auto simp: usb_ok_def)
  qed
qed

lemma usb_run_stream:
  assumes "usb_ok s" "usb_run K ops s = Some (acc, s')" "list_all (no_reset K) ops"
    "INT_FG s AND UIF_BUS_RST K = 0"
  shows "concat (ep3_log s') @ ring_list (tx_ring s') = concat (ep3_log s) @ ring_list (tx_ring s) @ acc
    \<and> (list_all (\<lambda>p. p \<noteq> [] \<and> length p \<le> 64) (ep3_log s) \<longrightarrow>
        list_all (\<lambda>p. p \<noteq> [] \<and> length p \<le> 64) (ep3_log s'))"
  using assms
proof (induction ops arbitrary: s acc)
  case (Cons op ops)
  obtain a t b where st: "usb_step K op s = Some (a, t)" "usb_run K ops t = Some (b, s')" "acc = a @ b"
    using Cons.prems(2) by (auto split: Option.bind_splits)
  have r: "no_reset K op" "list_all (no_reset K) ops" using Cons.prems(3) by simp_all
  note step = usb_step_stream [OF Cons.prems(1) st(1) r(1) Cons.prems(4)]
  show ?case using Cons.IH [OF _ st(2) r(2)] step st(3) by auto
qed simp

subsection \<open>The vendor values of a concrete part\<close>

text \<open>
  The register layout of the part the firmware runs on and the request codes of the USB 2.0 and CDC
  specifications, for the witnesses.
\<close>

definition wch :: sdk where
  "wch =
    \<lparr>T_TOG = 0x40, R_TOG = 0x80, T_RES_MASK = 0x03, T_RES_ACK = 0, T_RES_NAK = 0x02,
     T_RES_STALL = 0x03, R_RES_MASK = 0x0C, R_RES_ACK = 0, R_RES_NAK = 0x08, R_RES_STALL = 0x0C,
     UEP1_TX_EN = 0x40, UEP2_RX_EN = 0x08, UEP3_TX_EN = 0x40,
     UIF_TRANSFER = 0x02, UIF_BUS_RST = 0x01, UIF_SUSPEND = 0x04,
     UIS_TOKEN_MASK = 0x30, UIS_ENDP_MASK = 0x0F, TOKEN_IN = 0x20, TOKEN_OUT = 0x00,
     TOKEN_SETUP = 0x30, TOG_OK = 0x40, UMS_SUSPEND = 0x04, UDA_GP_BIT = 0x80,
     UC_START = 0x29, UD_START = 0x81, UIE_START = 0x07,
     REQ_TYP_MASK = 0x60, REQ_TYP_STANDARD = 0x00, REQ_TYP_CLASS = 0x20, REQ_RECIP_MASK = 0x1F,
     RECIP_DEVICE = 0, RECIP_ENDP = 2, FEAT_REMOTE_WAKEUP = 1, FEAT_ENDP_HALT = 0,
     GET_DESCRIPTOR = 0x06, SET_ADDRESS = 0x05, GET_CONFIGURATION = 0x08, SET_CONFIGURATION = 0x09,
     CLEAR_FEATURE = 0x01, SET_FEATURE = 0x03, GET_INTERFACE = 0x0A, SET_INTERFACE = 0x0B,
     GET_STATUS = 0x00, DESCR_DEVICE = 1, DESCR_CONFIG = 2, DESCR_STRING = 3,
     GET_LINE_CODING = 0x21, SET_LINE_CODING = 0x20, SET_LINE_CTLSTE = 0x22, SEND_BREAK = 0x23\<rparr>"

lemma wch_sel [simp]:
  "T_TOG wch = 0x40" "R_TOG wch = 0x80" "T_RES_MASK wch = 0x03" "T_RES_ACK wch = 0"
  "T_RES_NAK wch = 0x02" "T_RES_STALL wch = 0x03" "R_RES_MASK wch = 0x0C" "R_RES_ACK wch = 0"
  "R_RES_NAK wch = 0x08" "R_RES_STALL wch = 0x0C" "UEP1_TX_EN wch = 0x40" "UEP2_RX_EN wch = 0x08"
  "UEP3_TX_EN wch = 0x40" "UIF_TRANSFER wch = 0x02" "UIF_BUS_RST wch = 0x01"
  "UIF_SUSPEND wch = 0x04" "UIS_TOKEN_MASK wch = 0x30" "UIS_ENDP_MASK wch = 0x0F"
  "TOKEN_IN wch = 0x20" "TOKEN_OUT wch = 0x00" "TOKEN_SETUP wch = 0x30" "TOG_OK wch = 0x40"
  "UMS_SUSPEND wch = 0x04" "UDA_GP_BIT wch = 0x80" "UC_START wch = 0x29" "UD_START wch = 0x81"
  "UIE_START wch = 0x07" "REQ_TYP_MASK wch = 0x60" "REQ_TYP_STANDARD wch = 0x00"
  "REQ_TYP_CLASS wch = 0x20" "REQ_RECIP_MASK wch = 0x1F" "RECIP_DEVICE wch = 0" "RECIP_ENDP wch = 2"
  "FEAT_REMOTE_WAKEUP wch = 1" "FEAT_ENDP_HALT wch = 0" "GET_DESCRIPTOR wch = 0x06"
  "SET_ADDRESS wch = 0x05" "GET_CONFIGURATION wch = 0x08" "SET_CONFIGURATION wch = 0x09"
  "CLEAR_FEATURE wch = 0x01" "SET_FEATURE wch = 0x03" "GET_INTERFACE wch = 0x0A"
  "SET_INTERFACE wch = 0x0B" "GET_STATUS wch = 0x00" "DESCR_DEVICE wch = 1" "DESCR_CONFIG wch = 2"
  "DESCR_STRING wch = 3" "GET_LINE_CODING wch = 0x21" "SET_LINE_CODING wch = 0x20"
  "SET_LINE_CTLSTE wch = 0x22" "SEND_BREAK wch = 0x23"
  by (simp_all add: wch_def)

lemma ring_wf_static: "ring_wf \<lparr>r_head = 0, r_tail = 0, r_buf = replicate (2 ^ k) v\<rparr>" if "k < 32"
proof -
  have "(2 :: nat) ^ k \<le> 2 ^ 31" using that by (intro power_increasing) simp_all
  then show ?thesis by (auto simp: ring_wf_def ring_fits_def ring_size_def)
qed

lemma usb_static_ok: "usb_ok usb_static"
  using ring_wf_static [of 10 "0 :: u8"] ring_wf_static [of 9 "0 :: u8"]
  by (simp add: usb_ok_def usb_static_def kRxCapacity_def kTxCapacity_def)

lemma usb_static_lists [simp]: "ring_list (tx_ring usb_static) = []" "ring_list (rx_ring usb_static) = []"
  "ep3_log usb_static = []" "INT_FG usb_static = 0"
  by (simp_all add: usb_static_def ring_list_def ring_size_def)

subsection \<open>Properties\<close>



end
