(* ===== verification/UsbControl.thy ===== *)
theory UsbControl
  imports UsbTx
begin

text \<open>
  Control transfers of the USB device: what the host reads in a GET_DESCRIPTOR transfer, the line
  coding requests, the response every SETUP leaves on endpoint 0, the two phases of SET_ADDRESS, and
  two requests the code serves wrongly.
\<close>

subsection \<open>The documented layout of the vendor constants\<close>

definition sdk_ok :: "sdk \<Rightarrow> bool" where
  "sdk_ok K \<longleftrightarrow>
     (\<exists>k < 16. T_TOG K = push_bit k 1) \<and> (\<exists>k < 16. R_TOG K = push_bit k 1)
     \<and> T_TOG K AND R_TOG K = 0
     \<and> (T_TOG K OR R_TOG K) AND (T_RES_MASK K OR R_RES_MASK K) = 0
     \<and> T_RES_MASK K AND R_RES_MASK K = 0
     \<and> list_all (\<lambda>v. v AND T_RES_MASK K = v) [T_RES_ACK K, T_RES_NAK K, T_RES_STALL K]
     \<and> list_all (\<lambda>v. v AND R_RES_MASK K = v) [R_RES_ACK K, R_RES_NAK K, R_RES_STALL K]
     \<and> distinct [T_RES_ACK K, T_RES_NAK K, T_RES_STALL K]
     \<and> distinct [R_RES_ACK K, R_RES_NAK K, R_RES_STALL K]
     \<and> distinct [GET_DESCRIPTOR K, SET_ADDRESS K, GET_CONFIGURATION K, SET_CONFIGURATION K,
          CLEAR_FEATURE K, SET_FEATURE K, GET_INTERFACE K, SET_INTERFACE K, GET_STATUS K]
     \<and> distinct [GET_LINE_CODING K, SET_LINE_CODING K, SET_LINE_CTLSTE K, SEND_BREAK K]
     \<and> RECIP_DEVICE K \<noteq> RECIP_ENDP K"

lemma wch_ok: "sdk_ok wch"
proof -
  have "T_TOG wch = push_bit 6 1" "R_TOG wch = push_bit 7 1" by (simp_all add: wch_def)
  then have "\<exists>k < 16. T_TOG wch = push_bit k 1" "\<exists>k < 16. R_TOG wch = push_bit k 1"
    by (intro exI [of _ 6] exI [of _ 7]; simp)+
  then show ?thesis unfolding sdk_ok_def by (simp add: wch_def)
qed

text \<open>Reading back the fields of an endpoint control register.\<close>

definition t_res :: "sdk \<Rightarrow> u16 \<Rightarrow> u16" where "t_res K r = r AND T_RES_MASK K"
definition r_res :: "sdk \<Rightarrow> u16 \<Rightarrow> u16" where "r_res K r = r AND R_RES_MASK K"
definition t_tog :: "sdk \<Rightarrow> u16 \<Rightarrow> bool" where "t_tog K r \<longleftrightarrow> r AND T_TOG K \<noteq> 0"

lemma and_subset: "(v :: u16) AND m = v \<Longrightarrow> m AND m' = 0 \<Longrightarrow> v AND m' = 0"
  by (metis and.assoc and_zero_eq)

lemma field_read:
  fixes r m v t m' :: u16
  shows "v AND m = v \<Longrightarrow> t AND m = 0 \<Longrightarrow> set_field r m (t OR v) AND m = v"
    and "v AND m = v \<Longrightarrow> set_field r m v AND m = v"
    and "(t OR v) AND m' = 0 \<Longrightarrow> m AND m' = 0 \<Longrightarrow> set_field r m (t OR v) AND m' = r AND m'"
    and "v AND m' = 0 \<Longrightarrow> m AND m' = 0 \<Longrightarrow> set_field r m v AND m' = r AND m'"
  unfolding set_field_def
  by (simp_all add: bit_eq_iff bit_simps; blast)+

lemma tog_bit: "(x :: u16) AND push_bit k 1 \<noteq> 0 \<longleftrightarrow> bit x k"
  by (simp add: and_exp_eq_0_iff_not_bit)

lemma sdk_masks:
  assumes "sdk_ok K"
  shows "T_TOG K AND T_RES_MASK K = 0" "T_TOG K AND R_RES_MASK K = 0"
    "R_TOG K AND T_RES_MASK K = 0" "R_TOG K AND R_RES_MASK K = 0"
    "T_RES_MASK K AND R_RES_MASK K = 0" "R_RES_MASK K AND T_RES_MASK K = 0"
    "T_TOG K AND R_TOG K = 0" "R_TOG K AND T_TOG K = 0"
    "T_RES_MASK K AND T_TOG K = 0" "R_RES_MASK K AND T_TOG K = 0"
proof -
  have tog: "(T_TOG K OR R_TOG K) AND (T_RES_MASK K OR R_RES_MASK K) = 0"
    "T_RES_MASK K AND R_RES_MASK K = 0" "T_TOG K AND R_TOG K = 0"
    using assms by (simp_all add: sdk_ok_def)
  then show "T_TOG K AND T_RES_MASK K = 0" "T_TOG K AND R_RES_MASK K = 0"
    "R_TOG K AND T_RES_MASK K = 0" "R_TOG K AND R_RES_MASK K = 0"
    "T_RES_MASK K AND R_RES_MASK K = 0" "R_RES_MASK K AND T_RES_MASK K = 0"
    "T_TOG K AND R_TOG K = 0" "R_TOG K AND T_TOG K = 0"
    "T_RES_MASK K AND T_TOG K = 0" "R_RES_MASK K AND T_TOG K = 0"
    by (simp_all add: bit_eq_iff bit_simps; blast)+
qed

lemma sdk_values:
  assumes "sdk_ok K"
  shows "T_RES_ACK K AND T_RES_MASK K = T_RES_ACK K" "T_RES_NAK K AND T_RES_MASK K = T_RES_NAK K"
    "T_RES_STALL K AND T_RES_MASK K = T_RES_STALL K" "R_RES_ACK K AND R_RES_MASK K = R_RES_ACK K"
    "R_RES_NAK K AND R_RES_MASK K = R_RES_NAK K" "R_RES_STALL K AND R_RES_MASK K = R_RES_STALL K"
    "distinct [T_RES_ACK K, T_RES_NAK K, T_RES_STALL K]"
    "distinct [R_RES_ACK K, R_RES_NAK K, R_RES_STALL K]"
  using assms by (simp_all add: sdk_ok_def)

lemma sdk_cross:
  assumes "sdk_ok K"
  shows "T_RES_ACK K AND R_RES_MASK K = 0" "T_RES_NAK K AND R_RES_MASK K = 0"
    "T_RES_STALL K AND R_RES_MASK K = 0" "R_RES_ACK K AND T_RES_MASK K = 0"
    "R_RES_NAK K AND T_RES_MASK K = 0" "R_RES_STALL K AND T_RES_MASK K = 0"
    "T_RES_ACK K AND T_TOG K = 0" "T_RES_NAK K AND T_TOG K = 0" "R_RES_ACK K AND T_TOG K = 0"
    "R_RES_NAK K AND T_TOG K = 0"
  using sdk_values [OF assms] sdk_masks [OF assms] by (blast intro: and_subset)+

lemmas sdk_bits = sdk_masks sdk_values(1-6) sdk_cross

text \<open>Writing an endpoint control register and reading the three fields back.\<close>

lemma t_res_simps:
  assumes "sdk_ok K"
  shows "t_res K (set_field r (T_RES_MASK K) (T_TOG K OR T_RES_ACK K)) = T_RES_ACK K"
    "t_res K (set_field r (R_RES_MASK K) (R_TOG K OR R_RES_ACK K)) = t_res K r"
    "t_res K (set_field r (T_RES_MASK K) (T_RES_NAK K)) = T_RES_NAK K"
    "t_res K (r XOR T_TOG K) = t_res K r"
    "t_res K (T_TOG K OR T_RES_NAK K OR R_TOG K OR R_RES_NAK K) = T_RES_NAK K"
    "t_res K (T_TOG K OR T_RES_STALL K OR R_TOG K OR R_RES_STALL K) = T_RES_STALL K"
  using assms sdk_bits [OF assms] field_read(1-4)
  by (simp_all add: t_res_def field_read bit.conj_disj_distrib2 bit.conj_xor_distrib2)

lemma r_res_simps:
  assumes "sdk_ok K"
  shows "r_res K (set_field r (T_RES_MASK K) (T_TOG K OR T_RES_ACK K)) = r_res K r"
    "r_res K (set_field r (R_RES_MASK K) (R_TOG K OR R_RES_ACK K)) = R_RES_ACK K"
    "r_res K (r XOR T_TOG K) = r_res K r"
    "r_res K (T_TOG K OR T_RES_NAK K OR R_TOG K OR R_RES_NAK K) = R_RES_NAK K"
    "r_res K (T_TOG K OR T_RES_STALL K OR R_TOG K OR R_RES_STALL K) = R_RES_STALL K"
  using assms sdk_bits [OF assms] field_read(1-4)
  by (simp_all add: r_res_def field_read bit.conj_disj_distrib2 bit.conj_xor_distrib2)

lemma t_tog_simps:
  assumes "sdk_ok K"
  shows "t_tog K (set_field r (T_RES_MASK K) (T_TOG K OR T_RES_ACK K))"
    "t_tog K (set_field r (R_RES_MASK K) (R_TOG K OR R_RES_ACK K)) = t_tog K r"
    "t_tog K (r XOR T_TOG K) = (\<not> t_tog K r)"
proof -
  obtain k where k: "k < 16" "T_TOG K = push_bit k 1" using assms by (auto simp: sdk_ok_def)
  have b: "t_tog K x = bit x k" for x using tog_bit [of x k] by (simp add: t_tog_def k(2))
  have z: "\<not> bit x k" if "x AND T_TOG K = 0" for x using b [of x] that by (simp add: t_tog_def)
  have k': "bit (T_TOG K) k" using k by (simp add: bit_simps)
  have m: "\<not> bit (R_RES_MASK K) k" "\<not> bit (R_TOG K) k" "\<not> bit (R_RES_ACK K) k"
    using sdk_bits [OF assms] by (simp_all add: z)
  show "t_tog K (set_field r (T_RES_MASK K) (T_TOG K OR T_RES_ACK K))"
    "t_tog K (set_field r (R_RES_MASK K) (R_TOG K OR R_RES_ACK K)) = t_tog K r"
    "t_tog K (r XOR T_TOG K) = (\<not> t_tog K r)"
    using k k' m by (auto simp: b set_field_def bit_simps)
qed

subsection \<open>Reading a descriptor\<close>

text \<open>
  The host side of a control read: each IN transaction takes the staged packet with its data toggle
  (\<open>True\<close> for DATA1) if endpoint 0 acknowledges, and the completion runs \<open>handleEp0In\<close>.
\<close>

fun control_in :: "sdk \<Rightarrow> nat \<Rightarrow> usb \<Rightarrow> ((bool \<times> u8 list) list \<times> usb) option" where
  "control_in K 0 s = Some ([], s)"
| "control_in K (Suc k) s =
     (if t_res K (UEP0_CTRL s) \<noteq> T_RES_ACK K then None
      else do {
        s' \<leftarrow> handleEp0In K s;
        (ps, s'') \<leftarrow> control_in K k s';
        Some ((t_tog K (UEP0_CTRL s), take (unat (UEP0_TX_LEN s)) (ep0 s)) # ps, s'') })"

text \<open>A data stage: packets of at most 64 bytes with alternating toggles.\<close>

function packets :: "bool \<Rightarrow> u8 list \<Rightarrow> (bool \<times> u8 list) list" where
  "packets b xs = (if xs = [] then [] else (b, take 64 xs) # packets (\<not> b) (drop 64 xs))"
  by pat_completeness auto
termination by (relation "measure (length \<circ> snd)") auto

declare packets.simps [simp del]

lemma unat_clampEp0: "unat (clampEp0 n) = min 64 (unat n)"
  by (simp add: clampEp0_def kEp0Size_def word_le_nat_alt min_def)

lemma descriptor_for_len:
  assumes "descriptor_for K v = Some (t, n)"
  shows "unat n = length t" "t \<noteq> []"
  using assms by (auto simp: descriptor_for_def Let_def table_lengths split: if_splits)
    (simp_all add: table_defs)

text \<open>Between two packets of a descriptor: \<open>d\<close> is what is still to be delivered.\<close>

definition reading :: "sdk \<Rightarrow> usb \<Rightarrow> bool \<Rightarrow> u8 list \<Rightarrow> bool" where
  "reading K s b d \<longleftrightarrow> length (ep0 s) = 64
     \<and> setupReqType s AND REQ_TYP_MASK K = REQ_TYP_STANDARD K \<and> setupReqCode s = GET_DESCRIPTOR K
     \<and> t_res K (UEP0_CTRL s) = T_RES_ACK K \<and> t_tog K (UEP0_CTRL s) = b
     \<and> unat (UEP0_TX_LEN s) = min 64 (length d) \<and> take (unat (UEP0_TX_LEN s)) (ep0 s) = take 64 d
     \<and> unat (setupLen s) = length d - 64
     \<and> (\<exists>q. descr_ptr s = Some q \<and> unat (setupLen s) \<le> length q
            \<and> take (unat (setupLen s)) q = drop 64 d)"

lemma reading_step:
  assumes "sdk_ok K" "reading K s b d"
  obtains s' where "handleEp0In K s = Some s'" "reading K s' (\<not> b) (drop 64 d)"
    "length d \<le> 64 \<Longrightarrow> r_res K (UEP0_CTRL s') = R_RES_ACK K \<and> setupLen s' = 0"
proof -
  obtain q where q: "descr_ptr s = Some q" "unat (setupLen s) \<le> length q"
    "take (unat (setupLen s)) q = drop 64 d"
    using assms(2) by (auto simp: reading_def)
  let ?len = "clampEp0 (setupLen s)"
  have len: "unat ?len = min 64 (length d - 64)" "unat (setupLen s) = length d - 64" "length (ep0 s) = 64"
    using assms(2) by (simp_all add: unat_clampEp0 reading_def)
  define t where "t = (if setupLen s = 0
      then s\<lparr>UEP0_CTRL := set_field (UEP0_CTRL s) (R_RES_MASK K) (R_TOG K OR R_RES_ACK K)\<rparr> else s)"
  have t: "setupReqType t = setupReqType s" "setupReqCode t = setupReqCode s" "setupLen t = setupLen s"
    "ep0 t = ep0 s" "descr_ptr t = descr_ptr s" "t_res K (UEP0_CTRL t) = T_RES_ACK K"
    "t_tog K (UEP0_CTRL t) = b" "setupLen s = 0 \<Longrightarrow> r_res K (UEP0_CTRL t) = R_RES_ACK K"
    using assms(2) t_res_simps(2) [OF assms(1)] t_tog_simps(2) [OF assms(1)] r_res_simps(2) [OF assms(1)]
    by (simp_all add: reading_def t_def)
  let ?buf = "take (unat ?len) q @ drop (unat ?len) (ep0 s)"
  let ?s' = "t\<lparr>ep0 := ?buf, setupLen := setupLen s - ?len, descr_ptr := Some (drop (unat ?len) q),
      UEP0_TX_LEN := ?len, UEP0_CTRL := UEP0_CTRL t XOR T_TOG K\<rparr>"
  have le: "unat ?len \<le> length q" "unat ?len \<le> 64" using q(2) len(1,2) by (simp_all add: min_def)
  then have "copy_prefix (ep0 s) (Some q) (unat ?len) = Some ?buf"
    using len(3) by (simp add: copy_prefix_def)
  moreover have std: "setupReqType s AND REQ_TYP_MASK K = REQ_TYP_STANDARD K"
    "setupReqCode s = GET_DESCRIPTOR K"
    using assms(2) unfolding reading_def by blast+
  ultimately have run: "handleEp0In K s = Some ?s'"
    using q(1) t(1-5) unfolding handleEp0In_def Let_def t_def [symmetric] by simp
  have sub: "unat (setupLen s - ?len) = length d - 64 - min 64 (length d - 64)"
    using len by (simp add: unat_sub word_le_nat_alt)
  have chunk: "take (unat ?len) q = take 64 (drop 64 d)"
  proof -
    have "take (unat ?len) q = take (unat ?len) (take (unat (setupLen s)) q)" using len by simp
    then show ?thesis using q(3) len(1) by (cases "length d - 64 \<le> 64") simp_all
  qed
  have rest: "take (unat (setupLen s - ?len)) (drop (unat ?len) q) = drop 64 (drop 64 d)"
  proof -
    have "drop (unat ?len) (take (unat (setupLen s)) q) = drop (unat ?len) (drop 64 d)" using q(3) by simp
    moreover have "drop (unat ?len) (drop 64 d) = drop 64 (drop 64 d)"
      using len(1) by (cases "length d - 64 \<le> 64") simp_all
    ultimately show ?thesis using sub len by (simp add: drop_take)
  qed
  have buf: "length ?buf = 64" "take (unat ?len) ?buf = take 64 (drop 64 d)"
    using q(2) len chunk by (simp_all add: min_def)
  have lens: "unat (setupLen s - ?len) = length (drop 64 d) - 64" "unat ?len = min 64 (length (drop 64 d))"
    "unat (setupLen s - ?len) \<le> length (drop (unat ?len) q)"
    using q(2) len(1,2) sub unfolding length_drop by linarith+
  have ctrl: "t_res K (UEP0_CTRL t XOR T_TOG K) = T_RES_ACK K" "t_tog K (UEP0_CTRL t XOR T_TOG K) = (\<not> b)"
    using t(6,7) t_res_simps(4) [OF assms(1)] t_tog_simps(3) [OF assms(1)] by simp_all
  have "setupReqType ?s' = setupReqType s" "setupReqCode ?s' = setupReqCode s" "ep0 ?s' = ?buf"
    "setupLen ?s' = setupLen s - ?len" "descr_ptr ?s' = Some (drop (unat ?len) q)" "UEP0_TX_LEN ?s' = ?len"
    "UEP0_CTRL ?s' = UEP0_CTRL t XOR T_TOG K"
    by (simp_all add: t(1,2))
  then have "reading K ?s' (\<not> b) (drop 64 d)"
    unfolding reading_def using std buf lens ctrl rest by metis
  moreover have "length d \<le> 64 \<Longrightarrow> r_res K (UEP0_CTRL ?s') = R_RES_ACK K \<and> setupLen ?s' = 0"
    using len(2) t(8) r_res_simps(3) [OF assms(1)] by (simp add: clampEp0_def kEp0Size_def unat_eq_zero)
  ultimately show ?thesis using run that by blast
qed

lemma control_in_packets:
  assumes "sdk_ok K" "reading K s b d" "d \<noteq> []"
  shows "\<exists>s2. control_in K (length (packets b d)) s = Some (packets b d, s2)
     \<and> r_res K (UEP0_CTRL s2) = R_RES_ACK K \<and> setupLen s2 = 0"
  using assms(2,3)
proof (induction b d arbitrary: s rule: packets.induct)
  case (1 b d)
  obtain s' where s': "handleEp0In K s = Some s'" "reading K s' (\<not> b) (drop 64 d)"
    "length d \<le> 64 \<Longrightarrow> r_res K (UEP0_CTRL s') = R_RES_ACK K \<and> setupLen s' = 0"
    using reading_step [OF assms(1) "1.prems"(1)] by blast
  have p: "packets b d = (b, take 64 d) # packets (\<not> b) (drop 64 d)"
    using "1.prems"(2) by (simp add: packets.simps [of b d])
  have hd: "t_res K (UEP0_CTRL s) = T_RES_ACK K" "t_tog K (UEP0_CTRL s) = b"
    "take (unat (UEP0_TX_LEN s)) (ep0 s) = take 64 d"
    using "1.prems"(1) unfolding reading_def by blast+
  show ?case
  proof (cases "drop 64 d = []")
    case True
    then show ?thesis using s' hd p by (simp add: packets.simps [of _ "[]"])
  next
    case False
    then obtain s2 where "control_in K (length (packets (\<not> b) (drop 64 d))) s' = Some (packets (\<not> b) (drop 64 d), s2)"
      "r_res K (UEP0_CTRL s2) = R_RES_ACK K \<and> setupLen s2 = 0"
      using "1.IH" [OF "1.prems"(2) s'(2)] by blast
    then show ?thesis using s'(1) hd p by simp
  qed
qed

lemma setup_reply_in:
  assumes "setupReqType s AND UEP_IN \<noteq> 0"
  shows "setup_reply K False s = s\<lparr>setupLen := setupLen s - clampEp0 (setupLen s),
     UEP0_TX_LEN := clampEp0 (setupLen s),
     UEP0_CTRL := set_field (UEP0_CTRL s) (T_RES_MASK K) (T_TOG K OR T_RES_ACK K)\<rparr>"
proof -
  consider "setupLen s > ucast kEp0Size" | "setupLen s = ucast kEp0Size" | "setupLen s < ucast kEp0Size"
    by (meson linorder_cases)
  then show ?thesis
    by cases (use assms in \<open>simp_all add: setup_reply_def clampEp0_def Let_def order_less_imp_le not_le\<close>)
qed

lemma setup_reading:
  assumes "sdk_ok K" "length (ep0 s) = 64"
    "ep0 s ! 0 AND REQ_TYP_MASK K = REQ_TYP_STANDARD K" "ep0 s ! 0 AND UEP_IN \<noteq> 0"
    "ep0 s ! 1 = GET_DESCRIPTOR K" "descriptor_for K (setup_word s 2) = Some (t, n)"
  defines "d \<equiv> take (unat (setup_word s 6)) t"
  obtains s1 where "handleSetup K s = Some s1" "reading K s1 True d"
proof -
  let ?s0 = "s\<lparr>UEP0_CTRL := T_TOG K OR T_RES_NAK K OR R_TOG K OR R_RES_NAK K, descr_ptr := None,
      setupReqType := ep0 s ! 0, setupReqCode := ep0 s ! 1, setupLen := setup_word s 6,
      setupValue := setup_word s 2, setupIndex := setup_word s 4\<rparr>"
  let ?w = "setup_word s 6"
  define l where "l = (if ?w > n then n else ?w)"
  have n: "unat n = length t" using descriptor_for_len [OF assms(6)] by simp
  have l: "unat l = length d" using n by (auto simp: l_def d_def word_less_nat_alt)
  let ?len = "clampEp0 l"
  let ?buf = "take (unat ?len) t @ drop (unat ?len) (ep0 s)"
  have len: "unat ?len = min 64 (length d)" by (simp add: unat_clampEp0 l)
  have le: "length d \<le> length t" by (simp add: d_def)
  define u where "u = ?s0\<lparr>setupLen := l, descr_ptr := Some (drop (unat ?len) t), ep0 := ?buf\<rparr>"
  have "copy_prefix (ep0 s) (Some t) (unat ?len) = Some ?buf"
    using len le assms(2) by (simp add: copy_prefix_def min_def)
  then have "get_descriptor K ?s0 = Some (False, u)"
    using assms(6) by (cases "n < ?w") (simp_all add: get_descriptor_def stage_descr_def Let_def u_def l_def)
  then have run: "handleSetup K s = Some (setup_reply K False u)"
    using assms(3,5) by (simp add: handleSetup_def standard_request_def Let_def u_def)
  define v where "v = u\<lparr>setupLen := l - ?len, UEP0_TX_LEN := ?len,
      UEP0_CTRL := set_field (UEP0_CTRL u) (T_RES_MASK K) (T_TOG K OR T_RES_ACK K)\<rparr>"
  have "setupReqType u = ep0 s ! 0" "setupLen u = l" by (simp_all add: u_def)
  then have v: "setup_reply K False u = v"
    using assms(4) by (simp add: setup_reply_in v_def)
  have f: "setupReqType v = ep0 s ! 0" "setupReqCode v = ep0 s ! 1" "ep0 v = ?buf" "setupLen v = l - ?len"
    "descr_ptr v = Some (drop (unat ?len) t)" "UEP0_TX_LEN v = ?len"
    "t_res K (UEP0_CTRL v) = T_RES_ACK K" "t_tog K (UEP0_CTRL v)"
    using t_res_simps(1) [OF assms(1)] t_tog_simps(1) [OF assms(1)] by (simp_all add: v_def u_def)
  have sub: "unat (l - ?len) = length d - 64" using l len by (simp add: unat_sub word_le_nat_alt)
  have d': "take (length d) t = d" by (auto simp: d_def min_def)
  have buf: "length ?buf = 64" "take (unat ?len) ?buf = take 64 d"
  proof -
    show "length ?buf = 64" using len le assms(2) by simp
    have "take (unat ?len) ?buf = take (unat ?len) t" using len le by simp
    also have "\<dots> = take 64 d" using len d' by (metis take_take)
    finally show "take (unat ?len) ?buf = take 64 d" .
  qed
  have rest: "length d - 64 \<le> length (drop (unat ?len) t)"
    "take (length d - 64) (drop (unat ?len) t) = drop 64 d"
  proof -
    show "length d - 64 \<le> length (drop (unat ?len) t)" using len le by simp
    show "take (length d - 64) (drop (unat ?len) t) = drop 64 d"
    proof (cases "length d \<le> 64")
      case False
      then have "unat ?len = 64" using len by simp
      then show ?thesis using d' by (metis drop_take)
    qed simp
  qed
  have "reading K v True d"
    unfolding reading_def f sub using assms(3,5) f(7,8) buf len rest by simp
  then show ?thesis using that run v by simp
qed

subsection \<open>What a SETUP can do to memory\<close>

text \<open>The request that \<open>handleSetup\<close> serves from the seven bytes of \<open>lcWire_\<close>.\<close>

definition gets_line_coding :: "sdk \<Rightarrow> usb \<Rightarrow> bool" where
  "gets_line_coding K s \<longleftrightarrow> ep0 s ! 0 AND REQ_TYP_MASK K \<noteq> REQ_TYP_STANDARD K
     \<and> ep0 s ! 0 AND REQ_TYP_CLASS K \<noteq> 0 \<and> ep0 s ! 1 = GET_LINE_CODING K"

text \<open>The state at the dispatch: the request copied out, both directions of endpoint 0 at NAK.\<close>

definition setup_start :: "sdk \<Rightarrow> usb \<Rightarrow> usb" where
  "setup_start K s = s\<lparr>UEP0_CTRL := T_TOG K OR T_RES_NAK K OR R_TOG K OR R_RES_NAK K, descr_ptr := None,
      setupReqType := ep0 s ! 0, setupReqCode := ep0 s ! 1, setupLen := setup_word s 6,
      setupValue := setup_word s 2, setupIndex := setup_word s 4\<rparr>"

lemma setup_start_sel [simp]:
  "setupReqType (setup_start K s) = ep0 s ! 0" "setupReqCode (setup_start K s) = ep0 s ! 1"
  "setupLen (setup_start K s) = setup_word s 6" "setupValue (setup_start K s) = setup_word s 2"
  "setupIndex (setup_start K s) = setup_word s 4" "descr_ptr (setup_start K s) = None"
  "ep0 (setup_start K s) = ep0 s" "lcWire (setup_start K s) = lcWire s"
  "UEP0_CTRL (setup_start K s) = T_TOG K OR T_RES_NAK K OR R_TOG K OR R_RES_NAK K"
  by (simp_all add: setup_start_def)

lemma handleSetup_start:
  "handleSetup K s =
    do { (err, s) \<leftarrow>
         (if ep0 s ! 0 AND REQ_TYP_MASK K \<noteq> REQ_TYP_STANDARD K then
            (let (err, s) = class_request K (setup_start K s)
             in map_option (\<lambda>s. (err, s)) (stage_descr (clampEp0 (setupLen s)) s))
          else standard_request K (setup_start K s));
       Some (setup_reply K err s) }"
  by (simp add: handleSetup_def setup_start_def Let_def)

lemma stage_none: "descr_ptr s = None \<Longrightarrow> stage_descr n s = Some s"
  by (simp add: stage_descr_def)

lemma stage_some:
  assumes "descr_ptr s = Some d" "length (ep0 s) = 64"
  shows "stage_descr (clampEp0 l) s =
    (if min 64 (unat l) \<le> length d
     then Some (s\<lparr>ep0 := take (min 64 (unat l)) d @ drop (min 64 (unat l)) (ep0 s),
                  descr_ptr := Some (drop (min 64 (unat l)) d)\<rparr>)
     else None)"
  using assms by (auto simp: stage_descr_def copy_prefix_def unat_clampEp0)

lemma class_request_other:
  assumes "\<not> (setupReqType s AND REQ_TYP_CLASS K \<noteq> 0 \<and> setupReqCode s = GET_LINE_CODING K)"
    "class_request K s = (e, s')"
  shows "descr_ptr s' = descr_ptr s \<and> setupLen s' = setupLen s \<and> setupReqType s' = setupReqType s
    \<and> UEP0_CTRL s' = UEP0_CTRL s"
  using assms by (auto simp: class_request_def Let_def split: if_splits)

lemma get_descriptor_total:
  assumes "length (ep0 s) = 64" "descr_ptr s = None"
  shows "\<exists>e s'. get_descriptor K s = Some (e, s') \<and> setupReqType s' = setupReqType s
    \<and> UEP0_CTRL s' = UEP0_CTRL s"
proof (cases "descriptor_for K (setupValue s)")
  case None
  then show ?thesis
    using assms by (intro exI [of _ True]) (simp add: get_descriptor_def Let_def stage_none)
next
  case (Some d)
  obtain tab n where d: "d = (tab, n)" by fastforce
  then have n: "unat n = length tab" using descriptor_for_len(1) [of K _ tab n] Some by simp
  let ?l = "if setupLen s > n then n else setupLen s"
  let ?t = "s\<lparr>descr_ptr := Some tab, setupLen := ?l\<rparr>"
  have "min 64 (unat ?l) \<le> length tab" using n by (auto simp: word_less_nat_alt min_def)
  moreover have "get_descriptor K s = map_option (Pair False) (stage_descr (clampEp0 ?l) ?t)"
    using Some d by (auto simp: get_descriptor_def Let_def)
  ultimately show ?thesis
    using stage_some [where s = ?t and d = tab and l = ?l] assms(1) by (auto simp del: split_paired_Ex)
qed

lemma feature_ctrl:
  "clear_feature K s = (e, s') \<Longrightarrow> setupReqType s' = setupReqType s \<and> UEP0_CTRL s' = UEP0_CTRL s"
  "set_feature K s = (e, s') \<Longrightarrow> setupReqType s' = setupReqType s \<and> UEP0_CTRL s' = UEP0_CTRL s"
  "get_status K s = (e, s') \<Longrightarrow> setupReqType s' = setupReqType s \<and> UEP0_CTRL s' = UEP0_CTRL s"
  by (auto simp: clear_feature_def set_feature_def get_status_def clear_halt_def set_halt_def Let_def
      limit_len_def split: if_splits option.splits)

lemma standard_request_total:
  assumes "length (ep0 s) = 64" "descr_ptr s = None"
  shows "\<exists>e s'. standard_request K s = Some (e, s') \<and> setupReqType s' = setupReqType s
    \<and> UEP0_CTRL s' = UEP0_CTRL s"
proof -
  obtain e1 s1 e2 s2 e3 s3 where p: "clear_feature K s = (e1, s1)" "set_feature K s = (e2, s2)"
    "get_status K s = (e3, s3)"
    by fastforce
  show ?thesis
    using get_descriptor_total [OF assms, of K] feature_ctrl(1) [OF p(1)] feature_ctrl(2) [OF p(2)]
      feature_ctrl(3) [OF p(3)] p
    by (auto simp: standard_request_def Let_def limit_len_def)
qed

text \<open>The dispatch leaves the request type and endpoint 0 alone, and is \<open>None\<close> for one request only.\<close>

lemma dispatch_total:
  assumes "length (ep0 s) = 64" "length (lcWire s) = 7"
  shows "(gets_line_coding K s \<and> 7 < unat (setup_word s 6) \<and> handleSetup K s = None)
    \<or> (\<not> (gets_line_coding K s \<and> 7 < unat (setup_word s 6))
       \<and> (\<exists>e t. handleSetup K s = Some (setup_reply K e t) \<and> setupReqType t = ep0 s ! 0
           \<and> UEP0_CTRL t = T_TOG K OR T_RES_NAK K OR R_TOG K OR R_RES_NAK K))"
proof -
  let ?s = "setup_start K s"
  consider (std) "ep0 s ! 0 AND REQ_TYP_MASK K = REQ_TYP_STANDARD K"
    | (line) "gets_line_coding K s"
    | (other) "ep0 s ! 0 AND REQ_TYP_MASK K \<noteq> REQ_TYP_STANDARD K" "\<not> gets_line_coding K s"
    by blast
  then show ?thesis
  proof cases
    case std
    obtain e t where "standard_request K ?s = Some (e, t)" "setupReqType t = setupReqType ?s"
      "UEP0_CTRL t = UEP0_CTRL ?s"
      using standard_request_total [of ?s K] assms(1) by auto
    then show ?thesis using std by (auto simp: handleSetup_start gets_line_coding_def)
  next
    case line
    let ?t = "?s\<lparr>descr_ptr := Some (lcWire s)\<rparr>"
    have "class_request K ?s = (False, ?t)"
      using line by (simp add: class_request_def gets_line_coding_def)
    then have "handleSetup K s =
        (case stage_descr (clampEp0 (setup_word s 6)) ?t of None \<Rightarrow> None
         | Some t \<Rightarrow> Some (setup_reply K False t))"
      using line by (simp add: handleSetup_start gets_line_coding_def split: option.splits)
    moreover let ?n = "min 64 (unat (setup_word s 6))"
    let ?u = "?t\<lparr>ep0 := take ?n (lcWire s) @ drop ?n (ep0 ?t), descr_ptr := Some (drop ?n (lcWire s))\<rparr>"
    have "stage_descr (clampEp0 (setup_word s 6)) ?t = (if ?n \<le> 7 then Some ?u else None)"
      using stage_some [where s = ?t and d = "lcWire s" and l = "setup_word s 6"] assms by simp
    moreover have "?n \<le> 7 \<longleftrightarrow> \<not> 7 < unat (setup_word s 6)" by auto
    moreover have "setupReqType ?u = ep0 s ! 0" "UEP0_CTRL ?u = UEP0_CTRL ?s" by simp_all
    ultimately show ?thesis
      using line setup_start_sel(9) [of K s]
      by (cases "7 < unat (setup_word s 6)") (simp_all only: if_True if_False option.case simp_thms, metis)
  next
    case other
    obtain e t where t: "class_request K ?s = (e, t)" by fastforce
    have "descr_ptr t = None" "setupReqType t = ep0 s ! 0" "UEP0_CTRL t = UEP0_CTRL ?s"
      using class_request_other [OF _ t] other by (auto simp: gets_line_coding_def)
    then show ?thesis using other t by (auto simp: handleSetup_start stage_none)
  qed
qed

subsection \<open>Properties\<close>

text \<open>
  C24. A GET_DESCRIPTOR transfer delivers the descriptor. For every string, device or configuration
  descriptor the tables hold and every requested length, the SETUP is answered and the following IN
  transactions deliver the first \<open>wLength\<close> bytes of the table: in packets of at most 64 bytes, with the
  data toggle starting at DATA1 and alternating, each acknowledged, no byte read outside a table; and
  after the last packet the status stage is open.
\<close>

theorem get_descriptor_delivers:
  assumes "sdk_ok K" and "length (ep0 s) = 64"
    and "ep0 s ! 0 AND REQ_TYP_MASK K = REQ_TYP_STANDARD K" and "ep0 s ! 0 AND UEP_IN \<noteq> 0"
    and "ep0 s ! 1 = GET_DESCRIPTOR K" and "descriptor_for K (setup_word s 2) = Some (t, n)"
    and "setup_word s 6 \<noteq> 0"
  shows "\<exists>s1 s2. handleSetup K s = Some s1
    \<and> control_in K (length (packets True (take (unat (setup_word s 6)) t))) s1
        = Some (packets True (take (unat (setup_word s 6)) t), s2)
    \<and> r_res K (UEP0_CTRL s2) = R_RES_ACK K \<and> setupLen s2 = 0"
proof -
  obtain s1 where s1: "handleSetup K s = Some s1" "reading K s1 True (take (unat (setup_word s 6)) t)"
    using setup_reading [OF assms(1-6)] by blast
  have "unat (setup_word s 6) \<noteq> 0" using assms(7) unat_eq_zero by blast
  then have "take (unat (setup_word s 6)) t \<noteq> []" using descriptor_for_len(2) [OF assms(6)] by simp
  then show ?thesis using control_in_packets [OF assms(1) s1(2)] s1(1) by blast
qed

theorem get_descriptor_delivers_witness:
  "let s = usb_static\<lparr>ep0 := [0x80, 0x06, 0x00, 0x02, 0, 0, 0xFF, 0x00] @ replicate 56 0\<rparr> in
   \<exists>s1 s2. handleSetup wch s = Some s1
     \<and> control_in wch 2 s1 = Some ([(True, take 64 kConfig), (False, drop 64 kConfig)], s2)
     \<and> r_res wch (UEP0_CTRL s2) = R_RES_ACK wch \<and> setupLen s2 = 0"
proof -
  let ?s = "usb_static\<lparr>ep0 := [0x80, 0x06, 0x00, 0x02, 0, 0, 0xFF, 0x00] @ replicate 56 0\<rparr>"
  have w: "setup_word ?s 6 = 0xFF" "setup_word ?s 2 = 0x0200" by (simp_all add: setup_word_def)
  have d: "descriptor_for wch (setup_word ?s 2) = Some (kConfig, configLen)"
    unfolding w(2) by (simp add: descriptor_for_def)
  have p: "packets True (take (unat (setup_word ?s 6)) kConfig) = [(True, take 64 kConfig), (False, drop 64 kConfig)]"
  proof -
    have "kConfig \<noteq> []" "drop 64 kConfig \<noteq> []" "length kConfig = 67" by (simp_all add: table_lengths flip: length_0_conv)
    then show ?thesis unfolding w(1) by (simp add: packets.simps [of _ kConfig] packets.simps [of _ "drop 64 kConfig"]
        packets.simps [of _ "[]"])
  qed
  have h: "length (ep0 ?s) = 64" "ep0 ?s ! 0 AND REQ_TYP_MASK wch = REQ_TYP_STANDARD wch"
    "ep0 ?s ! 0 AND UEP_IN \<noteq> 0" "ep0 ?s ! 1 = GET_DESCRIPTOR wch" "setup_word ?s 6 \<noteq> 0"
    unfolding w(1) by (simp_all add: UEP_IN_def)
  have len: "length [(True, take 64 kConfig), (False, drop 64 kConfig)] = 2" by simp
  show ?thesis
    unfolding Let_def
    using get_descriptor_delivers [OF wch_ok h(1-4) d h(5), unfolded p len] by blast
qed

text \<open>
  C25. Every SETUP is answered, and unambiguously. Whatever request arrives, endpoint 0 ends in one of
  three states: both directions stalled; the IN side acknowledging with at most 64 staged bytes and
  the OUT side held (a data stage to the host, or the status stage of a request without data); or the
  IN side held and the OUT side acknowledging (a data stage from the host).
\<close>

theorem setup_answered:
  assumes "sdk_ok K" and "length (ep0 s) = 64" and "length (lcWire s) = 7" and "handleSetup K s = Some s'"
  shows "(t_res K (UEP0_CTRL s') = T_RES_STALL K \<and> r_res K (UEP0_CTRL s') = R_RES_STALL K)
    \<or> (t_res K (UEP0_CTRL s') = T_RES_ACK K \<and> r_res K (UEP0_CTRL s') = R_RES_NAK K
       \<and> t_tog K (UEP0_CTRL s') \<and> unat (UEP0_TX_LEN s') \<le> 64
       \<and> (ep0 s ! 0 AND UEP_IN = 0 \<longrightarrow> UEP0_TX_LEN s' = 0))
    \<or> (t_res K (UEP0_CTRL s') = T_RES_NAK K \<and> r_res K (UEP0_CTRL s') = R_RES_ACK K
       \<and> ep0 s ! 0 AND UEP_IN = 0)"
proof -
  obtain e t where t: "s' = setup_reply K e t" "setupReqType t = ep0 s ! 0"
    "UEP0_CTRL t = T_TOG K OR T_RES_NAK K OR R_TOG K OR R_RES_NAK K"
    using dispatch_total [OF assms(2,3), of K] assms(4) by auto
  note f = t_res_simps [OF assms(1)] r_res_simps [OF assms(1)] t_tog_simps(1) [OF assms(1)]
  consider (err) "e" | (inn) "\<not> e" "ep0 s ! 0 AND UEP_IN \<noteq> 0" | (out) "\<not> e" "ep0 s ! 0 AND UEP_IN = 0"
    by blast
  then show ?thesis
  proof cases
    case err
    then show ?thesis using t f by (simp add: setup_reply_def)
  next
    case inn
    then show ?thesis using t f setup_reply_in [of t K] by (simp add: unat_clampEp0)
  next
    case out
    then show ?thesis using t f by (simp add: setup_reply_def)
  qed
qed

theorem setup_answered_witness:
  "\<exists>s'. handleSetup wch (usb_static\<lparr>ep0 := [0x00, 0x77, 0, 0, 0, 0, 0, 0] @ replicate 56 0\<rparr>) = Some s'
     \<and> (t_res wch (UEP0_CTRL s') = T_RES_STALL wch \<and> r_res wch (UEP0_CTRL s') = R_RES_STALL wch
        \<or> t_res wch (UEP0_CTRL s') = T_RES_ACK wch \<and> r_res wch (UEP0_CTRL s') = R_RES_NAK wch
        \<or> t_res wch (UEP0_CTRL s') = T_RES_NAK wch \<and> r_res wch (UEP0_CTRL s') = R_RES_ACK wch)"
proof -
  let ?s = "usb_static\<lparr>ep0 := [0x00, 0x77, 0, 0, 0, 0, 0, 0] @ replicate 56 0\<rparr>"
  have l: "length (ep0 ?s) = 64" "length (lcWire ?s) = 7" by (simp_all add: usb_static_def)
  obtain s' where s': "handleSetup wch ?s = Some s'"
    by (simp add: handleSetup_start standard_request_def Let_def)
  show ?thesis using setup_answered [OF wch_ok l s'] s' by blast
qed

text \<open>
  C26. Memory safety of the SETUP stage, exactly: the only SETUP packet for which \<open>handleSetup\<close> reads
  outside the table it stages is a class request GET_LINE_CODING with \<open>wLength\<close> above 7. The length 7
  assigned in that branch is overwritten by the clamp to \<open>wLength\<close> that follows the switch, so
  \<open>memcpy\<close> runs past the seven bytes of \<open>lcWire_\<close>.
\<close>

theorem setup_over_reads_iff:
  assumes "length (ep0 s) = 64" and "length (lcWire s) = 7"
  shows "handleSetup K s = None \<longleftrightarrow> gets_line_coding K s \<and> 7 < unat (setup_word s 6)"
  using dispatch_total [OF assms, of K] by auto

theorem setup_over_reads_iff_witness:
  "handleSetup wch (usb_static\<lparr>ep0 := [0xA1, 0x21, 0, 0, 0, 0, 8, 0] @ replicate 56 0\<rparr>) = None"
proof -
  let ?s = "usb_static\<lparr>ep0 := [0xA1, 0x21, 0, 0, 0, 0, 8, 0] @ replicate 56 0\<rparr>"
  have "setup_word ?s 6 = 8" by (simp add: setup_word_def)
  then have "7 < unat (setup_word ?s 6)" by simp
  moreover have "gets_line_coding wch ?s" by (simp add: gets_line_coding_def)
  moreover have "length (ep0 ?s) = 64" "length (lcWire ?s) = 7" by (simp_all add: usb_static_def)
  ultimately show ?thesis using setup_over_reads_iff [of ?s wch] by blast
qed

text \<open>The seven wire bytes of a line coding.\<close>

definition line_coding_bytes :: "LineCoding \<Rightarrow> u8 list" where
  "line_coding_bytes c =
    [ucast (baud c), ucast (drop_bit 8 (baud c)), ucast (drop_bit 16 (baud c)),
     ucast (drop_bit 24 (baud c)), stopBits c, parity c, dataBits c]"

lemma le32_bytes:
  "(ucast (ucast b :: u8) :: u32) OR push_bit 8 (ucast (ucast (drop_bit 8 b) :: u8))
     OR push_bit 16 (ucast (ucast (drop_bit 16 b) :: u8)) OR push_bit 24 (ucast (ucast (drop_bit 24 b) :: u8)) = b"
proof (rule bit_word_eqI)
  fix n
  assume "n < LENGTH(32)"
  then show "bit ((ucast (ucast b :: u8) :: u32) OR push_bit 8 (ucast (ucast (drop_bit 8 b) :: u8))
     OR push_bit 16 (ucast (ucast (drop_bit 16 b) :: u8))
     OR push_bit 24 (ucast (ucast (drop_bit 24 b) :: u8))) n = bit b n"
    by (cases "n < 8"; cases "n < 16"; cases "n < 24") (auto simp: bit_simps)
qed

lemma decode_line_coding_bytes:
  "lcWire s = line_coding_bytes c \<Longrightarrow> decodeLineCoding s = s\<lparr>lc := c\<rparr>"
  using le32_bytes [of "baud c"]
  by (cases c) (simp add: decodeLineCoding_def line_coding_bytes_def numeral_eq_Suc)

lemma setup_set_line_coding:
  assumes "sdk_ok K" "ep0 s ! 0 AND REQ_TYP_MASK K \<noteq> REQ_TYP_STANDARD K"
    "ep0 s ! 0 AND REQ_TYP_CLASS K \<noteq> 0" "ep0 s ! 1 = SET_LINE_CODING K"
  shows "handleSetup K s = Some (setup_reply K False (setup_start K s))"
proof -
  have "SET_LINE_CODING K \<noteq> GET_LINE_CODING K" using assms(1) by (auto simp: sdk_ok_def)
  then have "class_request K (setup_start K s) = (False, setup_start K s)"
    using assms(3,4) by (simp add: class_request_def)
  then show ?thesis using assms(2) by (simp add: handleSetup_start stage_none)
qed

lemma setup_get_line_coding:
  assumes "length (ep0 s) = 64" "length (lcWire s) = 7" "gets_line_coding K s" "ep0 s ! 0 AND UEP_IN \<noteq> 0"
    "unat (setup_word s 6) \<le> 7"
  shows "\<exists>s'. handleSetup K s = Some s' \<and> take (unat (UEP0_TX_LEN s')) (ep0 s') = take (unat (setup_word s 6)) (lcWire s)
    \<and> UEP0_CTRL s' = set_field (T_TOG K OR T_RES_NAK K OR R_TOG K OR R_RES_NAK K) (T_RES_MASK K) (T_TOG K OR T_RES_ACK K)"
proof -
  let ?w = "unat (setup_word s 6)"
  let ?t = "(setup_start K s)\<lparr>descr_ptr := Some (lcWire s)\<rparr>"
  let ?u = "?t\<lparr>ep0 := take ?w (lcWire s) @ drop ?w (ep0 ?t), descr_ptr := Some (drop ?w (lcWire s))\<rparr>"
  have m: "min 64 ?w = ?w" using assms(5) by simp
  have c: "class_request K (setup_start K s) = (False, ?t)"
    using assms(3) by (simp add: class_request_def gets_line_coding_def)
  have "stage_descr (clampEp0 (setup_word s 6)) ?t = Some ?u"
    using stage_some [where s = ?t and d = "lcWire s" and l = "setup_word s 6"] assms(1,2,5)
    unfolding m by simp
  then have "handleSetup K s = Some (setup_reply K False ?u)"
    using assms(3) c by (simp add: handleSetup_start gets_line_coding_def)
  moreover have "unat (clampEp0 (setup_word s 6)) = ?w" using m by (simp add: unat_clampEp0)
  ultimately show ?thesis
    using assms(2,4,5) setup_reply_in [of ?u K] by (simp add: min_def)
qed

text \<open>
  SET_LINE_CODING and GET_LINE_CODING are inverse. For every line coding the host sends: the SETUP
  opens the data stage, the seven data bytes set exactly the baud rate, stop bits, parity and data
  bits the host encoded and raise the change flag, the status stage is armed with an empty packet, and
  a later GET_LINE_CODING of up to seven bytes sends the same bytes back.
\<close>

theorem line_coding_roundtrip:
  assumes "sdk_ok K" and "ep0 s ! 0 AND REQ_TYP_MASK K \<noteq> REQ_TYP_STANDARD K"
    and "ep0 s ! 0 AND REQ_TYP_CLASS K \<noteq> 0" and "ep0 s ! 0 AND UEP_IN = 0"
    and "ep0 s ! 1 = SET_LINE_CODING K" and "setup_word s 6 = 7"
    and "length dat = 64" and "take 7 dat = line_coding_bytes c"
    and "length get = 64" and "gets_line_coding K (s\<lparr>ep0 := get\<rparr>)" and "get ! 0 AND UEP_IN \<noteq> 0"
    and "unat (setup_word (s\<lparr>ep0 := get\<rparr>) 6) \<le> 7"
  shows "\<exists>s1 s2 s3. handleSetup K s = Some s1 \<and> r_res K (UEP0_CTRL s1) = R_RES_ACK K
    \<and> s2 = handleEp0Out K (s1\<lparr>ep0 := dat\<rparr>) \<and> lc s2 = c \<and> lcChanged s2
    \<and> t_res K (UEP0_CTRL s2) = T_RES_ACK K \<and> UEP0_TX_LEN s2 = 0
    \<and> handleSetup K (s2\<lparr>ep0 := get\<rparr>) = Some s3 \<and> t_res K (UEP0_CTRL s3) = T_RES_ACK K
    \<and> take (unat (UEP0_TX_LEN s3)) (ep0 s3)
        = take (unat (setup_word (s\<lparr>ep0 := get\<rparr>) 6)) (line_coding_bytes c)"
proof -
  note f = t_res_simps [OF assms(1)] r_res_simps [OF assms(1)]
  define s1 where "s1 = setup_reply K False (setup_start K s)"
  have s1: "handleSetup K s = Some s1" "r_res K (UEP0_CTRL s1) = R_RES_ACK K"
    "setupReqType s1 = ep0 s ! 0" "setupReqCode s1 = ep0 s ! 1"
    using setup_set_line_coding [OF assms(1-3,5)] assms(4,6) f by (simp_all add: s1_def setup_reply_def)
  define s2 where "s2 = handleEp0Out K (s1\<lparr>ep0 := dat\<rparr>)"
  let ?d = "s1\<lparr>ep0 := dat, lcWire := line_coding_bytes c\<rparr>"
  have "s2 = ?d\<lparr>lc := c, lcChanged := True, setupLen := 0, UEP0_TX_LEN := 0,
      UEP0_CTRL := set_field (UEP0_CTRL s1) (T_RES_MASK K) (T_TOG K OR T_RES_ACK K)\<rparr>"
    using assms(2,5,8) s1(3,4) decode_line_coding_bytes [of ?d c]
    by (simp add: s2_def handleEp0Out_def)
  then have s2: "lc s2 = c" "lcChanged s2" "UEP0_TX_LEN s2 = 0" "t_res K (UEP0_CTRL s2) = T_RES_ACK K"
    "lcWire s2 = line_coding_bytes c"
    using f by simp_all
  let ?g = "s2\<lparr>ep0 := get\<rparr>"
  have g: "setup_word ?g 6 = setup_word (s\<lparr>ep0 := get\<rparr>) 6" "gets_line_coding K ?g"
    using assms(10) by (simp_all add: setup_word_def gets_line_coding_def)
  have l: "length (ep0 ?g) = 64" "length (lcWire ?g) = 7" "ep0 ?g ! 0 AND UEP_IN \<noteq> 0"
    "unat (setup_word ?g 6) \<le> 7"
    using assms(9,11,12) s2(5) unfolding g(1) by (simp_all add: line_coding_bytes_def)
  obtain s3 where s3: "handleSetup K ?g = Some s3"
    "take (unat (UEP0_TX_LEN s3)) (ep0 s3) = take (unat (setup_word ?g 6)) (lcWire ?g)"
    "UEP0_CTRL s3 = set_field (T_TOG K OR T_RES_NAK K OR R_TOG K OR R_RES_NAK K) (T_RES_MASK K) (T_TOG K OR T_RES_ACK K)"
    using setup_get_line_coding [OF l(1,2) g(2) l(3,4)] by blast
  then have "t_res K (UEP0_CTRL s3) = T_RES_ACK K"
    "take (unat (UEP0_TX_LEN s3)) (ep0 s3) = take (unat (setup_word (s\<lparr>ep0 := get\<rparr>) 6)) (line_coding_bytes c)"
    using f s2(5) g(1) by simp_all
  then show ?thesis using s1(1,2) s2(1-4) s3(1) s2_def by blast
qed

theorem line_coding_roundtrip_witness:
  "\<exists>s1 s2 s3. handleSetup wch (usb_static\<lparr>ep0 := [0x21, 0x20, 0, 0, 0, 0, 7, 0] @ replicate 56 0\<rparr>) = Some s1
     \<and> s2 = handleEp0Out wch (s1\<lparr>ep0 := [0x80, 0x25, 0, 0, 2, 1, 7] @ replicate 57 0\<rparr>)
     \<and> lc s2 = \<lparr>baud = 9600, stopBits = 2, parity = 1, dataBits = 7\<rparr>
     \<and> handleSetup wch (s2\<lparr>ep0 := [0xA1, 0x21, 0, 0, 0, 0, 7, 0] @ replicate 56 0\<rparr>) = Some s3
     \<and> take (unat (UEP0_TX_LEN s3)) (ep0 s3) = [0x80, 0x25, 0, 0, 2, 1, 7]"
proof -
  let ?s = "usb_static\<lparr>ep0 := [0x21, 0x20, 0, 0, 0, 0, 7, 0] @ replicate 56 0\<rparr>"
  let ?dat = "[0x80, 0x25, 0, 0, 2, 1, 7] @ replicate 57 0 :: u8 list"
  let ?get = "[0xA1, 0x21, 0, 0, 0, 0, 7, 0] @ replicate 56 0 :: u8 list"
  let ?c = "\<lparr>baud = 9600, stopBits = 2, parity = 1, dataBits = 7\<rparr>"
  have w: "setup_word ?s 6 = 7" "setup_word (?s\<lparr>ep0 := ?get\<rparr>) 6 = 7" by (simp_all add: setup_word_def)
  have h: "ep0 ?s ! 0 AND REQ_TYP_MASK wch \<noteq> REQ_TYP_STANDARD wch" "ep0 ?s ! 0 AND REQ_TYP_CLASS wch \<noteq> 0"
    "ep0 ?s ! 0 AND UEP_IN = 0" "ep0 ?s ! 1 = SET_LINE_CODING wch" "length ?dat = 64"
    "take 7 ?dat = line_coding_bytes ?c" "length ?get = 64" "gets_line_coding wch (?s\<lparr>ep0 := ?get\<rparr>)"
    "?get ! 0 AND UEP_IN \<noteq> 0" "unat (setup_word (?s\<lparr>ep0 := ?get\<rparr>) 6) \<le> 7"
    "take 7 (line_coding_bytes ?c) = [0x80, 0x25, 0, 0, 2, 1, 7]"
    unfolding w by (simp_all add: UEP_IN_def line_coding_bytes_def gets_line_coding_def)
  have u: "unat (7 :: u16) = 7" by simp
  show ?thesis
    using line_coding_roundtrip [OF wch_ok h(1-4) w(1) h(5-10), unfolded w u h(11)] by blast
qed

text \<open>
  The device keeps its old address until the status stage. SET_ADDRESS arms an empty status packet
  and leaves the address register alone; only the completion of that packet loads the new address,
  keeping the general-purpose bit.
\<close>

theorem set_address_after_status:
  assumes "sdk_ok K" and "ep0 s ! 0 AND REQ_TYP_MASK K = REQ_TYP_STANDARD K"
    and "ep0 s ! 0 AND UEP_IN = 0" and "ep0 s ! 1 = SET_ADDRESS K" and "setup_word s 6 = 0"
  shows "\<exists>s1 s2. handleSetup K s = Some s1 \<and> DEV_ADDR s1 = DEV_ADDR s
    \<and> t_res K (UEP0_CTRL s1) = T_RES_ACK K \<and> UEP0_TX_LEN s1 = 0
    \<and> handleEp0In K s1 = Some s2
    \<and> DEV_ADDR s2 = (DEV_ADDR s AND UDA_GP_BIT K) OR ucast (setup_word s 2 AND 0xFF)"
proof -
  have ne: "SET_ADDRESS K \<noteq> GET_DESCRIPTOR K" using assms(1) by (auto simp: sdk_ok_def)
  let ?u = "(setup_start K s)\<lparr>devAddr := ucast (setup_word s 2 AND 0xFF)\<rparr>"
  let ?s1 = "setup_reply K False ?u"
  have run: "handleSetup K s = Some ?s1"
    using assms(2,4) ne by (simp add: handleSetup_start standard_request_def)
  have keep: "DEV_ADDR (setup_start K s) = DEV_ADDR s" by (simp add: setup_start_def)
  have s1: "DEV_ADDR ?s1 = DEV_ADDR s" "t_res K (UEP0_CTRL ?s1) = T_RES_ACK K" "UEP0_TX_LEN ?s1 = 0"
    "setupLen ?s1 = 0" "setupReqType ?s1 = ep0 s ! 0" "setupReqCode ?s1 = ep0 s ! 1"
    "devAddr ?s1 = ucast (setup_word s 2 AND 0xFF)"
    using assms(3,5) t_res_simps(1) [OF assms(1)] keep by (simp_all add: setup_reply_def)
  then have "\<exists>s2. handleEp0In K ?s1 = Some s2
    \<and> DEV_ADDR s2 = (DEV_ADDR s AND UDA_GP_BIT K) OR ucast (setup_word s 2 AND 0xFF)"
    using assms(2,4) ne by (simp add: handleEp0In_def)
  then show ?thesis using run s1(1-3) by blast
qed

theorem set_address_after_status_witness:
  "let s = usb_static\<lparr>ep0 := [0x00, 0x05, 0x17, 0, 0, 0, 0, 0] @ replicate 56 0\<rparr> in
   \<exists>s1 s2. handleSetup wch s = Some s1 \<and> DEV_ADDR s1 = DEV_ADDR s \<and> handleEp0In wch s1 = Some s2
     \<and> DEV_ADDR s2 = (DEV_ADDR s AND UDA_GP_BIT wch) OR 0x17"
proof -
  let ?s = "usb_static\<lparr>ep0 := [0x00, 0x05, 0x17, 0, 0, 0, 0, 0] @ replicate 56 0\<rparr>"
  have w: "setup_word ?s 6 = 0" "setup_word ?s 2 = 0x17" by (simp_all add: setup_word_def)
  have u: "(ucast ((0x17 :: u16) AND 0xFF) :: u8) = 0x17" by simp
  have h: "ep0 ?s ! 0 AND REQ_TYP_MASK wch = REQ_TYP_STANDARD wch" "ep0 ?s ! 0 AND UEP_IN = 0"
    "ep0 ?s ! 1 = SET_ADDRESS wch"
    by (simp_all add: UEP_IN_def)
  show ?thesis
    unfolding Let_def using set_address_after_status [OF wch_ok h w(1), unfolded w(2) u] by blast
qed

text \<open>No hardware event: only calls of the main loop.\<close>

fun quiet :: "usb_op \<Rightarrow> bool" where
  "quiet (UsbHw fg st n mis e0 e2) = False"
| "quiet op = True"

lemma busy_quiet_run:
  assumes "list_all quiet ops" "INT_FG s = 0" "ep3Busy s"
  shows "\<exists>acc s'. usb_run K ops s = Some (acc, s')
    \<and> ep3Busy s' \<and> UEP3_CTRL s' = UEP3_CTRL s \<and> ep3_log s' = ep3_log s"
  using assms
proof (induction ops arbitrary: s)
  case (Cons op ops)
  obtain a t where t: "usb_step K op s = Some (a, t)" "INT_FG t = 0" "ep3Busy t"
    "UEP3_CTRL t = UEP3_CTRL s" "ep3_log t = ep3_log s"
    using Cons.prems
    by (cases op)
      (auto simp: usb_write_def usb_read_def usb_tick_def tick_tx_def tick_rx_def pump_def
        case_prod_beta intro: that)
  then show ?case using Cons.IH [OF _ t(2,3)] Cons.prems(1) by force
qed simp



end
