(* ===== verification/UsbEp0.thy ===== *)
theory UsbEp0
  imports UsbControl
begin

text \<open>
  Control transfers next to the bulk traffic: which SETUP packets leave the bulk endpoints alone, and the
  invariant of endpoint 0 under which no stage of a control transfer reads past a buffer.
\<close>

subsection \<open>The requests that are not served in isolation\<close>

text \<open>Word \<open>i\<close> of a SETUP packet.\<close>

definition pkt_word :: "u8 list \<Rightarrow> nat \<Rightarrow> u16" where
  "pkt_word p i = ucast (p ! i) OR push_bit 8 (ucast (p ! (i + 1)))"

definition class_pkt :: "sdk \<Rightarrow> u8 list \<Rightarrow> u8 \<Rightarrow> bool" where
  "class_pkt K p code \<longleftrightarrow> p ! 0 AND REQ_TYP_MASK K \<noteq> REQ_TYP_STANDARD K \<and> p ! 0 AND REQ_TYP_CLASS K \<noteq> 0 \<and> p ! 1 = code"

text \<open>GET_LINE_CODING of more bytes than \<open>lcWire_\<close> has.\<close>

definition over_reads :: "sdk \<Rightarrow> u8 list \<Rightarrow> bool" where
  "over_reads K p \<longleftrightarrow> class_pkt K p (GET_LINE_CODING K) \<and> 7 < unat (pkt_word p 6)"

text \<open>ENDPOINT_HALT, set or cleared, on bulk OUT: it overrides the flow control.\<close>

definition halts_ep2 :: "sdk \<Rightarrow> u8 list \<Rightarrow> bool" where
  "halts_ep2 K p \<longleftrightarrow> p ! 0 AND REQ_TYP_MASK K = REQ_TYP_STANDARD K \<and> p ! 0 AND REQ_RECIP_MASK K = RECIP_ENDP K
     \<and> p ! 1 \<in> {CLEAR_FEATURE K, SET_FEATURE K} \<and> ucast (pkt_word p 2 AND 0xFF) = FEAT_ENDP_HALT K
     \<and> ucast (pkt_word p 4 AND 0xFF) = (0x02 :: u8)"

text \<open>SET_CONTROL_LINE_STATE with DTR: the host opens the port, and the device may drop what it has received.\<close>

definition opens_port :: "sdk \<Rightarrow> u8 list \<Rightarrow> bool" where
  "opens_port K p \<longleftrightarrow> class_pkt K p (SET_LINE_CTLSTE K) \<and> pkt_word p 2 AND 0x0001 \<noteq> 0"

definition setup_ok :: "sdk \<Rightarrow> u8 list \<Rightarrow> bool" where
  "setup_ok K p \<longleftrightarrow> length p = 8 \<and> \<not> over_reads K p \<and> \<not> halts_ep2 K p"

text \<open>The SETUP packet in the endpoint buffer.\<close>

abbreviation setup_pkt :: "usb \<Rightarrow> u8 list" where
  "setup_pkt s \<equiv> take 8 (ep0 s)"

lemma setup_pkt_sel:
  assumes "length (ep0 s) = 64"
  shows "setup_pkt s ! 0 = ep0 s ! 0" "setup_pkt s ! 1 = ep0 s ! 1" "pkt_word (setup_pkt s) 2 = setup_word s 2"
    "pkt_word (setup_pkt s) 4 = setup_word s 4" "pkt_word (setup_pkt s) 6 = setup_word s 6"
  using assms by (simp_all add: pkt_word_def setup_word_def)

subsection \<open>The invariant of endpoint 0\<close>

text \<open>While it answers IN in a descriptor read, the cursor covers what is left to send.\<close>

definition ep0_inv :: "sdk \<Rightarrow> usb \<Rightarrow> bool" where
  "ep0_inv K s \<longleftrightarrow> (t_res K (UEP0_CTRL s) = T_RES_ACK K \<and> setupReqType s AND REQ_TYP_MASK K = REQ_TYP_STANDARD K
       \<and> setupReqCode s = GET_DESCRIPTOR K
     \<longrightarrow> setupLen s = 0 \<or> (\<exists>d. descr_ptr s = Some d \<and> unat (setupLen s) \<le> length d))"

text \<open>What the bulk endpoints see of a state.\<close>

definition bulk_view :: "usb \<Rightarrow> u16 \<times> bool \<times> u8 \<times> u8 \<times> u16 \<times> u8 list \<times> u8 ring" where
  "bulk_view s = (UEP2_CTRL s, ep2Nak s, INT_FG s, INT_ST s, RX_LEN s, ep2 s, tx_ring s)"

text \<open>One stage of a control transfer: the bulk view and the request survive.\<close>

definition ctl_keep :: "usb \<Rightarrow> usb \<Rightarrow> bool" where
  "ctl_keep s t \<longleftrightarrow> bulk_view t = bulk_view s \<and> rx_ring t = rx_ring s \<and> UEP0_CTRL t = UEP0_CTRL s
     \<and> setupReqType t = setupReqType s \<and> setupReqCode t = setupReqCode s"

lemma ctl_keep_refl [simp]: "ctl_keep s s"
  by (simp add: ctl_keep_def)

lemma ctl_keep_trans: "ctl_keep s t \<Longrightarrow> ctl_keep t u \<Longrightarrow> ctl_keep s u"
  by (simp add: ctl_keep_def)

lemma stage_ctl: "stage_descr n s = Some t \<Longrightarrow> ctl_keep s t"
  by (auto simp: stage_descr_def ctl_keep_def bulk_view_def split: option.splits Option.bind_splits)

text \<open>The two kinds of request that are served as they should: all but the switches of bulk OUT.\<close>

lemma class_ctl:
  assumes "class_request K s = (e, t)"
  shows "ctl_keep s (t\<lparr>rx_ring := rx_ring s\<rparr>)"
    and "rx_ring t = rx_ring s \<or> setupReqType s AND REQ_TYP_CLASS K \<noteq> 0 \<and> setupReqCode s = SET_LINE_CTLSTE K
           \<and> setupValue s AND 0x0001 \<noteq> 0 \<and> rx_ring t = ring_clear (rx_ring s)"
  using assms by (auto simp: class_request_def ctl_keep_def bulk_view_def Let_def split: if_splits)

lemma feature_ctl:
  assumes "ucast (setupValue s AND 0xFF) = FEAT_ENDP_HALT K \<Longrightarrow> setupReqType s AND REQ_RECIP_MASK K = RECIP_ENDP K \<Longrightarrow> ucast (setupIndex s AND 0xFF) \<noteq> (0x02 :: u8)"
    "RECIP_ENDP K \<noteq> RECIP_DEVICE K"
  shows "clear_feature K s = (e, t) \<Longrightarrow> ctl_keep s t" "set_feature K s = (e, t) \<Longrightarrow> ctl_keep s t"
  using assms
  by (auto simp: clear_feature_def set_feature_def clear_halt_def set_halt_def Let_def ctl_keep_def bulk_view_def
      UEP_OUT_def UEP2_def split: if_splits)

lemma status_ctl: "get_status K s = (e, t) \<Longrightarrow> ctl_keep s t"
  by (auto simp: get_status_def limit_len_def Let_def ctl_keep_def bulk_view_def split: if_splits option.splits)

text \<open>A descriptor request answered: the cursor covers the rest of the reply.\<close>

lemma get_descriptor_covers:
  assumes "length (ep0 s) = 64" "descr_ptr s = None" "get_descriptor K s = Some (e, t)"
  shows "ctl_keep s t \<and> (\<not> e \<longrightarrow> (\<exists>d. descr_ptr t = Some d \<and> unat (setupLen t) - min 64 (unat (setupLen t)) \<le> length d))"
proof (cases "descriptor_for K (setupValue s)")
  case None
  then show ?thesis
    using assms by (cases "0 < setupLen s") (auto simp: get_descriptor_def Let_def stage_none ctl_keep_def bulk_view_def)
next
  case (Some x)
  obtain tab n where d: "x = (tab, n)" by fastforce
  then have n: "unat n = length tab" using descriptor_for_len(1) [of K _ tab n] Some by simp
  define l where "l = (if setupLen s > n then n else setupLen s)"
  let ?t = "s\<lparr>descr_ptr := Some tab, setupLen := l\<rparr>"
  have le: "unat l \<le> length tab" using n by (auto simp: l_def word_less_nat_alt)
  have "get_descriptor K s = map_option (Pair False) (stage_descr (clampEp0 l) ?t)"
    using Some d by (auto simp: get_descriptor_def Let_def l_def)
  moreover have "min 64 (unat l) \<le> length tab" using le by simp
  ultimately have "t = ?t\<lparr>ep0 := take (min 64 (unat l)) tab @ drop (min 64 (unat l)) (ep0 s),
      descr_ptr := Some (drop (min 64 (unat l)) tab)\<rparr>"
    using stage_some [where s = ?t and d = tab and l = l] assms(1,3) by simp
  then show ?thesis using le by (simp add: ctl_keep_def bulk_view_def diff_le_mono)
qed

lemma standard_ctl:
  assumes "length (ep0 s) = 64" "descr_ptr s = None" "standard_request K s = Some (e, t)" "RECIP_ENDP K \<noteq> RECIP_DEVICE K"
    "\<not> (setupReqCode s \<in> {CLEAR_FEATURE K, SET_FEATURE K} \<and> setupReqType s AND REQ_RECIP_MASK K = RECIP_ENDP K
        \<and> ucast (setupValue s AND 0xFF) = FEAT_ENDP_HALT K \<and> ucast (setupIndex s AND 0xFF) = (0x02 :: u8))"
  shows "ctl_keep s t \<and> (setupReqCode s = GET_DESCRIPTOR K \<and> \<not> e
      \<longrightarrow> (\<exists>d. descr_ptr t = Some d \<and> unat (setupLen t) - min 64 (unat (setupLen t)) \<le> length d))"
proof -
  have simple: "ctl_keep s (s\<lparr>devAddr := a\<rparr>)" "ctl_keep s (limit_len 1 (s\<lparr>ep0 := b\<rparr>))"
    "ctl_keep s (s\<lparr>devConfig := c, enumerated := True\<rparr>)" for a b c
    by (simp_all add: ctl_keep_def bulk_view_def limit_len_def)
  show ?thesis
  proof (cases "setupReqCode s = GET_DESCRIPTOR K")
    case True
    then show ?thesis using get_descriptor_covers [OF assms(1,2)] assms(3) by (simp add: standard_request_def)
  next
    case False
    then have "ctl_keep s t"
      using assms(3,5) feature_ctl [OF _ assms(4), of s e t] status_ctl [of K s e t]
      unfolding standard_request_def Let_def by (auto simp: simple split: if_splits)
    then show ?thesis using False by simp
  qed
qed

lemma reply_ctl:
  assumes "sdk_ok K" "UEP0_CTRL s = T_TOG K OR T_RES_NAK K OR R_TOG K OR R_RES_NAK K"
    "\<not> e \<Longrightarrow> setupReqType s AND REQ_TYP_MASK K = REQ_TYP_STANDARD K \<Longrightarrow> setupReqCode s = GET_DESCRIPTOR K \<Longrightarrow>
      \<exists>d. descr_ptr s = Some d \<and> unat (setupLen s) - min 64 (unat (setupLen s)) \<le> length d"
  shows "ep0_inv K (setup_reply K e s)" "bulk_view (setup_reply K e s) = bulk_view s"
    "rx_ring (setup_reply K e s) = rx_ring s"
proof -
  note f = t_res_simps [OF assms(1)]
  have ne: "T_RES_STALL K \<noteq> T_RES_ACK K" "T_RES_NAK K \<noteq> T_RES_ACK K" using sdk_values(7) [OF assms(1)] by auto
  show "ep0_inv K (setup_reply K e s)"
  proof (cases "\<not> e \<and> setupReqType s AND UEP_IN \<noteq> 0")
    case True
    have "clampEp0 (setupLen s) \<le> setupLen s" by (simp add: word_le_nat_alt unat_clampEp0)
    then have "unat (setupLen s - clampEp0 (setupLen s)) = unat (setupLen s) - min 64 (unat (setupLen s))"
      by (simp add: unat_sub unat_clampEp0)
    then show ?thesis using True assms(3) setup_reply_in [of s K] by (simp add: ep0_inv_def)
  next
    case False
    then show ?thesis using ne f assms(2) by (auto simp: ep0_inv_def setup_reply_def)
  qed
  show "bulk_view (setup_reply K e s) = bulk_view s" "rx_ring (setup_reply K e s) = rx_ring s"
    by (simp_all add: setup_reply_def bulk_view_def Let_def)
qed

text \<open>A SETUP packet that is none of the excluded requests.\<close>

lemma handleSetup_ctl:
  assumes "sdk_ok K" "usb_ok s" "setup_ok K (setup_pkt s)"
  shows "\<exists>t. handleSetup K s = Some t \<and> usb_ok t \<and> ep0_inv K t \<and> bulk_view t = bulk_view s
    \<and> (rx_ring t = rx_ring s \<or> opens_port K (setup_pkt s) \<and> rx_ring t = ring_clear (rx_ring s))"
proof -
  let ?s = "setup_start K s"
  have len: "length (ep0 s) = 64" "length (lcWire s) = 7" using assms(2) by (simp_all add: usb_ok_def)
  note sel = setup_pkt_sel [OF len(1)]
  have start: "bulk_view ?s = bulk_view s" "rx_ring ?s = rx_ring s" by (simp_all add: setup_start_def bulk_view_def)
  have ne: "RECIP_ENDP K \<noteq> RECIP_DEVICE K" using assms(1) by (auto simp: sdk_ok_def)
  have "\<not> (gets_line_coding K s \<and> 7 < unat (setup_word s 6))"
    using assms(3) sel by (auto simp: setup_ok_def over_reads_def class_pkt_def gets_line_coding_def)
  then obtain t where t: "handleSetup K s = Some t" using dispatch_total [OF len, of K] by blast
  have ok: "usb_ok t" using handleSetup_keep [OF t] assms(2) by (simp add: tx_keep_def)
  obtain e u where u: "t = setup_reply K e u" "bulk_view u = bulk_view ?s" "UEP0_CTRL u = UEP0_CTRL ?s"
    "rx_ring u = rx_ring s \<or> opens_port K (setup_pkt s) \<and> rx_ring u = ring_clear (rx_ring s)"
    "setupReqType u = ep0 s ! 0"
    "\<not> e \<Longrightarrow> ep0 s ! 0 AND REQ_TYP_MASK K = REQ_TYP_STANDARD K \<Longrightarrow> setupReqCode u = GET_DESCRIPTOR K \<Longrightarrow>
      \<exists>d. descr_ptr u = Some d \<and> unat (setupLen u) - min 64 (unat (setupLen u)) \<le> length d"
  proof (cases "ep0 s ! 0 AND REQ_TYP_MASK K = REQ_TYP_STANDARD K")
    case True
    obtain e u where r: "standard_request K ?s = Some (e, u)" "t = setup_reply K e u"
      using t True by (auto simp: handleSetup_start split: Option.bind_splits)
    have "\<not> (setupReqCode ?s \<in> {CLEAR_FEATURE K, SET_FEATURE K} \<and> setupReqType ?s AND REQ_RECIP_MASK K = RECIP_ENDP K
        \<and> ucast (setupValue ?s AND 0xFF) = FEAT_ENDP_HALT K \<and> ucast (setupIndex ?s AND 0xFF) = (0x02 :: u8))"
      using assms(3) True sel by (simp add: setup_ok_def halts_ep2_def)
    note c = standard_ctl [OF _ _ r(1) ne this]
    show ?thesis
    proof (rule that [of e u])
      show "\<exists>d. descr_ptr u = Some d \<and> unat (setupLen u) - min 64 (unat (setupLen u)) \<le> length d"
        if "\<not> e" "ep0 s ! 0 AND REQ_TYP_MASK K = REQ_TYP_STANDARD K" "setupReqCode u = GET_DESCRIPTOR K"
        using that c len(1) by (simp add: ctl_keep_def)
    qed (use r(2) c len(1) start in \<open>simp_all add: ctl_keep_def\<close>)
  next
    case False
    obtain e v u where r: "class_request K ?s = (e, v)" "stage_descr (clampEp0 (setupLen v)) v = Some u" "t = setup_reply K e u"
      using t False by (auto simp: handleSetup_start split: Option.bind_splits prod.splits)
    have c: "ctl_keep ?s (v\<lparr>rx_ring := rx_ring s\<rparr>)" using class_ctl(1) [OF r(1)] start(2) by simp
    have d: "ctl_keep v u" by (rule stage_ctl [OF r(2)])
    have "rx_ring u = rx_ring s \<or> opens_port K (setup_pkt s) \<and> rx_ring u = ring_clear (rx_ring s)"
      using class_ctl(2) [OF r(1)] d start(2) False sel by (auto simp: opens_port_def class_pkt_def ctl_keep_def)
    moreover have "bulk_view u = bulk_view ?s" "UEP0_CTRL u = UEP0_CTRL ?s" "setupReqType u = ep0 s ! 0"
      using c d by (simp_all add: ctl_keep_def bulk_view_def)
    ultimately show ?thesis using that [of e u] r(3) False by blast
  qed
  have r: "ep0_inv K t" "bulk_view t = bulk_view s" "rx_ring t = rx_ring u"
    unfolding u(1) using reply_ctl [OF assms(1), of u e] u(2,3,5,6) start(1) by simp_all
  then show ?thesis using t ok u(4) by simp
qed

text \<open>A completed IN on endpoint 0, while it acknowledges, and a completed OUT.\<close>

lemma handleEp0In_ctl:
  assumes "sdk_ok K" "usb_ok s" "ep0_inv K s" "t_res K (UEP0_CTRL s) = T_RES_ACK K"
  shows "\<exists>t. handleEp0In K s = Some t \<and> usb_ok t \<and> ep0_inv K t \<and> bulk_view t = bulk_view s \<and> rx_ring t = rx_ring s"
proof -
  have len: "length (ep0 s) = 64" using assms(2) by (simp add: usb_ok_def)
  note f = t_res_simps [OF assms(1)]
  define u where "u = (if setupLen s = 0
      then s\<lparr>UEP0_CTRL := set_field (UEP0_CTRL s) (R_RES_MASK K) (R_TOG K OR R_RES_ACK K)\<rparr> else s)"
  have u: "setupReqType u = setupReqType s" "setupReqCode u = setupReqCode s" "setupLen u = setupLen s"
    "ep0 u = ep0 s" "descr_ptr u = descr_ptr s" "t_res K (UEP0_CTRL u) = t_res K (UEP0_CTRL s)"
    "bulk_view u = bulk_view s" "rx_ring u = rx_ring s"
    using f(2) by (simp_all add: u_def bulk_view_def)
  have run: "handleEp0In K s =
    (if setupReqType u AND REQ_TYP_MASK K = REQ_TYP_STANDARD K then
       (if setupReqCode u = GET_DESCRIPTOR K then
          (let len = clampEp0 (setupLen u) in do {
             buf \<leftarrow> copy_prefix (ep0 u) (descr_ptr u) (unat len);
             Some (u\<lparr>ep0 := buf, setupLen := setupLen u - len, descr_ptr := map_option (drop (unat len)) (descr_ptr u),
                     UEP0_TX_LEN := len, UEP0_CTRL := UEP0_CTRL u XOR T_TOG K\<rparr>) })
        else if setupReqCode u = SET_ADDRESS K then Some (u\<lparr>DEV_ADDR := (DEV_ADDR u AND UDA_GP_BIT K) OR devAddr u\<rparr>)
        else Some u)
     else Some u)"
    unfolding handleEp0In_def u_def by (simp only: Let_def)
  have "\<exists>t. handleEp0In K s = Some t \<and> ep0_inv K t \<and> bulk_view t = bulk_view s \<and> rx_ring t = rx_ring s"
  proof (cases "setupReqType s AND REQ_TYP_MASK K = REQ_TYP_STANDARD K \<and> setupReqCode s = GET_DESCRIPTOR K")
    case True
    let ?n = "clampEp0 (setupLen s)"
    have n: "unat ?n = min 64 (unat (setupLen s))" by (rule unat_clampEp0)
    have le: "?n \<le> setupLen s" by (simp add: word_le_nat_alt n)
    have sub: "unat (setupLen s - ?n) = unat (setupLen s) - unat ?n" by (rule unat_sub [OF le])
    have zero: "setupLen s = 0 \<Longrightarrow> ?n = 0" by (simp add: clampEp0_def kEp0Size_def)
    have src: "setupLen s = 0 \<or> (\<exists>d. descr_ptr s = Some d \<and> unat (setupLen s) \<le> length d)"
      using assms(3,4) True by (simp add: ep0_inv_def)
    obtain buf where buf: "copy_prefix (ep0 s) (descr_ptr s) (unat ?n) = Some buf"
    proof (cases "setupLen s = 0")
      case True
      then show ?thesis using that zero by (simp add: copy_prefix_def)
    next
      case False
      then obtain d where d: "descr_ptr s = Some d" "unat (setupLen s) \<le> length d" using src by blast
      moreover have "min 64 (unat (setupLen s)) \<le> length d" using d(2) by simp
      ultimately have "copy_prefix (ep0 s) (descr_ptr s) (unat ?n) \<noteq> None" using len n by (simp add: copy_prefix_def)
      then show ?thesis using that by blast
    qed
    let ?t = "u\<lparr>ep0 := buf, setupLen := setupLen s - ?n, descr_ptr := map_option (drop (unat ?n)) (descr_ptr s),
        UEP0_TX_LEN := ?n, UEP0_CTRL := UEP0_CTRL u XOR T_TOG K\<rparr>"
    have "handleEp0In K s = Some ?t" unfolding run using True buf by (simp add: u Let_def)
    moreover have "setupLen s - ?n = 0 \<or> (\<exists>d. map_option (drop (unat ?n)) (descr_ptr s) = Some d \<and> unat (setupLen s - ?n) \<le> length d)"
      using src zero sub by auto
    then have "ep0_inv K ?t" by (simp add: ep0_inv_def)
    moreover have "bulk_view ?t = bulk_view s" "rx_ring ?t = rx_ring s" using u(7,8) by (simp_all add: bulk_view_def)
    ultimately show ?thesis by blast
  next
    case False
    have "ep0_inv K u" "ep0_inv K (u\<lparr>DEV_ADDR := a\<rparr>)" for a using False by (auto simp: ep0_inv_def u(1,2))
    moreover have "bulk_view (u\<lparr>DEV_ADDR := a\<rparr>) = bulk_view s" for a using u(7) by (simp add: bulk_view_def)
    ultimately show ?thesis unfolding run using False u(7,8) by (auto simp: u(1,2))
  qed
  then show ?thesis using handleEp0In_keep assms(2) by (auto simp: tx_keep_def)
qed

lemma handleEp0Out_ctl:
  assumes "ep0_inv K s"
  shows "ep0_inv K (handleEp0Out K s)" "bulk_view (handleEp0Out K s) = bulk_view s" "rx_ring (handleEp0Out K s) = rx_ring s"
  using assms by (auto simp: handleEp0Out_def decodeLineCoding_def Let_def ep0_inv_def bulk_view_def)

end
