(* ===== verification/UsbRx.thy ===== *)
theory UsbRx
  imports UsbEp0 "HOL-Library.Sublist"
begin

text \<open>
  The host-to-device direction of the USB device and the two timing rules of its bulk endpoints: flow
  control on bulk OUT loses no byte, and short packets on bulk IN wait for the coalescing time and no
  longer.
\<close>

subsection \<open>The bus side\<close>

text \<open>The documented encoding of the interrupt flags and of the interrupt status: three single bits, a token field and an endpoint field.\<close>

definition irq_ok :: "sdk \<Rightarrow> bool" where
  "irq_ok K \<longleftrightarrow> UIF_TRANSFER K \<noteq> 0 \<and> TOKEN_OUT K \<noteq> TOKEN_IN K \<and> TOKEN_SETUP K \<notin> {TOKEN_IN K, TOKEN_OUT K}
     \<and> UIF_TRANSFER K AND UIF_BUS_RST K = 0 \<and> UIF_SUSPEND K AND UIF_TRANSFER K = 0 \<and> UIF_SUSPEND K AND UIF_BUS_RST K = 0
     \<and> distinct [TOKEN_IN K OR UEP0, TOKEN_IN K OR UEP1, TOKEN_IN K OR UEP3, TOKEN_OUT K OR UEP0,
                 TOKEN_OUT K OR UEP2]"

lemma wch_irq_ok: "irq_ok wch"
  by (simp add: irq_ok_def UEP0_def UEP1_def UEP2_def UEP3_def)

definition is_tok :: "sdk \<Rightarrow> u8 \<Rightarrow> u8 \<Rightarrow> u8 \<Rightarrow> bool" where
  "is_tok K st tok ep \<longleftrightarrow> st AND UIS_TOKEN_MASK K = tok
     \<and> st AND (UIS_TOKEN_MASK K OR UIS_ENDP_MASK K) = tok OR ep"

lemma irq_ne:
  assumes "irq_ok K"
  shows "UIF_TRANSFER K \<noteq> 0" "TOKEN_OUT K \<noteq> TOKEN_IN K" "TOKEN_IN K \<noteq> TOKEN_OUT K"
    "TOKEN_IN K OR UEP3 \<noteq> TOKEN_IN K OR UEP0" "TOKEN_IN K OR UEP3 \<noteq> TOKEN_IN K OR UEP1"
    "TOKEN_OUT K OR UEP2 \<noteq> TOKEN_OUT K OR UEP0" "TOKEN_OUT K OR UEP2 \<noteq> TOKEN_IN K OR UEP3"
    "TOKEN_SETUP K \<noteq> TOKEN_IN K" "TOKEN_SETUP K \<noteq> TOKEN_OUT K" "TOKEN_OUT K OR UEP0 \<noteq> TOKEN_OUT K OR UEP2"
    "TOKEN_IN K OR UEP0 \<noteq> TOKEN_IN K OR UEP3"
  using assms by (auto simp: irq_ok_def)

lemma irq_flags:
  assumes "irq_ok K"
  shows "UIF_TRANSFER K AND UIF_BUS_RST K = 0" "UIF_SUSPEND K AND UIF_TRANSFER K = 0" "UIF_SUSPEND K AND UIF_BUS_RST K = 0"
  using assms by (simp_all add: irq_ok_def)

lemma tok_apart: "irq_ok K \<Longrightarrow> is_tok K st (TOKEN_IN K) UEP3 \<Longrightarrow> \<not> is_tok K st (TOKEN_OUT K) UEP2"
  using irq_ne(3) [of K] by (simp add: is_tok_def)

lemma tok_in_out: "irq_ok K \<Longrightarrow> is_tok K st (TOKEN_IN K) ep \<Longrightarrow> \<not> is_tok K st (TOKEN_OUT K) UEP2 \<and> \<not> is_tok K st (TOKEN_SETUP K) UEP0"
  using irq_ne(3,8) [of K] by (simp add: is_tok_def)

lemma tok_out: "irq_ok K \<Longrightarrow> is_tok K st (TOKEN_OUT K) ep \<Longrightarrow> \<not> is_tok K st (TOKEN_SETUP K) UEP0"
  using irq_ne(9) [of K] by (simp add: is_tok_def)

lemma tok_out0: "irq_ok K \<Longrightarrow> is_tok K st (TOKEN_OUT K) UEP0 \<Longrightarrow> \<not> is_tok K st (TOKEN_OUT K) UEP2"
  using irq_ne(10) [of K] by (auto simp: is_tok_def)

lemma tok_setup: "irq_ok K \<Longrightarrow> is_tok K st (TOKEN_SETUP K) UEP0 \<Longrightarrow> \<not> is_tok K st (TOKEN_OUT K) UEP2"
  using irq_ne(9) [of K] by (auto simp: is_tok_def)

text \<open>
  Bus events and calls. The peripheral holds one completion at a time (\<open>INT_BUSY\<close>): while the transfer
  flag is set, and while the endpoint answers NAK, a packet of the host is refused and nothing changes. A
  SETUP is taken whatever endpoint 0 answers. The bus may be suspended, resumed and reset at any moment.
\<close>

datatype bus_op =
    HostOut u8 "u8 list"
  | HostIn u8
  | HostSetup u8 "u8 list"
  | HostEp0In u8
  | HostEp0Out u8 "u8 list"
  | HostSuspend u8
  | HostReset
  | Call usb_op

definition bus_free :: "sdk \<Rightarrow> usb \<Rightarrow> bool" where
  "bus_free K s \<longleftrightarrow> INT_FG s AND UIF_TRANSFER K = 0"

text \<open>A completion: the flag, the status and the byte count.\<close>

definition complete :: "sdk \<Rightarrow> u8 \<Rightarrow> nat \<Rightarrow> usb \<Rightarrow> usb" where
  "complete K st n s = s\<lparr>INT_FG := INT_FG s OR UIF_TRANSFER K, INT_ST := st, RX_LEN := of_nat n\<rparr>"

definition host_out :: "sdk \<Rightarrow> u8 \<Rightarrow> u8 list \<Rightarrow> usb \<Rightarrow> u8 list \<times> usb" where
  "host_out K st pkt s =
    (if bus_free K s \<and> r_res K (UEP2_CTRL s) = R_RES_ACK K \<and> is_tok K st (TOKEN_OUT K) UEP2 \<and> length pkt \<le> 64
     then (pkt, (complete K st (length pkt) s)\<lparr>ep2 := pkt @ drop (length pkt) (ep2 s)\<rparr>)
     else ([], s))"

definition host_in :: "sdk \<Rightarrow> u8 \<Rightarrow> usb \<Rightarrow> usb" where
  "host_in K st s =
    (if bus_free K s \<and> t_res K (UEP3_CTRL s) = T_RES_ACK K \<and> is_tok K st (TOKEN_IN K) UEP3
     then s\<lparr>INT_FG := INT_FG s OR UIF_TRANSFER K, INT_ST := st\<rparr> else s)"

definition host_setup :: "sdk \<Rightarrow> u8 \<Rightarrow> u8 list \<Rightarrow> usb \<Rightarrow> usb" where
  "host_setup K st pkt s =
    (if bus_free K s \<and> is_tok K st (TOKEN_SETUP K) UEP0 \<and> length pkt = 8
     then (complete K st 8 s)\<lparr>ep0 := pkt @ drop 8 (ep0 s)\<rparr> else s)"

definition host_ep0_in :: "sdk \<Rightarrow> u8 \<Rightarrow> usb \<Rightarrow> usb" where
  "host_ep0_in K st s =
    (if bus_free K s \<and> t_res K (UEP0_CTRL s) = T_RES_ACK K \<and> is_tok K st (TOKEN_IN K) UEP0
     then s\<lparr>INT_FG := INT_FG s OR UIF_TRANSFER K, INT_ST := st\<rparr> else s)"

definition host_ep0_out :: "sdk \<Rightarrow> u8 \<Rightarrow> u8 list \<Rightarrow> usb \<Rightarrow> usb" where
  "host_ep0_out K st pkt s =
    (if bus_free K s \<and> r_res K (UEP0_CTRL s) = R_RES_ACK K \<and> is_tok K st (TOKEN_OUT K) UEP0 \<and> length pkt \<le> 64
     then (complete K st (length pkt) s)\<lparr>ep0 := pkt @ drop (length pkt) (ep0 s)\<rparr> else s)"

definition host_suspend :: "sdk \<Rightarrow> u8 \<Rightarrow> usb \<Rightarrow> usb" where
  "host_suspend K mis s = s\<lparr>INT_FG := INT_FG s OR UIF_SUSPEND K, MIS_ST := mis\<rparr>"

definition host_reset :: "sdk \<Rightarrow> usb \<Rightarrow> usb" where
  "host_reset K s = s\<lparr>INT_FG := INT_FG s OR UIF_BUS_RST K\<rparr>"

text \<open>One step: the bytes accepted from the host, the bytes read by the program, the next state.\<close>

fun bus_step :: "sdk \<Rightarrow> bus_op \<Rightarrow> usb \<Rightarrow> (u8 list \<times> u8 list \<times> usb) option" where
  "bus_step K (HostOut st pkt) s = (let (acc, s') = host_out K st pkt s in Some (acc, [], s'))"
| "bus_step K (HostIn st) s = Some ([], [], host_in K st s)"
| "bus_step K (HostSetup st pkt) s = Some ([], [], host_setup K st pkt s)"
| "bus_step K (HostEp0In st) s = Some ([], [], host_ep0_in K st s)"
| "bus_step K (HostEp0Out st pkt) s = Some ([], [], host_ep0_out K st pkt s)"
| "bus_step K (HostSuspend mis) s = Some ([], [], host_suspend K mis s)"
| "bus_step K HostReset s = Some ([], [], host_reset K s)"
| "bus_step K (Call (UsbRead n)) s = (let (xs, s') = usb_read n s in Some ([], xs, s'))"
| "bus_step K (Call op) s = map_option (\<lambda>(_, s'). ([], [], s')) (usb_step K op s)"

fun bus_run :: "sdk \<Rightarrow> bus_op list \<Rightarrow> usb \<Rightarrow> (u8 list \<times> u8 list \<times> usb) option" where
  "bus_run K [] s = Some ([], [], s)"
| "bus_run K (op # ops) s = do {
     (acc, rd, s) \<leftarrow> bus_step K op s;
     (acc', rd', s) \<leftarrow> bus_run K ops s;
     Some (acc @ acc', rd @ rd', s) }"

text \<open>
  The calls of the main loop, and all of the bus but the control requests excluded above. \<open>R\<close> says whether
  bus resets are among the operations: a reset empties both rings, so within a session there is none.
\<close>

fun main_loop_op :: "bool \<Rightarrow> sdk \<Rightarrow> bus_op \<Rightarrow> bool" where
  "main_loop_op R K (Call op) = quiet op"
| "main_loop_op R K (HostSetup st pkt) = setup_ok K pkt"
| "main_loop_op R K HostReset = R"
| "main_loop_op R K _ = True"

text \<open>No port is opened and no bus reset signalled, in the operation and in what waits to be served.\<close>

fun same_session :: "sdk \<Rightarrow> bus_op \<Rightarrow> bool" where
  "same_session K (HostSetup st pkt) = (\<not> opens_port K pkt)"
| "same_session K HostReset = False"
| "same_session K _ = True"

definition settled :: "sdk \<Rightarrow> usb \<Rightarrow> bool" where
  "settled K s \<longleftrightarrow> INT_FG s AND UIF_BUS_RST K = 0
     \<and> (bus_free K s \<or> \<not> (is_tok K (INT_ST s) (TOKEN_SETUP K) UEP0 \<and> opens_port K (setup_pkt s)))"

text \<open>The packet in the endpoint buffer that has not been taken over yet, and all that waits to be read.\<close>

definition pending :: "sdk \<Rightarrow> usb \<Rightarrow> u8 list" where
  "pending K s = (if \<not> bus_free K s \<and> is_tok K (INT_ST s) (TOKEN_OUT K) UEP2
                  then take (unat (RX_LEN s)) (ep2 s) else [])"

definition rx_bytes :: "sdk \<Rightarrow> usb \<Rightarrow> u8 list" where
  "rx_bytes K s = ring_list (rx_ring s) @ pending K s"

text \<open>
  The invariant: bulk OUT acknowledges only while the receive ring has room for a packet, is held
  exactly while \<open>ep2Nak_\<close> remembers it, endpoint 0 is in a state its handlers can serve, a bus reset is
  signalled only where it is allowed, and a pending completion is one the peripheral could take.
\<close>

definition rx_inv :: "bool \<Rightarrow> sdk \<Rightarrow> usb \<Rightarrow> bool" where
  "rx_inv R K s \<longleftrightarrow> usb_ok s \<and> ep0_inv K s \<and> (R \<or> INT_FG s AND UIF_BUS_RST K = 0)
     \<and> r_res K (UEP2_CTRL s) = (if ep2Nak s then R_RES_NAK K else R_RES_ACK K)
     \<and> (ep2Nak s \<or> 64 \<le> unat (ring_free (rx_ring s)))
     \<and> (bus_free K s
        \<or> is_tok K (INT_ST s) (TOKEN_IN K) UEP3
        \<or> is_tok K (INT_ST s) (TOKEN_OUT K) UEP2 \<and> unat (RX_LEN s) \<le> 64 \<and> \<not> ep2Nak s
        \<or> is_tok K (INT_ST s) (TOKEN_SETUP K) UEP0 \<and> setup_ok K (setup_pkt s)
        \<or> is_tok K (INT_ST s) (TOKEN_IN K) UEP0 \<and> t_res K (UEP0_CTRL s) = T_RES_ACK K
        \<or> is_tok K (INT_ST s) (TOKEN_OUT K) UEP0)"

text \<open>What the invariant looks at, beyond the buffer sizes.\<close>

definition rx_view :: "usb \<Rightarrow> (u8 ring \<times> u16 \<times> bool \<times> u8 \<times> u8 \<times> u16 \<times> u8 list)
    \<times> (u8 list \<times> u16 \<times> u8 \<times> u8 \<times> u16 \<times> u8 list option)" where
  "rx_view s = ((rx_ring s, UEP2_CTRL s, ep2Nak s, INT_FG s, INT_ST s, RX_LEN s, ep2 s),
     (ep0 s, UEP0_CTRL s, setupReqType s, setupReqCode s, setupLen s, descr_ptr s))"

lemma rx_view_inv: "rx_view s' = rx_view s \<Longrightarrow> usb_ok s' \<Longrightarrow> rx_inv R K s \<Longrightarrow> rx_inv R K s'"
  by (simp add: rx_view_def rx_inv_def bus_free_def ep0_inv_def)

lemma rx_view_bytes: "rx_view s' = rx_view s \<Longrightarrow> rx_bytes K s' = rx_bytes K s \<and> settled K s' = settled K s \<and> rx_ring s' = rx_ring s"
  by (simp add: rx_view_def rx_bytes_def pending_def bus_free_def settled_def)

lemma free_bytes:
  "bus_free K s \<Longrightarrow> rx_bytes K s = ring_list (rx_ring s) \<and> settled K s = (INT_FG s AND UIF_BUS_RST K = 0)"
  by (simp add: rx_bytes_def pending_def settled_def)

lemma ctl_frame [simp]:
  "ep0_inv K (s\<lparr>tx_ring := r\<rparr>) = ep0_inv K s" "bus_free K (s\<lparr>tx_ring := r\<rparr>) = bus_free K s"
  "settled K (s\<lparr>tx_ring := r\<rparr>) = settled K s" "pending K (s\<lparr>tx_ring := r\<rparr>) = pending K s"
  "rx_bytes K (s\<lparr>tx_ring := r\<rparr>) = rx_bytes K s"
  "ep0_inv K (s\<lparr>session_flag := b\<rparr>) = ep0_inv K s" "bus_free K (s\<lparr>session_flag := b\<rparr>) = bus_free K s"
  "settled K (s\<lparr>session_flag := b\<rparr>) = settled K s" "rx_bytes K (s\<lparr>session_flag := b\<rparr>) = rx_bytes K s"
  by (simp_all add: ep0_inv_def bus_free_def settled_def pending_def rx_bytes_def)

lemma arm_rx_view: "rx_view (snd (armEp3FromTx K short s)) = rx_view s"
  by (simp add: armEp3FromTx_def armEp3_def rx_view_def Let_def split: prod.split)

lemma tick_tx_rx_view: "rx_view (tick_tx K now s) = rx_view s"
proof -
  have "rx_view (s\<lparr>partialPending := p\<rparr>) = rx_view s"
    "rx_view (s\<lparr>partialPending := p, partialSinceMs := q\<rparr>) = rx_view s" for p q
    by (simp_all add: rx_view_def)
  then show ?thesis by (simp add: tick_tx_def Let_def arm_rx_view) (simp add: rx_view_def)
qed

lemma r_res_rx:
  assumes "sdk_ok K"
  shows "r_res K (r XOR R_TOG K) = r_res K r"
    "r_res K (set_field r (R_RES_MASK K) (R_RES_NAK K)) = R_RES_NAK K"
    "r_res K (set_field r (R_RES_MASK K) (R_RES_ACK K)) = R_RES_ACK K"
  using sdk_bits [OF assms] field_read(2)
  by (simp_all add: r_res_def bit.conj_xor_distrib2)

lemma flag_or: "(a OR b) AND m = 0 \<longleftrightarrow> (a :: u8) AND m = 0 \<and> b AND m = 0"
  by (auto simp: bit.conj_disj_distrib2 or_eq_0_iff)

lemma flag_clear: "((a :: u8) AND NOT m) AND m = 0" "a AND m' = 0 \<Longrightarrow> (a AND NOT m) AND m' = 0"
  by (simp_all add: bit_eq_iff bit_simps; blast)+

text \<open>A packet of at most 64 bytes taken over while the ring has room for it.\<close>

lemma ep2_received_rx:
  assumes "sdk_ok K" "usb_ok s" "unat (RX_LEN s) \<le> 64" "64 \<le> unat (ring_free (rx_ring s))"
    "\<not> ep2Nak s" "r_res K (UEP2_CTRL s) = R_RES_ACK K"
  defines "t \<equiv> ep2_received K s"
  shows "ring_list (rx_ring t) = ring_list (rx_ring s) @ take (unat (RX_LEN s)) (ep2 s)"
    and "r_res K (UEP2_CTRL t) = (if ep2Nak t then R_RES_NAK K else R_RES_ACK K)"
    and "ep2Nak t \<or> 64 \<le> unat (ring_free (rx_ring t))"
    and "usb_ok t" and "INT_FG t = INT_FG s"
proof -
  let ?src = "take (unat (RX_LEN s)) (ep2 s)"
  have wf: "ring_wf (rx_ring s) \<or> ring_lin (rx_ring s)" using assms(2) by (simp add: usb_ok_def)
  have fits: "ring_fits (rx_ring s)" using assms(2) by (simp add: usb_ok_def ring_wf_def)
  have "length ?src < 2 ^ 32" using assms(3) by simp
  from ring_push_list(5) [OF wf this] have "unat (fst (ring_push ?src (rx_ring s))) = length ?src"
    using assms(3,4) ring_free_unat [OF fits] by simp
  then have "ring_list (snd (ring_push ?src (rx_ring s))) = ring_list (rx_ring s) @ ?src"
    using ring_push_list(1) [OF wf, of ?src] by (simp add: min_def)
  then show "ring_list (rx_ring t) = ring_list (rx_ring s) @ ?src"
    by (simp add: t_def ep2_received_def Let_def)
  show "r_res K (UEP2_CTRL t) = (if ep2Nak t then R_RES_NAK K else R_RES_ACK K)"
    "ep2Nak t \<or> 64 \<le> unat (ring_free (rx_ring t))"
    using assms(5,6) r_res_rx [OF assms(1)]
    by (auto simp: t_def ep2_received_def Let_def kPacket_u32 word_less_nat_alt)
  show "usb_ok t" "INT_FG t = INT_FG s"
    using ep2_received_keep [of s K] assms(2) by (simp_all add: tx_keep_def t_def)
qed

lemma ring_clear_free: "usb_ok s \<Longrightarrow> unat (ring_free (ring_clear (rx_ring s))) = kRxCapacity"
  using ring_free_unat [of "ring_clear (rx_ring s)"]
  by (simp add: usb_ok_def ring_wf_def ring_fits_def ring_clear_def ring_size_def kRxCapacity_def)

text \<open>One poll of the interrupt flags.\<close>

lemma irq_closed:
  assumes "usb_ok t" "ep0_inv K t" "R \<or> INT_FG t AND UIF_BUS_RST K = 0"
    "r_res K (UEP2_CTRL t) = (if ep2Nak t then R_RES_NAK K else R_RES_ACK K)"
    "ep2Nak t \<or> 64 \<le> unat (ring_free (rx_ring t))"
  defines "t' \<equiv> t\<lparr>INT_FG := INT_FG t AND NOT (UIF_TRANSFER K)\<rparr>"
  shows "rx_inv R K t'" "bus_free K t'" "rx_bytes K t' = ring_list (rx_ring t)"
proof -
  show free: "bus_free K t'" by (simp add: bus_free_def t'_def flag_clear)
  show "rx_inv R K t'"
    using assms(1-5) free by (auto simp: rx_inv_def t'_def usb_ok_def ep0_inv_def flag_clear)
  show "rx_bytes K t' = ring_list (rx_ring t)" using free_bytes [OF free] by (simp add: t'_def)
qed

lemma onIrq_transfer:
  assumes "\<not> bus_free K s"
  shows "onIrq K s = do {
      t \<leftarrow> (if INT_ST s AND UIS_TOKEN_MASK K = TOKEN_IN K
           then on_in K (INT_ST s AND (UIS_TOKEN_MASK K OR UIS_ENDP_MASK K)) s
           else if INT_ST s AND UIS_TOKEN_MASK K = TOKEN_OUT K
           then on_out K (INT_ST s) (INT_ST s AND (UIS_TOKEN_MASK K OR UIS_ENDP_MASK K)) s
           else if INT_ST s AND UIS_TOKEN_MASK K = TOKEN_SETUP K then handleSetup K s
           else Some s);
      Some (t\<lparr>INT_FG := INT_FG t AND NOT (UIF_TRANSFER K)\<rparr>) }"
  using assms by (simp add: onIrq_def bus_free_def Let_def)

text \<open>The handler of a pending completion, before it acknowledges the flag.\<close>

lemma serve_rx:
  assumes "sdk_ok K" "irq_ok K" "rx_inv R K s" "\<not> bus_free K s"
  shows "\<exists>t. onIrq K s = Some (t\<lparr>INT_FG := INT_FG t AND NOT (UIF_TRANSFER K)\<rparr>)
    \<and> usb_ok t \<and> ep0_inv K t \<and> INT_FG t = INT_FG s
    \<and> r_res K (UEP2_CTRL t) = (if ep2Nak t then R_RES_NAK K else R_RES_ACK K)
    \<and> (ep2Nak t \<or> 64 \<le> unat (ring_free (rx_ring t)))
    \<and> (ring_list (rx_ring t) = rx_bytes K s \<or> \<not> settled K s \<and> ring_list (rx_ring t) = [])"
proof -
  have ok: "usb_ok s" "ep0_inv K s" "r_res K (UEP2_CTRL s) = (if ep2Nak s then R_RES_NAK K else R_RES_ACK K)"
    "ep2Nak s \<or> 64 \<le> unat (ring_free (rx_ring s))"
    using assms(3) by (simp_all add: rx_inv_def)
  note ne = irq_ne [OF assms(2)] and irq = onIrq_transfer [OF assms(4)]
  have same: ?thesis if t: "onIrq K s = Some (t\<lparr>INT_FG := INT_FG t AND NOT (UIF_TRANSFER K)\<rparr>)" "usb_ok t" "ep0_inv K t"
      "bulk_view t = bulk_view s" "rx_ring t = rx_ring s" "pending K s = []" for t
    using that ok(3,4) by (intro exI [of _ t]) (simp add: bulk_view_def rx_bytes_def)
  consider (in3) "is_tok K (INT_ST s) (TOKEN_IN K) UEP3"
    | (out2) "is_tok K (INT_ST s) (TOKEN_OUT K) UEP2" "unat (RX_LEN s) \<le> 64" "\<not> ep2Nak s"
    | (request) "is_tok K (INT_ST s) (TOKEN_SETUP K) UEP0" "setup_ok K (setup_pkt s)"
    | (in0) "is_tok K (INT_ST s) (TOKEN_IN K) UEP0" "t_res K (UEP0_CTRL s) = T_RES_ACK K"
    | (out0) "is_tok K (INT_ST s) (TOKEN_OUT K) UEP0"
    using assms(3,4) unfolding rx_inv_def by blast
  then show ?thesis
  proof cases
    case in3
    have "onIrq K s = Some ((ep3_done K s)\<lparr>INT_FG := INT_FG (ep3_done K s) AND NOT (UIF_TRANSFER K)\<rparr>)"
      using in3 ne by (simp add: irq is_tok_def on_in_def Let_def)
    moreover have "usb_ok (ep3_done K s)" using ok(1) ep3_done_fields(5) by simp
    moreover have "ep0_inv K (ep3_done K s)" using ok(2) by (simp add: ep0_inv_def ep3_done_def Let_def)
    moreover have "pending K s = []" using tok_apart [OF assms(2) in3] by (simp add: pending_def)
    moreover have "UEP2_CTRL (ep3_done K s) = UEP2_CTRL s" "ep2Nak (ep3_done K s) = ep2Nak s" by (simp_all add: ep3_done_def Let_def)
    ultimately show ?thesis
      using ok(3,4) ep3_done_fields(4,6) [of K s] by (intro exI [of _ "ep3_done K s"]) (simp add: rx_bytes_def)
  next
    case out2
    have "onIrq K s = Some ((ep2_received K s)\<lparr>INT_FG := INT_FG (ep2_received K s) AND NOT (UIF_TRANSFER K)\<rparr>)"
      using out2(1) ne by (simp add: irq is_tok_def on_out_def Let_def)
    moreover have "64 \<le> unat (ring_free (rx_ring s))" "r_res K (UEP2_CTRL s) = R_RES_ACK K"
      using out2(3) ok(3,4) by simp_all
    note r = ep2_received_rx [OF assms(1) ok(1) out2(2) this(1) out2(3) this(2)]
    moreover have "ep0_inv K (ep2_received K s)" using ok(2) by (simp add: ep0_inv_def ep2_received_def Let_def)
    moreover have "rx_bytes K s = ring_list (rx_ring s) @ take (unat (RX_LEN s)) (ep2 s)"
      using out2(1) assms(4) by (simp add: rx_bytes_def pending_def)
    ultimately show ?thesis by (intro exI [of _ "ep2_received K s"]) simp
  next
    case request
    obtain t where t: "handleSetup K s = Some t" "usb_ok t" "ep0_inv K t" "bulk_view t = bulk_view s"
      "rx_ring t = rx_ring s \<or> opens_port K (setup_pkt s) \<and> rx_ring t = ring_clear (rx_ring s)"
      using handleSetup_ctl [OF assms(1) ok(1) request(2)] by blast
    have run: "onIrq K s = Some (t\<lparr>INT_FG := INT_FG t AND NOT (UIF_TRANSFER K)\<rparr>)"
      using request(1) ne t(1) by (simp add: irq is_tok_def)
    have p: "pending K s = []" using tok_setup [OF assms(2) request(1)] by (simp add: pending_def)
    show ?thesis
    proof (cases "rx_ring t = rx_ring s")
      case True
      then show ?thesis using same [OF run t(2-4)] p by blast
    next
      case False
      then have "opens_port K (setup_pkt s)" "rx_ring t = ring_clear (rx_ring s)" using t(5) by blast+
      moreover from this have "\<not> settled K s" using request(1) assms(4) by (simp add: settled_def)
      moreover have "64 \<le> unat (ring_free (ring_clear (rx_ring s)))"
        using ring_clear_free [OF ok(1)] by (simp add: kRxCapacity_def)
      ultimately show ?thesis
        using run t(2-4) ok(3) by (intro exI [of _ t]) (simp add: bulk_view_def)
    qed
  next
    case in0
    obtain t where t: "handleEp0In K s = Some t" "usb_ok t" "ep0_inv K t" "bulk_view t = bulk_view s" "rx_ring t = rx_ring s"
      using handleEp0In_ctl [OF assms(1) ok(1,2) in0(2)] by blast
    have "onIrq K s = Some (t\<lparr>INT_FG := INT_FG t AND NOT (UIF_TRANSFER K)\<rparr>)"
      using in0(1) t(1) by (simp add: irq is_tok_def on_in_def)
    moreover have "pending K s = []" using tok_in_out [OF assms(2) in0(1)] by (simp add: pending_def)
    ultimately show ?thesis using same t(2-5) by blast
  next
    case out0
    let ?t = "if INT_ST s AND TOG_OK K \<noteq> 0 then handleEp0Out K s else s"
    have "onIrq K s = Some (?t\<lparr>INT_FG := INT_FG ?t AND NOT (UIF_TRANSFER K)\<rparr>)"
      using out0(1) ne by (simp add: irq is_tok_def on_out_def)
    moreover have "usb_ok (handleEp0Out K s)" using handleEp0Out_keep [of s K] ok(1) by (simp add: tx_keep_def)
    then have "usb_ok ?t" "ep0_inv K ?t" "bulk_view ?t = bulk_view s" "rx_ring ?t = rx_ring s"
      using handleEp0Out_ctl [OF ok(2)] ok(1,2) by simp_all
    moreover have "pending K s = []" using tok_out0 [OF assms(2) out0(1)] by (simp add: pending_def)
    ultimately show ?thesis by (rule same)
  qed
qed

lemma onIrq_rx:
  assumes "sdk_ok K" "irq_ok K" "rx_inv R K s" "\<not> bus_free K s"
  shows "\<exists>t. onIrq K s = Some t \<and> rx_inv R K t \<and> bus_free K t
    \<and> subseq (rx_bytes K t) (rx_bytes K s) \<and> (settled K s \<longrightarrow> settled K t \<and> rx_bytes K t = rx_bytes K s)"
proof -
  obtain t where t: "onIrq K s = Some (t\<lparr>INT_FG := INT_FG t AND NOT (UIF_TRANSFER K)\<rparr>)"
    "usb_ok t" "ep0_inv K t" "INT_FG t = INT_FG s"
    "r_res K (UEP2_CTRL t) = (if ep2Nak t then R_RES_NAK K else R_RES_ACK K)"
    "ep2Nak t \<or> 64 \<le> unat (ring_free (rx_ring t))"
    "ring_list (rx_ring t) = rx_bytes K s \<or> \<not> settled K s \<and> ring_list (rx_ring t) = []"
    using serve_rx [OF assms] by blast
  let ?t = "t\<lparr>INT_FG := INT_FG t AND NOT (UIF_TRANSFER K)\<rparr>"
  have "R \<or> INT_FG t AND UIF_BUS_RST K = 0" using assms(3) t(4) by (simp add: rx_inv_def)
  note c = irq_closed [OF t(2,3) this t(5,6)]
  have "settled K ?t" if "settled K s"
    using that t(4) free_bytes [OF c(2)] by (simp add: settled_def flag_clear)
  then show ?thesis using t(1,7) c by (intro exI [of _ ?t]) auto
qed

text \<open>A state whose endpoints were just initialised.\<close>

lemma fresh_rx_inv:
  assumes "sdk_ok K" "usb_ok s" "bus_free K s" "R \<or> INT_FG s AND UIF_BUS_RST K = 0" "\<not> ep2Nak s"
    "UEP2_CTRL s = R_RES_ACK K" "UEP0_CTRL s = R_RES_ACK K OR T_RES_NAK K" "64 \<le> unat (ring_free (rx_ring s))"
  shows "rx_inv R K s" "rx_bytes K s = ring_list (rx_ring s)"
proof -
  have "t_res K (UEP0_CTRL s) = T_RES_NAK K" "r_res K (UEP2_CTRL s) = R_RES_ACK K" "T_RES_NAK K \<noteq> T_RES_ACK K"
    using sdk_bits [OF assms(1)] sdk_values(7) [OF assms(1)] assms(6,7)
    by (auto simp: t_res_def r_res_def bit.conj_disj_distrib2)
  then show "rx_inv R K s" using assms(2-5,8) by (simp add: rx_inv_def ep0_inv_def)
  show "rx_bytes K s = ring_list (rx_ring s)" using free_bytes [of K s] assms(3) by simp
qed

text \<open>The handler of a bus reset empties both rings; the one of a suspend flag only moves the sleep status.\<close>

lemma reset_flag_rx:
  assumes "sdk_ok K" "usb_ok s" "INT_FG s AND UIF_TRANSFER K = 0"
  defines "t \<equiv> (busReset K s)\<lparr>INT_FG := INT_FG s AND NOT (UIF_BUS_RST K)\<rparr>"
  shows "rx_inv R K t" "bus_free K t" "rx_bytes K t = []" "settled K t"
proof -
  have "usb_ok t" "\<not> ep2Nak t" "UEP2_CTRL t = R_RES_ACK K" "UEP0_CTRL t = R_RES_ACK K OR T_RES_NAK K"
    "64 \<le> unat (ring_free (rx_ring t))" and l: "ring_list (rx_ring t) = []"
    using assms(2) ring_clear_free [OF assms(2)]
    by (simp_all add: t_def usb_ok_def busReset_def endpointInit_def kRxCapacity_def)
  moreover have f: "bus_free K t" "INT_FG t AND UIF_BUS_RST K = 0" using assms(3) by (simp_all add: t_def bus_free_def flag_clear)
  ultimately show "rx_inv R K t" "rx_bytes K t = []"
    using fresh_rx_inv [OF assms(1), of t R] by simp_all
  show "bus_free K t" "settled K t" using f free_bytes [OF f(1)] by simp_all
qed

lemma onIrq_free:
  assumes "sdk_ok K" "rx_inv R K s" "bus_free K s"
  shows "\<exists>t. onIrq K s = Some t \<and> rx_inv R K t \<and> bus_free K t
    \<and> subseq (rx_bytes K t) (rx_bytes K s) \<and> (settled K s \<longrightarrow> settled K t \<and> rx_bytes K t = rx_bytes K s)"
proof (cases "INT_FG s AND UIF_BUS_RST K = 0")
  case True
  obtain q a where t: "onIrq K s = Some (s\<lparr>INT_FG := INT_FG s AND NOT a, sleepStatus := q\<rparr>)"
  proof (cases "INT_FG s AND UIF_SUSPEND K = 0")
    case sus: True
    then show ?thesis
      using assms True that [where a = "INT_FG s" and q = "sleepStatus s"] by (simp add: onIrq_def bus_free_def Let_def)
  next
    case False
    then show ?thesis
      using assms True that [where a = "UIF_SUSPEND K" and q = "if MIS_ST s AND UMS_SUSPEND K \<noteq> 0 then sleepStatus s OR 0x02 else sleepStatus s AND NOT 0x02"]
      by (simp add: onIrq_def bus_free_def Let_def)
  qed
  let ?t = "s\<lparr>INT_FG := INT_FG s AND NOT a, sleepStatus := q\<rparr>"
  have f: "bus_free K ?t" "INT_FG ?t AND UIF_BUS_RST K = 0" using assms(3) True by (simp_all add: bus_free_def flag_clear)
  moreover have "rx_inv R K ?t"
    using assms f by (simp add: rx_inv_def usb_ok_def ep0_inv_def flag_clear)
  ultimately show ?thesis using t free_bytes [OF f(1)] free_bytes [OF assms(3)] by simp
next
  case False
  have ok: "usb_ok s" "INT_FG s AND UIF_TRANSFER K = 0" using assms(2,3) by (simp_all add: rx_inv_def bus_free_def)
  have "INT_FG (busReset K s) = INT_FG s" by (simp add: busReset_def endpointInit_def)
  then have "onIrq K s = Some ((busReset K s)\<lparr>INT_FG := INT_FG s AND NOT (UIF_BUS_RST K)\<rparr>)"
    using False ok(2) by (simp add: onIrq_def Let_def)
  moreover have "\<not> settled K s" using False by (simp add: settled_def)
  ultimately show ?thesis using reset_flag_rx [OF assms(1) ok] by simp
qed

lemma tick_rx_inv:
  assumes "sdk_ok K" "rx_inv R K s" "bus_free K s"
  shows "rx_inv R K (tick_rx K s)" "rx_ring (tick_rx K s) = rx_ring s" "bus_free K (tick_rx K s)"
    "ep2Nak (tick_rx K s) \<Longrightarrow> unat (ring_free (rx_ring s)) < 64"
proof -
  show "rx_ring (tick_rx K s) = rx_ring s" by (simp add: tick_rx_def)
  show f: "bus_free K (tick_rx K s)" using assms(3) by (simp add: tick_rx_def bus_free_def)
  show "rx_inv R K (tick_rx K s)"
    using assms f r_res_rx [OF assms(1)]
    by (auto simp: tick_rx_def rx_inv_def kPacket_u32 word_le_nat_alt usb_ok_def ep0_inv_def bus_free_def split: if_splits)
  show "ep2Nak (tick_rx K s) \<Longrightarrow> unat (ring_free (rx_ring s)) < 64"
    by (auto simp: tick_rx_def kPacket_u32 word_le_nat_alt split: if_splits)
qed

lemma usb_tick_rx:
  assumes "sdk_ok K" "irq_ok K" "rx_inv R K s"
  shows "\<exists>t. usb_tick K now s = Some t \<and> rx_inv R K t \<and> bus_free K t
    \<and> subseq (rx_bytes K t) (rx_bytes K s) \<and> (settled K s \<longrightarrow> settled K t \<and> rx_bytes K t = rx_bytes K s)
    \<and> (ep2Nak t \<longrightarrow> unat (ring_free (rx_ring t)) < 64)"
proof -
  let ?poll = "INT_FG s AND (UIF_TRANSFER K OR UIF_BUS_RST K OR UIF_SUSPEND K)"
  obtain u where u: "(if ?poll \<noteq> 0 then onIrq K s else Some s) = Some u" "rx_inv R K u" "bus_free K u"
    "subseq (rx_bytes K u) (rx_bytes K s)" "settled K s \<longrightarrow> settled K u \<and> rx_bytes K u = rx_bytes K s"
  proof (cases "bus_free K s")
    case True
    then show ?thesis using that onIrq_free [OF assms(1,3) True] assms(3) by (cases "?poll = 0") auto
  next
    case False
    then have "?poll \<noteq> 0" by (auto simp: bus_free_def bit.conj_disj_distrib or_eq_0_iff)
    then show ?thesis using onIrq_rx [OF assms(1-3) False] that by auto
  qed
  let ?r = "tick_rx K u" and ?t = "tick_tx K now (tick_rx K u)"
  have run: "usb_tick K now s = Some ?t" using u(1) by (simp add: usb_tick_def)
  have ok: "usb_ok ?t" using usb_tick_moves(1) [OF _ run] assms(3) by (simp add: rx_inv_def)
  note r = tick_rx_inv [OF assms(1) u(2,3)]
  have "rx_inv R K ?t" using rx_view_inv [OF tick_tx_rx_view ok r(1)] .
  moreover have v: "rx_ring ?t = rx_ring u" "INT_FG ?t = INT_FG ?r" "ep2Nak ?t = ep2Nak ?r"
    using tick_tx_rx_view [of K now ?r] r(2) by (simp_all add: rx_view_def)
  moreover have f: "bus_free K ?t" using r(3) v(2) by (simp add: bus_free_def)
  moreover have "rx_bytes K ?t = rx_bytes K u" "settled K ?t = settled K u"
    using free_bytes [OF f] free_bytes [OF u(3)] v(1,2) by (simp_all add: tick_rx_def)
  ultimately show ?thesis using run u(4,5) r(4) by auto
qed

lemma pump_rx:
  assumes "sdk_ok K" "irq_ok K" "rx_inv R K s"
  shows "\<exists>t. pump K s = Some t \<and> rx_inv R K t
    \<and> subseq (rx_bytes K t) (rx_bytes K s) \<and> (settled K s \<longrightarrow> settled K t \<and> rx_bytes K t = rx_bytes K s)"
proof (cases "bus_free K s")
  case True
  then show ?thesis using assms(3) by (simp add: pump_def bus_free_def)
next
  case False
  have ok: "usb_ok s" using assms(3) by (simp add: rx_inv_def)
  show ?thesis
  proof (cases "INT_ST s AND (UIS_TOKEN_MASK K OR UIS_ENDP_MASK K) = TOKEN_IN K OR UEP3")
    case no: False
    then have "pump K s = onIrq K s" using False by (simp add: pump_def bus_free_def)
    then show ?thesis using onIrq_rx [OF assms False] by auto
  next
    case True
    let ?d = "(ep3_done K s)\<lparr>INT_FG := INT_FG (ep3_done K s) AND NOT (UIF_TRANSFER K)\<rparr>"
    obtain a u where u: "armEp3FromTx K False ?d = (a, u)" by fastforce
    define t where "t = (if a then u\<lparr>partialPending := False\<rparr> else u)"
    have run: "pump K s = Some t" using True False u by (simp add: pump_def bus_free_def t_def Let_def)
    have "rx_view t = rx_view u" by (simp add: t_def rx_view_def)
    also have "rx_view u = rx_view ?d" using arm_rx_view [of K False ?d] u by simp
    finally have view: "rx_view t = rx_view ?d" .
    have "R \<or> INT_FG (ep3_done K s) AND UIF_BUS_RST K = 0" "usb_ok (ep3_done K s)"
      using assms(3) ok ep3_done_fields(4,5) [of K s] by (auto simp: rx_inv_def)
    moreover have "ep0_inv K (ep3_done K s)"
      "r_res K (UEP2_CTRL (ep3_done K s)) = (if ep2Nak (ep3_done K s) then R_RES_NAK K else R_RES_ACK K)"
      "ep2Nak (ep3_done K s) \<or> 64 \<le> unat (ring_free (rx_ring (ep3_done K s)))"
      using assms(3) by (simp_all add: rx_inv_def ep3_done_def Let_def ep0_inv_def)
    ultimately have d: "rx_inv R K ?d" "bus_free K ?d" "rx_bytes K ?d = ring_list (rx_ring s)"
      using irq_closed [of "ep3_done K s" K R] ep3_done_fields(6) [of K s] by simp_all
    have "rx_inv R K t" using rx_view_inv [OF view _ d(1)] pump_moves(1) [OF ok run] by simp
    moreover have "\<not> is_tok K (INT_ST s) (TOKEN_OUT K) UEP2"
      using True irq_ne(7) [OF assms(2)] unfolding is_tok_def by metis
    then have "rx_bytes K s = ring_list (rx_ring s)" by (simp add: rx_bytes_def pending_def)
    moreover have "rx_bytes K t = rx_bytes K ?d" "settled K t = settled K ?d" using rx_view_bytes [OF view] by simp_all
    moreover have "settled K ?d" if "settled K s"
      using that free_bytes [OF d(2)] ep3_done_fields(4) [of K s] by (simp add: settled_def flag_clear)
    ultimately show ?thesis using run d(3) by simp
  qed
qed

text \<open>The host's side of each kind of packet.\<close>

definition rx_moves :: "bool \<Rightarrow> sdk \<Rightarrow> bool \<Rightarrow> usb \<Rightarrow> u8 list \<Rightarrow> u8 list \<Rightarrow> usb \<Rightarrow> bool" where
  "rx_moves R K same s acc rd t \<longleftrightarrow> rx_inv R K t \<and> subseq (rd @ rx_bytes K t) (rx_bytes K s @ acc)
     \<and> (settled K s \<and> same \<longrightarrow> settled K t \<and> rd @ rx_bytes K t = rx_bytes K s @ acc)"

lemma rx_moves_refl: "rx_inv R K s \<Longrightarrow> rx_moves R K x s [] [] s"
  by (simp add: rx_moves_def)

lemma rx_moves_same:
  "rx_inv R K t \<Longrightarrow> (settled K s \<Longrightarrow> x \<Longrightarrow> settled K t) \<Longrightarrow> rd @ rx_bytes K t = rx_bytes K s @ acc \<Longrightarrow> rx_moves R K x s acc rd t"
  by (auto simp: rx_moves_def)

lemma rx_moves_trans:
  assumes "rx_moves R K x s acc rd t" "rx_moves R K y t acc' rd' u"
  shows "rx_moves R K (x \<and> y) s (acc @ acc') (rd @ rd') u"
proof -
  have "subseq (rd @ rd' @ rx_bytes K u) (rd @ rx_bytes K t @ acc')"
    using assms(2) by (simp add: rx_moves_def subseq_append')
  moreover have "subseq (rd @ rx_bytes K t) (rx_bytes K s @ acc)" using assms(1) by (simp add: rx_moves_def)
  then have "subseq ((rd @ rx_bytes K t) @ acc') ((rx_bytes K s @ acc) @ acc')" by (simp only: subseq_append)
  ultimately have "subseq ((rd @ rd') @ rx_bytes K u) (rx_bytes K s @ acc @ acc')"
    unfolding append_assoc by (rule subseq_order.order_trans)
  moreover have "(rd @ rd') @ rx_bytes K u = rx_bytes K s @ acc @ acc'"
    if "rd @ rx_bytes K t = rx_bytes K s @ acc" "rd' @ rx_bytes K u = rx_bytes K t @ acc'"
    using that by (metis append.assoc)
  ultimately show ?thesis using assms unfolding rx_moves_def by blast
qed

lemma rx_moves_view: "rx_view t = rx_view s \<Longrightarrow> usb_ok t \<Longrightarrow> rx_inv R K s \<Longrightarrow> rx_moves R K x s [] [] t"
  using rx_view_inv [of t s R K] rx_view_bytes [of t s K] by (simp add: rx_moves_def)

text \<open>A completion taken by the peripheral: the flag goes up, the flags of the bus do not.\<close>

lemma complete_flags:
  assumes "irq_ok K"
  shows "(INT_FG s OR UIF_TRANSFER K) AND UIF_TRANSFER K \<noteq> 0"
    "(INT_FG s OR UIF_TRANSFER K) AND UIF_BUS_RST K = 0 \<longleftrightarrow> INT_FG s AND UIF_BUS_RST K = 0"
  using irq_ne(1) [OF assms(1)] irq_flags [OF assms(1)] by (simp_all add: flag_or)

lemma complete_sel [simp]:
  "INT_FG (complete K st n s) = INT_FG s OR UIF_TRANSFER K" "INT_ST (complete K st n s) = st"
  "RX_LEN (complete K st n s) = of_nat n" "ep0 (complete K st n s) = ep0 s" "ep2 (complete K st n s) = ep2 s"
  "rx_ring (complete K st n s) = rx_ring s" "UEP0_CTRL (complete K st n s) = UEP0_CTRL s"
  "UEP2_CTRL (complete K st n s) = UEP2_CTRL s" "ep2Nak (complete K st n s) = ep2Nak s"
  "setupReqType (complete K st n s) = setupReqType s" "setupReqCode (complete K st n s) = setupReqCode s"
  "setupLen (complete K st n s) = setupLen s" "descr_ptr (complete K st n s) = descr_ptr s"
  "usb_ok (complete K st n s) = usb_ok s"
  by (simp_all add: complete_def usb_ok_def)

lemma host_out_rx:
  assumes "sdk_ok K" "irq_ok K" "rx_inv R K s"
  shows "rx_moves R K x s (fst (host_out K st pkt s)) [] (snd (host_out K st pkt s))"
proof (cases "bus_free K s \<and> r_res K (UEP2_CTRL s) = R_RES_ACK K \<and> is_tok K st (TOKEN_OUT K) UEP2 \<and> length pkt \<le> 64")
  case True
  let ?t = "(complete K st (length pkt) s)\<lparr>ep2 := pkt @ drop (length pkt) (ep2 s)\<rparr>"
  have n: "unat (of_nat (length pkt) :: u16) = length pkt"
    using True by (simp add: unat_of_nat)
  have "R_RES_ACK K \<noteq> R_RES_NAK K" using sdk_values(8) [OF assms(1)] by auto
  then have nak: "\<not> ep2Nak s" using True assms(3) by (auto simp: rx_inv_def split: if_splits)
  have ok: "usb_ok ?t" using True assms(3) by (simp add: rx_inv_def usb_ok_def complete_def)
  note f = complete_flags [OF assms(2), of s]
  then have "rx_inv R K ?t"
    using True assms(3) n nak ok by (auto simp: rx_inv_def bus_free_def ep0_inv_def)
  moreover have "rx_bytes K ?t = ring_list (rx_ring s) @ pkt"
    using True f(1) n by (simp add: rx_bytes_def pending_def bus_free_def)
  moreover have "\<not> is_tok K st (TOKEN_SETUP K) UEP0" using tok_out [OF assms(2)] True by blast
  then have "settled K s \<Longrightarrow> settled K ?t" using f(2) by (simp add: settled_def)
  ultimately show ?thesis using True free_bytes [of K s] by (simp add: host_out_def) (rule rx_moves_same, simp_all)
qed (use assms(3) in \<open>auto simp: host_out_def rx_moves_refl\<close>)

text \<open>A completion on another endpoint, with endpoint 0's buffer replaced where it is written.\<close>

lemma other_completion_rx:
  assumes "irq_ok K" "rx_inv R K s" "bus_free K s" "usb_ok t"
    "INT_FG t = INT_FG s OR UIF_TRANSFER K" "(rx_ring t, UEP2_CTRL t, ep2Nak t) = (rx_ring s, UEP2_CTRL s, ep2Nak s)"
    "(UEP0_CTRL t, setupReqType t, setupReqCode t, setupLen t, descr_ptr t)
      = (UEP0_CTRL s, setupReqType s, setupReqCode s, setupLen s, descr_ptr s)"
    "is_tok K (INT_ST t) (TOKEN_IN K) UEP3
      \<or> is_tok K (INT_ST t) (TOKEN_SETUP K) UEP0 \<and> setup_ok K (setup_pkt t) \<and> (x \<longrightarrow> \<not> opens_port K (setup_pkt t))
      \<or> is_tok K (INT_ST t) (TOKEN_IN K) UEP0 \<and> t_res K (UEP0_CTRL s) = T_RES_ACK K
      \<or> is_tok K (INT_ST t) (TOKEN_OUT K) UEP0"
  shows "rx_moves R K x s [] [] t"
proof -
  note f = complete_flags(2) [OF assms(1), of s]
  have i: "rx_inv R K t" using assms(2,4-8) f by (auto simp: rx_inv_def ep0_inv_def)
  have "\<not> is_tok K (INT_ST t) (TOKEN_OUT K) UEP2"
    using assms(8) tok_in_out [OF assms(1)] tok_out0 [OF assms(1)] tok_setup [OF assms(1)] by blast
  then have b: "rx_bytes K t = rx_bytes K s" using assms(6) free_bytes [OF assms(3)] by (simp add: rx_bytes_def pending_def)
  have "settled K t" if "settled K s" "x"
    using that assms(5,8) f tok_in_out [OF assms(1)] tok_out [OF assms(1)] unfolding settled_def by auto
  then show ?thesis using i b by (intro rx_moves_same) simp_all
qed

lemma host_ctl_rx:
  assumes "irq_ok K" "rx_inv R K s"
  shows "rx_moves R K x s [] [] (host_in K st s)"
    and "setup_ok K pkt \<Longrightarrow> x \<longrightarrow> \<not> opens_port K pkt \<Longrightarrow> rx_moves R K x s [] [] (host_setup K st pkt s)"
    and "rx_moves R K x s [] [] (host_ep0_in K st s)"
    and "rx_moves R K x s [] [] (host_ep0_out K st pkt s)"
    and "rx_moves R K x s [] [] (host_suspend K mis s)"
    and "R \<Longrightarrow> \<not> x \<Longrightarrow> rx_moves R K x s [] [] (host_reset K s)"
proof -
  have ok: "usb_ok s" and r: "rx_moves R K x s [] [] s" using assms(2) by (simp_all add: rx_inv_def rx_moves_refl)
  have len: "length (ep0 s) = 64" using ok by (simp add: usb_ok_def)
  have in_ok: "usb_ok (s\<lparr>INT_FG := INT_FG s OR UIF_TRANSFER K, INT_ST := st\<rparr>)" using ok by (simp add: usb_ok_def)
  have pkt_ok: "usb_ok ((complete K st n s)\<lparr>ep0 := p @ drop (length p) (ep0 s)\<rparr>)" if "length p \<le> 64" for n p
    using ok that by (simp add: usb_ok_def complete_def)
  show "rx_moves R K x s [] [] (host_in K st s)"
    using r other_completion_rx [OF assms _ in_ok] by (simp add: host_in_def)
  show "rx_moves R K x s [] [] (host_ep0_in K st s)"
    using r other_completion_rx [OF assms _ in_ok] by (simp add: host_ep0_in_def)
  show "rx_moves R K x s [] [] (host_ep0_out K st pkt s)"
    using r other_completion_rx [OF assms _ pkt_ok [of pkt]] by (simp add: host_ep0_out_def)
  show "rx_moves R K x s [] [] (host_setup K st pkt s)" if "setup_ok K pkt" "x \<longrightarrow> \<not> opens_port K pkt"
  proof (cases "bus_free K s \<and> is_tok K st (TOKEN_SETUP K) UEP0 \<and> length pkt = 8")
    case True
    let ?t = "(complete K st 8 s)\<lparr>ep0 := pkt @ drop 8 (ep0 s)\<rparr>"
    have "usb_ok ?t" using pkt_ok [of pkt 8] True by simp
    moreover have "setup_pkt ?t = pkt" using True by simp
    ultimately have "rx_moves R K x s [] [] ?t"
      using other_completion_rx [OF assms, of ?t x] True that by simp
    then show ?thesis using True by (simp add: host_setup_def)
  next
    case False
    show ?thesis unfolding host_setup_def if_not_P [OF False] by (rule r)
  qed
  let ?t = "host_suspend K mis s" and ?r = "host_reset K s"
  have fl: "bus_free K ?t = bus_free K s" "INT_FG ?t AND UIF_BUS_RST K = 0 \<longleftrightarrow> INT_FG s AND UIF_BUS_RST K = 0"
    "bus_free K ?r = bus_free K s"
    using irq_flags [OF assms(1)] by (simp_all add: host_suspend_def host_reset_def bus_free_def flag_or) (simp add: and.commute)
  have fr: "usb_ok ?t" "usb_ok ?r" "ep0_inv K ?t = ep0_inv K s" "ep0_inv K ?r = ep0_inv K s"
    using ok by (simp_all add: host_suspend_def host_reset_def usb_ok_def ep0_inv_def)
  have "rx_inv R K ?t" using assms(2) fl fr by (simp add: rx_inv_def) (auto simp: host_suspend_def)
  moreover have "rx_bytes K ?t = rx_bytes K s" "settled K ?t = settled K s"
    using fl by (simp_all add: rx_bytes_def pending_def settled_def) (simp_all add: host_suspend_def)
  ultimately show "rx_moves R K x s [] [] ?t" by (simp add: rx_moves_def)
  show "rx_moves R K x s [] [] ?r" if "R" "\<not> x"
  proof -
    have "rx_inv R K ?r" using assms(2) fl(3) fr that by (simp add: rx_inv_def) (auto simp: host_reset_def)
    moreover have "rx_bytes K ?r = rx_bytes K s"
      using fl(3) by (simp add: rx_bytes_def pending_def) (simp add: host_reset_def)
    ultimately show ?thesis using that(2) by (simp add: rx_moves_def)
  qed
qed

lemma usb_read_rx:
  assumes "rx_inv R K s" "usb_read n s = (xs, t)"
  shows "rx_inv R K t" "settled K t = settled K s" "xs @ rx_bytes K t = rx_bytes K s"
proof -
  let ?t = "s\<lparr>rx_ring := snd (ring_pop n (rx_ring s))\<rparr>"
  have t: "t = ?t" "xs = fst (ring_pop n (rx_ring s))" using assms(2) by (auto simp: usb_read_def case_prod_beta)
  have wf: "ring_wf (rx_ring s)" using assms(1) by (simp add: rx_inv_def usb_ok_def)
  have fits: "ring_fits (rx_ring s)" "ring_fits (rx_ring ?t)"
    using wf ring_pop_list(3) [OF wf] by (simp_all add: ring_wf_def)
  have "length (ring_list (rx_ring ?t)) \<le> length (ring_list (rx_ring s))"
    using ring_pop_list(2) [of n "rx_ring s"] by (simp del: ring_list_length)
  then have "unat (ring_free (rx_ring s)) \<le> unat (ring_free (rx_ring ?t))"
    using ring_free_unat [OF fits(1)] ring_free_unat [OF fits(2)] by simp
  moreover have "usb_ok ?t" "bus_free K ?t = bus_free K s" "ep0_inv K ?t = ep0_inv K s"
    using assms(1) ring_pop_list(3) [OF wf, of n] by (simp_all add: rx_inv_def usb_ok_def bus_free_def ep0_inv_def)
  ultimately show "rx_inv R K t" unfolding t(1) using assms(1) by (auto simp: rx_inv_def)
  have "pending K ?t = pending K s" by (simp add: pending_def bus_free_def)
  then show "xs @ rx_bytes K t = rx_bytes K s"
    using ring_pop_list(1,2) [of n "rx_ring s"] unfolding t by (simp add: rx_bytes_def flip: append_assoc)
  show "settled K t = settled K s" unfolding t(1) by (simp add: settled_def bus_free_def)
qed

lemma call_rx:
  assumes "sdk_ok K" "irq_ok K" "rx_inv R K s" "quiet c"
  shows "\<exists>rd t. bus_step K (Call c) s = Some ([], rd, t) \<and> rx_moves R K x s [] rd t"
proof (cases c)
  case (UsbWrite xs)
  let ?t = "snd (usb_write xs s)"
  have "rx_view ?t = rx_view s" by (simp add: usb_write_def rx_view_def split: prod.split)
  moreover have "usb_ok ?t"
    using assms(3) ring_push_list(3) [of "tx_ring s" xs]
    by (simp add: rx_inv_def usb_ok_def usb_write_def case_prod_beta)
  ultimately show ?thesis using rx_moves_view assms(3) UsbWrite by (simp add: case_prod_beta)
next
  case (UsbRead n)
  obtain xs t where r: "usb_read n s = (xs, t)" by fastforce
  have "rx_moves R K x s [] xs t" using usb_read_rx [OF assms(3) r] by (simp add: rx_moves_def)
  then show ?thesis using r UsbRead by simp
next
  case (UsbTick now)
  obtain t where t: "usb_tick K now s = Some t" "rx_inv R K t" "bus_free K t"
    "subseq (rx_bytes K t) (rx_bytes K s)" "settled K s \<longrightarrow> settled K t \<and> rx_bytes K t = rx_bytes K s"
    using usb_tick_rx [OF assms(1-3)] by blast
  then have "rx_moves R K x s [] [] t" by (simp add: rx_moves_def)
  then show ?thesis using t(1) UsbTick by simp
next
  case UsbPump
  then show ?thesis using pump_rx [OF assms(1-3)] by (auto simp: rx_moves_def)
next
  case (UsbHw fg st n mis e0 e2)
  then show ?thesis using assms(4) by simp
qed

lemma bus_step_rx:
  assumes "sdk_ok K" "irq_ok K" "rx_inv R K s" "main_loop_op R K op"
  shows "\<exists>acc rd t. bus_step K op s = Some (acc, rd, t) \<and> rx_moves R K (same_session K op) s acc rd t"
proof (cases op)
  case (HostOut st pkt)
  then show ?thesis using host_out_rx [OF assms(1-3)] by (simp add: case_prod_beta)
next
  case (Call c)
  then have "quiet c" "same_session K op" using assms(4) by simp_all
  then show ?thesis using call_rx [OF assms(1-3), of c True] Call by auto
next
  case HostReset
  then show ?thesis using assms(4) host_ctl_rx(6) [OF assms(2,3), of False] by simp
qed (use assms(4) host_ctl_rx [OF assms(2,3)] in simp_all)

lemma bus_run_rx:
  assumes "sdk_ok K" "irq_ok K" "rx_inv R K s" "list_all (main_loop_op R K) ops"
  shows "\<exists>acc rd t. bus_run K ops s = Some (acc, rd, t) \<and> rx_moves R K (list_all (same_session K) ops) s acc rd t"
  using assms(3,4)
proof (induction ops arbitrary: s)
  case (Cons op ops)
  have op: "main_loop_op R K op" "list_all (main_loop_op R K) ops" using Cons.prems(2) by simp_all
  obtain acc rd t where t: "bus_step K op s = Some (acc, rd, t)" "rx_moves R K (same_session K op) s acc rd t"
    using bus_step_rx [OF assms(1,2) Cons.prems(1) op(1)] by blast
  have "rx_inv R K t" using t(2) by (simp add: rx_moves_def)
  from Cons.IH [OF this op(2)] obtain acc' rd' u where u: "bus_run K ops t = Some (acc', rd', u)"
    "rx_moves R K (list_all (same_session K) ops) t acc' rd' u" by blast
  then show ?case using t rx_moves_trans [OF t(2) u(2)] by simp
qed (simp add: rx_moves_refl)

subsection \<open>Coalescing of bulk IN\<close>

lemma tick_idle:
  assumes "INT_FG s = 0"
  shows "usb_tick K now s = Some (tick_tx K now (tick_rx K s))"
  using assms by (simp add: usb_tick_def)

lemma tick_rx_tx:
  "tx_ring (tick_rx K s) = tx_ring s" "ep3_log (tick_rx K s) = ep3_log s" "ep3Busy (tick_rx K s) = ep3Busy s"
  "partialPending (tick_rx K s) = partialPending s" "partialSinceMs (tick_rx K s) = partialSinceMs s"
  "INT_FG (tick_rx K s) = INT_FG s" "ep3 (tick_rx K s) = ep3 s"
  by (simp_all add: tick_rx_def)

lemma armed:
  assumes "usb_ok s" "ring_list (tx_ring s) \<noteq> []" "short \<or> 64 \<le> length (ring_list (tx_ring s))"
  shows "fst (armEp3FromTx K short s)"
    and "ep3_log (snd (armEp3FromTx K short s)) = ep3_log s @ [take 64 (ring_list (tx_ring s))]"
    and "ring_list (tx_ring (snd (armEp3FromTx K short s))) = drop 64 (ring_list (tx_ring s))"
    and "ep3Busy (snd (armEp3FromTx K short s))"
proof -
  obtain ok s' where a: "armEp3FromTx K short s = (ok, s')" by fastforce
  have "ring_size (tx_ring s) \<noteq> 0"
    using assms(2) by (metis ring_list_length length_0_conv unat_0)
  moreover have "short \<or> \<not> ring_size (tx_ring s) < 64" using assms(3) by (auto simp: word_less_nat_alt)
  ultimately have ok: "ok"
    using a by (auto simp: armEp3FromTx_def Let_def kPacket_u32 split: if_splits prod.splits)
  have pre: "ring_wf (tx_ring s)" "length (ep3 s) = 64" using assms(1) by (simp_all add: usb_ok_def)
  let ?l = "ring_list (tx_ring s)"
  have "take (min 64 (length ?l)) ?l = take 64 ?l" "drop (min 64 (length ?l)) ?l = drop 64 ?l"
    by (cases "length ?l \<le> 64"; simp del: ring_list_length)+
  then show "fst (armEp3FromTx K short s)"
    "ep3_log (snd (armEp3FromTx K short s)) = ep3_log s @ [take 64 ?l]"
    "ring_list (tx_ring (snd (armEp3FromTx K short s))) = drop 64 ?l"
    "ep3Busy (snd (armEp3FromTx K short s))"
    using armEp3FromTx_spec(2) [OF pre a ok] a ok by (simp_all del: ring_list_length)
qed

text \<open>The transmit half of one tick, by the number of queued bytes.\<close>

lemma tick_tx_cases:
  fixes K :: sdk and now :: u32
  assumes "usb_ok s" "\<not> ep3Busy s"
  defines "l \<equiv> ring_list (tx_ring s)" and "t \<equiv> tick_tx K now s"
    and "since \<equiv> (if partialPending s then partialSinceMs s else now)"
  shows "64 \<le> length l \<Longrightarrow> ep3Busy t \<and> ep3_log t = ep3_log s @ [take 64 l] \<and> ring_list (tx_ring t) = drop 64 l"
    and "l = [] \<Longrightarrow> ep3_log t = ep3_log s \<and> \<not> partialPending t"
    and "l \<noteq> [] \<Longrightarrow> length l < 64 \<Longrightarrow> 1 \<le> now - since \<Longrightarrow>
           ep3Busy t \<and> ep3_log t = ep3_log s @ [l] \<and> ring_list (tx_ring t) = []"
    and "l \<noteq> [] \<Longrightarrow> length l < 64 \<Longrightarrow> \<not> 1 \<le> now - since \<Longrightarrow>
           t = s\<lparr>partialPending := True, partialSinceMs := since\<rparr>"
proof -
  have n: "unat (ring_size (tx_ring s)) = length l" by (simp add: l_def)
  have big: "(64 \<le> ring_size (tx_ring s)) = (64 \<le> length l)" by (simp add: word_le_nat_alt n [symmetric])
  have zero: "(ring_size (tx_ring s) = 0) = (l = [])" using n by (metis length_0_conv unat_eq_zero)
  have ok: "usb_ok (s\<lparr>partialPending := p\<rparr>)" "usb_ok (s\<lparr>partialSinceMs := q, partialPending := p\<rparr>)" for p q
    using assms(1) by (simp_all add: usb_ok_def)
  show "ep3Busy t \<and> ep3_log t = ep3_log s @ [take 64 l] \<and> ring_list (tx_ring t) = drop 64 l" if "64 \<le> length l"
  proof -
    have "t = snd (armEp3FromTx K False (s\<lparr>partialPending := False\<rparr>))"
      using assms(2) that big by (simp add: t_def tick_tx_def kPacket_u32 Let_def)
    moreover have "l \<noteq> []" using that by auto
    ultimately show ?thesis
      using armed [OF ok(1), where short = False and K = K] that by (simp add: l_def del: ring_list_length)
  qed
  show "ep3_log t = ep3_log s \<and> \<not> partialPending t" if "l = []"
    using that assms(2) big zero by (simp add: t_def tick_tx_def kPacket_u32 Let_def)
  let ?p = "s\<lparr>partialPending := True, partialSinceMs := since\<rparr>"
  have p: "(if \<not> partialPending s then s\<lparr>partialPending := True, partialSinceMs := now\<rparr> else s) = ?p"
    by (simp add: since_def)
  have part: "t = (if 1 \<le> now - since then snd (armEp3FromTx K True (?p\<lparr>partialPending := False\<rparr>)) else ?p)"
    if "l \<noteq> []" "length l < 64"
    using that assms(2) big zero unfolding t_def tick_tx_def Let_def p kPacket_u32 kPartialFlushMs_def by simp
  show "t = ?p" if "l \<noteq> []" "length l < 64" "\<not> 1 \<le> now - since"
    using part [OF that(1,2)] that(3) by simp
  show "ep3Busy t \<and> ep3_log t = ep3_log s @ [l] \<and> ring_list (tx_ring t) = []"
    if "l \<noteq> []" "length l < 64" "1 \<le> now - since"
  proof -
    have "t = snd (armEp3FromTx K True (s\<lparr>partialSinceMs := since, partialPending := False\<rparr>))"
      using part [OF that(1,2)] that(3) by simp
    then show ?thesis
      using armed [OF ok(2), where short = True and K = K] that(1,2) by (simp add: l_def del: ring_list_length)
  qed
qed

lemma reset_rx_inv:
  assumes "sdk_ok K" "usb_ok s"
  shows "rx_inv R K ((busReset K s)\<lparr>INT_FG := 0\<rparr>)" "settled K ((busReset K s)\<lparr>INT_FG := 0\<rparr>)"
    "rx_bytes K ((busReset K s)\<lparr>INT_FG := 0\<rparr>) = []"
proof -
  let ?z = "s\<lparr>INT_FG := 0\<rparr>"
  have z: "usb_ok ?z" "INT_FG ?z AND UIF_TRANSFER K = 0" using assms(2) by (simp_all add: usb_ok_def)
  have "(busReset K ?z)\<lparr>INT_FG := INT_FG ?z AND NOT (UIF_BUS_RST K)\<rparr> = (busReset K s)\<lparr>INT_FG := 0\<rparr>"
    by (simp add: busReset_def endpointInit_def)
  then show "rx_inv R K ((busReset K s)\<lparr>INT_FG := 0\<rparr>)" "settled K ((busReset K s)\<lparr>INT_FG := 0\<rparr>)"
    "rx_bytes K ((busReset K s)\<lparr>INT_FG := 0\<rparr>) = []"
    using reset_flag_rx [OF assms(1) z] by simp_all
qed

lemma static_push7: "ring_list (snd (ring_push [7] (tx_ring usb_static))) = [7]"
proof -
  have wf: "ring_wf (tx_ring usb_static) \<or> ring_lin (tx_ring usb_static)"
    using usb_static_ok by (simp add: usb_ok_def)
  show ?thesis
    using ring_push_list(1) [OF wf, of "[7]"] ring_push_list(5) [OF wf, of "[7]"] usb_static_ok
    by (simp add: usb_ok_def kTxCapacity_def del: ring_list_length)
qed

subsection \<open>Properties\<close>

text \<open>
  C18. Flow control on bulk OUT loses no byte, whatever happens on the control endpoint. From a state of
  the invariant, every sequence of bulk packets, control transfers, suspends, bus resets (where \<open>R\<close> allows
  them), ticks, pumps, reads and writes runs without fault and keeps the invariant. The bytes the program
  reads, followed by the ring and the packet in the endpoint buffer, are a subsequence of the earlier ones
  followed by the bytes the bus accepted: nothing is invented, repeated or reordered. Unless the host opens
  the port or resets the bus, where the device drops what is left of the old session, they are exactly
  these bytes: the endpoint never acknowledges a packet the ring has no room for. After any tick the
  endpoint is held only if the ring still has less than 64 bytes of room. Of the control requests only two
  are excluded: GET_LINE_CODING of more than seven bytes, and ENDPOINT_HALT on endpoint 0x02.
\<close>

theorem usb_rx_stream:
  assumes "sdk_ok K" and "irq_ok K" and "rx_inv R K s" and "list_all (main_loop_op R K) ops"
  shows "\<exists>acc rd t u. bus_run K ops s = Some (acc, rd, t) \<and> rx_inv R K t
    \<and> subseq (rd @ rx_bytes K t) (rx_bytes K s @ acc)
    \<and> (settled K s \<and> list_all (same_session K) ops \<longrightarrow> rd @ rx_bytes K t = rx_bytes K s @ acc)
    \<and> usb_tick K now t = Some u
    \<and> (r_res K (UEP2_CTRL u) = R_RES_ACK K \<or> unat (ring_free (rx_ring u)) < 64)"
proof -
  obtain acc rd t where t: "bus_run K ops s = Some (acc, rd, t)" "rx_moves R K (list_all (same_session K) ops) s acc rd t"
    using bus_run_rx [OF assms] by blast
  then have inv: "rx_inv R K t" by (simp add: rx_moves_def)
  obtain u where u: "usb_tick K now t = Some u" "rx_inv R K u" "ep2Nak u \<longrightarrow> unat (ring_free (rx_ring u)) < 64"
    using usb_tick_rx [OF assms(1,2) inv] by blast
  have "r_res K (UEP2_CTRL u) = R_RES_ACK K \<or> unat (ring_free (rx_ring u)) < 64"
    using u(2,3) by (cases "ep2Nak u") (simp_all add: rx_inv_def)
  then show ?thesis using t u(1) unfolding rx_moves_def by blast
qed

theorem usb_rx_stream_witness:
  "let s = (busReset wch usb_static)\<lparr>INT_FG := 0\<rparr>;
       ops = [HostOut 0x42 [1, 2], Call (UsbTick 0), HostSetup 0x30 [0x80, 0x06, 0, 0x01, 0, 0, 18, 0], Call (UsbRead 1)] in
   \<exists>acc rd t. bus_run wch ops s = Some (acc, rd, t) \<and> acc = [1, 2] \<and> rd @ rx_bytes wch t = acc"
proof -
  let ?s = "(busReset wch usb_static)\<lparr>INT_FG := 0\<rparr>"
  let ?ops = "[HostOut 0x42 [1, 2], Call (UsbTick 0), HostSetup 0x30 [0x80, 0x06, 0, 0x01, 0, 0, 18, 0], Call (UsbRead 1)]"
  note inv = reset_rx_inv [OF wch_ok usb_static_ok]
  have m: "list_all (main_loop_op False wch) ?ops" "list_all (same_session wch) ?ops"
    by (simp_all add: setup_ok_def over_reads_def halts_ep2_def opens_port_def class_pkt_def)
  have "r_res wch (UEP2_CTRL ?s) = R_RES_ACK wch" "bus_free wch ?s" by (simp_all add: busReset_def endpointInit_def r_res_def bus_free_def)
  moreover have "is_tok wch 0x42 (TOKEN_OUT wch) UEP2" by (simp add: is_tok_def UEP2_def)
  ultimately have "fst (host_out wch 0x42 [1, 2] ?s) = [1, 2]" by (simp add: host_out_def)
  moreover obtain acc rd t where t: "bus_run wch ?ops ?s = Some (acc, rd, t)" "rd @ rx_bytes wch t = rx_bytes wch ?s @ acc"
    using usb_rx_stream [OF wch_ok wch_irq_ok inv(1) m(1)] inv(2) m(2) by blast
  moreover have "acc = fst (host_out wch 0x42 [1, 2] ?s)"
    using t(1) by (auto simp: case_prod_beta split: Option.bind_splits)
  ultimately show ?thesis unfolding Let_def using inv(3) by simp
qed

text \<open>
  The device is ready after a bus reset and after \<open>init\<close>. Both leave both rings well formed and the
  receive invariant established, the bulk-IN endpoint idle and held, no stale byte of the previous
  session after a reset (both rings empty, the session flag raised), and the line coding of a fresh
  object at 115200 baud, 8 data bits, no parity.
\<close>

theorem usb_ready:
  assumes "sdk_ok K" and "usb_ok s"
  shows "rx_inv R K ((busReset K s)\<lparr>INT_FG := 0\<rparr>) \<and> rx_inv R K (usb_init K vdd5 usb_static)
    \<and> ring_list (rx_ring (busReset K s)) = [] \<and> ring_list (tx_ring (busReset K s)) = []
    \<and> \<not> ep3Busy (busReset K s) \<and> t_res K (UEP3_CTRL (busReset K s)) = T_RES_NAK K
    \<and> session_flag (busReset K s) \<and> \<not> dtr (busReset K s) \<and> DEV_ADDR (busReset K s) = 0
    \<and> lc (usb_init K vdd5 usb_static) = \<lparr>baud = 115200, stopBits = 0, parity = 0, dataBits = 8\<rparr>"
proof -
  have nak: "t_res K (T_RES_NAK K) = T_RES_NAK K" "r_res K (R_RES_ACK K) = R_RES_ACK K"
    using sdk_values(2,4) [OF assms(1)] by (simp_all add: t_res_def r_res_def)
  have "decodeLineCoding usb_static
      = usb_static\<lparr>lc := \<lparr>baud = 115200, stopBits = 0, parity = 0, dataBits = 8\<rparr>\<rparr>"
    by (rule decode_line_coding_bytes) (simp add: usb_static_def line_coding_bytes_def)
  then have init: "usb_ok (usb_init K vdd5 usb_static)" "INT_FG (usb_init K vdd5 usb_static) = 0"
    "\<not> ep2Nak (usb_init K vdd5 usb_static)" "UEP2_CTRL (usb_init K vdd5 usb_static) = R_RES_ACK K"
    "UEP0_CTRL (usb_init K vdd5 usb_static) = R_RES_ACK K OR T_RES_NAK K"
    "rx_ring (usb_init K vdd5 usb_static) = ring_clear (rx_ring usb_static)"
    "lc (usb_init K vdd5 usb_static) = \<lparr>baud = 115200, stopBits = 0, parity = 0, dataBits = 8\<rparr>"
    using usb_static_ok
    by (simp_all add: usb_init_def endpointInit_def usb_ok_def Let_def)
      (simp_all add: usb_static_def ring_clear_def)
  have "rx_inv R K (usb_init K vdd5 usb_static)"
    using fresh_rx_inv(1) [OF assms(1) init(1) _ _ init(3-5)] init(2,6) ring_clear_free [OF usb_static_ok]
    by (simp add: kRxCapacity_def bus_free_def)
  then show ?thesis
    using reset_rx_inv [OF assms] nak(1) init(7) by (simp add: busReset_def endpointInit_def)
qed

theorem usb_ready_witness:
  "rx_inv False wch (usb_init wch True usb_static)"
  using usb_ready [OF wch_ok usb_static_ok] by blast

text \<open>
  A short packet is sent only after the coalescing time. A tick without a pending event that hands
  over fewer than 64 bytes hands over everything that was queued, and the queue had already been seen
  short at least one millisecond before.
\<close>

theorem short_packet_waits:
  assumes "usb_ok s" and "INT_FG s = 0" and "usb_tick K now s = Some t"
    and "ep3_log t = ep3_log s @ [p]" and "length p < 64"
  shows "p = ring_list (tx_ring s) \<and> ring_list (tx_ring t) = []
    \<and> partialPending s \<and> 1 \<le> now - partialSinceMs s"
proof -
  let ?r = "tick_rx K s" and ?l = "ring_list (tx_ring s)"
  have t: "t = tick_tx K now ?r" using assms(2,3) tick_idle by simp
  have ok: "usb_ok ?r" using tick_rx_keep [of s K] assms(1) by (simp add: tx_keep_def)
  have idle: "\<not> ep3Busy ?r"
  proof
    assume "ep3Busy ?r"
    then have "t = ?r" by (simp add: t tick_tx_def)
    then show False using assms(4) by (simp add: tick_rx_tx)
  qed
  let ?since = "if partialPending s then partialSinceMs s else now"
  note c = tick_tx_cases [OF ok idle, where K = K and now = now, folded t, unfolded tick_rx_tx]
  have "\<not> 64 \<le> length ?l"
    using c(1) assms(4,5) by (auto simp del: ring_list_length)
  moreover have "?l \<noteq> []" using c(2) assms(4) by auto
  moreover have since: "1 \<le> now - ?since"
  proof (rule ccontr)
    assume n: "\<not> 1 \<le> now - ?since"
    have "ep3_log t = ep3_log s"
      using c(4) [OF \<open>?l \<noteq> []\<close> _ n] \<open>\<not> 64 \<le> length ?l\<close> by (simp add: tick_rx_tx del: ring_list_length)
    then show False using assms(4) by simp
  qed
  ultimately have "ep3_log t = ep3_log s @ [?l] \<and> ring_list (tx_ring t) = []"
    using c(3) by (simp del: ring_list_length)
  moreover have "partialPending s"
  proof (rule ccontr)
    assume "\<not> partialPending s"
    then show False using since by simp
  qed
  ultimately show ?thesis using assms(4) since by simp
qed

theorem short_packet_waits_witness:
  "let s = usb_static\<lparr>tx_ring := snd (ring_push [7] (tx_ring usb_static)), partialPending := True\<rparr> in
   \<exists>t. usb_tick wch 1 s = Some t \<and> ep3_log t = [[7]] \<and> [7] = ring_list (tx_ring s) \<and> ring_list (tx_ring t) = []"
proof -
  let ?s = "usb_static\<lparr>tx_ring := snd (ring_push [7] (tx_ring usb_static)), partialPending := True\<rparr>"
  have ok: "usb_ok ?s"
    using usb_static_ok ring_push_list(3) [of "tx_ring usb_static" "[7]"] by (simp add: usb_ok_def)
  have fg: "INT_FG ?s = 0" by simp
  have l: "ring_list (tx_ring ?s) = [7]" using static_push7 by simp
  define t where "t = tick_tx wch 1 (tick_rx wch ?s)"
  have r: "usb_ok (tick_rx wch ?s)" using tick_rx_keep [of ?s wch] ok by (simp add: tx_keep_def)
  have "\<not> ep3Busy (tick_rx wch ?s)" "partialPending (tick_rx wch ?s)" "partialSinceMs (tick_rx wch ?s) = 0"
    by (simp_all add: tick_rx_tx) (simp_all add: usb_static_def)
  then have t: "usb_tick wch 1 ?s = Some t" "ep3_log t = ep3_log ?s @ [[7]]"
    using tick_tx_cases(3) [OF r, where K = wch and now = 1] tick_idle [OF fg] l by (simp_all add: t_def tick_rx_tx del: ring_list_length)
  have "length [7 :: u8] < 64" by simp
  from short_packet_waits [OF ok fg t this] t show ?thesis unfolding Let_def by simp
qed

text \<open>
  Queued bytes do not wait for ever. With the endpoint idle and bytes queued, one tick and any later
  tick at least one millisecond on, without events between, hand over a packet: the first 64 bytes of
  the queue, or all of it.
\<close>

theorem tx_flush_latency:
  assumes "usb_ok s" and "INT_FG s = 0" and "\<not> ep3Busy s" and "ring_list (tx_ring s) \<noteq> []"
    and "1 \<le> t2 - t1"
  shows "\<exists>u v. usb_tick K t1 s = Some u \<and> usb_tick K t2 u = Some v \<and> ep3Busy v
    \<and> ep3_log v = ep3_log s @ [take 64 (ring_list (tx_ring s))]"
proof -
  let ?l = "ring_list (tx_ring s)" and ?u = "tick_tx K t1 (tick_rx K s)"
  have ok: "usb_ok (tick_rx K s)" using tick_rx_keep [of s K] assms(1) by (simp add: tx_keep_def)
  have idle: "\<not> ep3Busy (tick_rx K s)" using assms(3) by (simp add: tick_rx_tx)
  note c = tick_tx_cases [OF ok idle, where K = K and now = t1, unfolded tick_rx_tx]
  have u: "usb_tick K t1 s = Some ?u" using tick_idle [OF assms(2)] .
  have u_ok: "usb_ok ?u" "INT_FG ?u = 0"
    using tick_tx_moves(1,3) [OF ok, of K t1] assms(2) by (simp_all add: tick_rx_tx)
  have v: "usb_tick K t2 ?u = Some (tick_tx K t2 (tick_rx K ?u))" using tick_idle [OF u_ok(2)] .
  have u_rx: "usb_ok (tick_rx K ?u)" using tick_rx_keep [of ?u K] u_ok(1) by (simp add: tx_keep_def)
  have busy: "ep3Busy ?u \<Longrightarrow> tick_tx K t2 (tick_rx K ?u) = tick_rx K ?u"
    by (simp add: tick_tx_def tick_rx_tx)
  let ?since = "if partialPending s then partialSinceMs s else t1"
  have "ep3Busy (tick_tx K t2 (tick_rx K ?u)) \<and> ep3_log (tick_tx K t2 (tick_rx K ?u)) = ep3_log s @ [take 64 ?l]"
  proof (cases "64 \<le> length ?l \<or> 1 \<le> t1 - ?since")
    case True
    then have "ep3Busy ?u \<and> ep3_log ?u = ep3_log s @ [take 64 ?l]"
      using c(1,3) assms(4) by (cases "64 \<le> length ?l") (auto simp del: ring_list_length)
    then show ?thesis using busy by (simp add: tick_rx_tx)
  next
    case False
    then have "\<not> 1 \<le> t1 - ?since" by blast
    then have "unat (t1 - ?since) = 0" unfolding word_le_nat_alt by simp
    then have "t1 - ?since = 0" by (simp only: unat_eq_zero)
    then have "?since = t1" by (simp only: eq_iff_diff_eq_0 [symmetric])
    then have "?u = (tick_rx K s)\<lparr>partialPending := True, partialSinceMs := t1\<rparr>"
      using c(4) [OF assms(4)] False by (simp del: ring_list_length)
    then have f: "\<not> ep3Busy (tick_rx K ?u)" "tx_ring (tick_rx K ?u) = tx_ring s" "ep3_log (tick_rx K ?u) = ep3_log s"
      "partialPending (tick_rx K ?u)" "partialSinceMs (tick_rx K ?u) = t1"
      using assms(3) by (simp_all add: tick_rx_tx)
    then show ?thesis
      using tick_tx_cases(3) [OF u_rx f(1), where K = K and now = t2, unfolded f(2-5)] assms(4,5) False
      by (simp add: f(4,5) del: ring_list_length)
  qed
  then show ?thesis using u v by blast
qed

theorem tx_flush_latency_witness:
  "let s = usb_static\<lparr>tx_ring := snd (ring_push [7] (tx_ring usb_static))\<rparr> in
   \<exists>u v. usb_tick wch 0xFFFFFFFF s = Some u \<and> usb_tick wch 0 u = Some v \<and> ep3_log v = [[7]]"
proof -
  let ?s = "usb_static\<lparr>tx_ring := snd (ring_push [7] (tx_ring usb_static))\<rparr>"
  have ok: "usb_ok ?s"
    using usb_static_ok ring_push_list(3) [of "tx_ring usb_static" "[7]"] by (simp add: usb_ok_def)
  have "ring_list (tx_ring ?s) = [7]" using static_push7 by simp
  moreover have "(1 :: u32) \<le> 0 - 0xFFFFFFFF" by code_simp
  moreover have "INT_FG ?s = 0" "\<not> ep3Busy ?s" "ep3_log ?s = []"
    by (simp_all add: usb_static_def)
  ultimately show ?thesis
    unfolding Let_def using tx_flush_latency [OF ok, of 0 "0xFFFFFFFF" wch] by fastforce
qed

end
