(* ===== verification/UsbHalt.thy ===== *)
theory UsbHalt
  imports UsbRx
begin

text \<open>
  A halt-clear on bulk OUT against the flow control: \<open>ep2Nak_\<close> and the endpoint register disagree until
  the next bus reset or drain.
\<close>

text \<open>
  C27. A halt-clear on bulk OUT loses acknowledged bytes. While \<open>ep2Nak_\<close> holds the endpoint because the
  receive ring has no room for a packet, CLEAR_FEATURE(ENDPOINT_HALT) for endpoint 0x02 sets it to ACK all
  the same. The next packet is then acknowledged, and of its bytes only as many as the ring has room for
  are stored; the rest is lost although the host was told it arrived.
\<close>

theorem clear_halt_loses_out:
  assumes "sdk_ok K" and "irq_ok K" and "usb_ok s" and "INT_FG s = 0" and "ep2Nak s"
    and "ep0 s ! 0 AND REQ_TYP_MASK K = REQ_TYP_STANDARD K" and "ep0 s ! 0 AND REQ_RECIP_MASK K = RECIP_ENDP K"
    and "ep0 s ! 1 = CLEAR_FEATURE K" and "ucast (setup_word s 2 AND 0xFF) = FEAT_ENDP_HALT K"
    and "ucast (setup_word s 4 AND 0xFF) = (0x02 :: u8)" and "is_tok K st (TOKEN_OUT K) UEP2"
    and "length pkt \<le> 64" and "unat (ring_free (rx_ring s)) < length pkt"
  shows "\<exists>s1 s2 s3. handleSetup K s = Some s1 \<and> host_out K st pkt s1 = (pkt, s2) \<and> onIrq K s2 = Some s3
    \<and> ring_list (rx_ring s3) = ring_list (rx_ring s) @ take (unat (ring_free (rx_ring s))) pkt
    \<and> take (unat (ring_free (rx_ring s))) pkt \<noteq> pkt"
proof -
  have ne: "CLEAR_FEATURE K \<notin> {GET_DESCRIPTOR K, SET_ADDRESS K, GET_CONFIGURATION K, SET_CONFIGURATION K}"
    "RECIP_ENDP K \<noteq> RECIP_DEVICE K"
    using assms(1) by (auto simp: sdk_ok_def)
  let ?u = "(setup_start K s)\<lparr>UEP2_CTRL := R_RES_ACK K\<rparr>"
  let ?s1 = "setup_reply K False ?u"
  have "clear_halt K 0x02 (setup_start K s) = (False, ?u)"
    by (simp add: clear_halt_def UEP_IN_def UEP_OUT_def UEP1_def UEP2_def UEP3_def)
  then have "clear_feature K (setup_start K s) = (False, ?u)"
    using assms(7,9,10) ne(2) by (simp add: clear_feature_def)
  then have s1: "handleSetup K s = Some ?s1"
    using assms(6,8) ne(1) by (simp add: handleSetup_start standard_request_def)
  have f1: "INT_FG ?s1 = 0" "UEP2_CTRL ?s1 = R_RES_ACK K" "rx_ring ?s1 = rx_ring s" "ep2 ?s1 = ep2 s"
    using assms(4) by (simp_all add: setup_reply_def setup_start_def Let_def)
  let ?s2 = "(complete K st (length pkt) ?s1)\<lparr>ep2 := pkt @ drop (length pkt) (ep2 ?s1)\<rparr>"
  have "r_res K (R_RES_ACK K) = R_RES_ACK K" using sdk_values(4) [OF assms(1)] by (simp add: r_res_def)
  then have s2: "host_out K st pkt ?s1 = (pkt, ?s2)" unfolding host_out_def bus_free_def f1 using assms(11,12) by simp
  let ?r = "ep2_received K ?s2"
  let ?s3 = "?r\<lparr>INT_FG := INT_FG ?r AND NOT (UIF_TRANSFER K)\<rparr>"
  have s3: "onIrq K ?s2 = Some ?s3"
    using assms(11) irq_ne [OF assms(2)] f1(1) by (simp add: onIrq_def is_tok_def on_out_def Let_def)
  have n: "unat (of_nat (length pkt) :: u16) = length pkt" using assms(12) by (simp add: unat_of_nat)
  have wf: "ring_wf (rx_ring s) \<or> ring_lin (rx_ring s)" using assms(3) by (simp add: usb_ok_def)
  have fits: "ring_fits (rx_ring s)" using assms(3) by (simp add: usb_ok_def ring_wf_def)
  have "length pkt < 2 ^ 32" using assms(12) by simp
  then have "ring_list (snd (ring_push pkt (rx_ring s))) = ring_list (rx_ring s) @ take (unat (ring_free (rx_ring s))) pkt"
    using ring_push_list(1,5) [OF wf, of pkt] ring_free_unat [OF fits] assms(13) by simp
  moreover have "rx_ring ?s3 = snd (ring_push pkt (rx_ring s))"
    using n f1(3) by (simp add: ep2_received_def Let_def)
  moreover have "take (unat (ring_free (rx_ring s))) pkt \<noteq> pkt"
    using assms(13) by (metis leD length_take min.cobounded2 order_refl)
  ultimately show ?thesis using s1 s2 s3 by (intro exI [of _ ?s1] exI [of _ ?s2] exI [of _ ?s3]) simp
qed

theorem clear_halt_loses_out_witness:
  "let s = usb_static\<lparr>ep0 := [0x02, 0x01, 0, 0, 0x02, 0, 0, 0] @ replicate 56 0, ep2Nak := True,
       rx_ring := (rx_ring usb_static)\<lparr>r_head := of_nat kRxCapacity\<rparr>\<rparr> in
   \<exists>s1 s2 s3. handleSetup wch s = Some s1 \<and> host_out wch 0x42 [1, 2] s1 = ([1, 2], s2) \<and> onIrq wch s2 = Some s3
     \<and> ring_list (rx_ring s3) = ring_list (rx_ring s)"
proof -
  let ?s = "usb_static\<lparr>ep0 := [0x02, 0x01, 0, 0, 0x02, 0, 0, 0] @ replicate 56 0, ep2Nak := True,
       rx_ring := (rx_ring usb_static)\<lparr>r_head := of_nat kRxCapacity\<rparr>\<rparr>"
  have w: "setup_word ?s 2 = 0" "setup_word ?s 4 = 0x02" by (simp_all add: setup_word_def)
  have h: "INT_FG ?s = 0" "ep2Nak ?s" "ep0 ?s ! 0 AND REQ_TYP_MASK wch = REQ_TYP_STANDARD wch"
    "ep0 ?s ! 0 AND REQ_RECIP_MASK wch = RECIP_ENDP wch" "ep0 ?s ! 1 = CLEAR_FEATURE wch"
    "ucast (setup_word ?s 2 AND 0xFF) = FEAT_ENDP_HALT wch" "ucast (setup_word ?s 4 AND 0xFF) = (0x02 :: u8)"
    unfolding w by (simp_all add: usb_static_def)
  have ok: "usb_ok ?s" and free: "unat (ring_free (rx_ring ?s)) = 0"
    using usb_static_ok by (simp_all add: usb_ok_def ring_wf_def ring_fits_def ring_size_def ring_free_def usb_static_def kRxCapacity_def ring_cap_def)
  have st: "is_tok wch 0x42 (TOKEN_OUT wch) UEP2" by (simp add: is_tok_def UEP2_def)
  have len: "length [1, 2 :: u8] \<le> 64" "unat (ring_free (rx_ring ?s)) < length [1, 2 :: u8]" using free by simp_all
  show ?thesis
    unfolding Let_def
    using clear_halt_loses_out [OF wch_ok wch_irq_ok ok h st len] unfolding free take_0 append_Nil2 by blast
qed

end
