(* ===== verification/UsbDrain.thy ===== *)
theory UsbDrain
  imports UsbRx
begin

text \<open>
  The zero-copy producer of the two capture datapaths: the main loop reserves a run of the transmit
  ring, stores bytes through the raw pointer while \<open>pump\<close> consumes from the same ring in between, and
  commits what it stored. The lemmas say that the interleaved \<open>pump\<close> and the stores do not interfere:
  the stream the host sees grows by exactly the stored bytes.
\<close>

subsection \<open>What a pump does to the transmit ring\<close>

text \<open>A \<open>pump\<close> never sees a bus reset: it only runs the handler on a completed transfer.\<close>

definition tx_pops :: "usb \<Rightarrow> usb \<Rightarrow> bool" where
  "tx_pops s t \<longleftrightarrow> (\<exists>n. unat n \<le> length (ring_list (tx_ring s)) \<and> tx_ring t = ring_readCommit n (tx_ring s)
     \<and> concat (ep3_log t) = concat (ep3_log s) @ take (unat n) (ring_list (tx_ring s)))"

lemma tx_pops_same: "tx_ring t = tx_ring s \<Longrightarrow> ep3_log t = ep3_log s \<Longrightarrow> tx_pops s t"
  by (auto simp: tx_pops_def ring_readCommit_def intro!: exI [of _ 0])

lemma arm_pops:
  assumes "usb_ok s" "armEp3FromTx K short s = (ok, t)"
  shows "tx_pops s t"
proof (cases ok)
  case False
  then have "t = s" using assms(2) by (auto simp: armEp3FromTx_def Let_def split: if_splits prod.splits)
  then show ?thesis by (simp add: tx_pops_same)
next
  case True
  let ?size = "ring_size (tx_ring s)"
  let ?n = "if ?size > 64 then 64 else ?size"
  have le: "unat ?n \<le> unat ?size" by (auto simp: word_less_nat_alt)
  have pop: "snd (ring_pop ?n (tx_ring s)) = ring_readCommit ?n (tx_ring s)"
    by (auto simp: ring_pop_def ring_readCommit_def Let_def)
  have "t = armEp3 K (ucast ?n)
     ((if ?n = 64 then (\<lambda>s. s\<lparr>fullPkts := fullPkts s + 1\<rparr>) else (\<lambda>s. s\<lparr>shortPkts := shortPkts s + 1\<rparr>))
       (s\<lparr>ep3 := fst (ring_pop ?n (tx_ring s)) @ drop (length (fst (ring_pop ?n (tx_ring s)))) (ep3 s),
          tx_ring := snd (ring_pop ?n (tx_ring s)), txBytes := txBytes s + ?n\<rparr>))"
    using assms(2) True
    by (auto simp: armEp3FromTx_def Let_def kPacket_u32 case_prod_beta split: if_splits)
  then have tx: "tx_ring t = ring_readCommit ?n (tx_ring s)" using pop by (simp add: armEp3_def)
  have pre: "ring_wf (tx_ring s)" "length (ep3 s) = 64" using assms(1) by (simp_all add: usb_ok_def)
  have "min 64 (unat ?size) = unat ?n" by (auto simp: word_less_nat_alt min_def)
  then have "ep3_log t = ep3_log s @ [take (unat ?n) (ring_list (tx_ring s))]"
    using armEp3FromTx_spec(2) [OF pre assms(2) True] by simp
  then show ?thesis unfolding tx_pops_def using tx le by (intro exI [of _ ?n]) simp
qed

lemma pump_pops:
  assumes "usb_ok s" "pump K s = Some t"
  shows "tx_pops s t"
proof -
  let ?d = "(ep3_done K s)\<lparr>INT_FG := INT_FG (ep3_done K s) AND NOT (UIF_TRANSFER K)\<rparr>"
  obtain a u where au: "armEp3FromTx K False ?d = (a, u)" by fastforce
  have "t = s \<or> (INT_FG s AND UIF_TRANSFER K \<noteq> 0 \<and> onIrq K s = Some t)
      \<or> t = (if a then u\<lparr>partialPending := False\<rparr> else u)"
    using assms(2) au unfolding pump_def by (simp add: Let_def split: if_splits)
  then consider (idle) "t = s" | (irq) "INT_FG s AND UIF_TRANSFER K \<noteq> 0" "onIrq K s = Some t"
    | (arm) "t = (if a then u\<lparr>partialPending := False\<rparr> else u)"
    by blast
  then show ?thesis
  proof cases
    case idle
    then show ?thesis by (simp add: tx_pops_same)
  next
    case irq
    then obtain u where u: "t = u\<lparr>INT_FG := INT_FG u AND NOT (UIF_TRANSFER K)\<rparr>"
      "tx_keep s u \<or> u = ep3_done K s"
      using on_in_keep on_out_keep handleSetup_keep unfolding onIrq_def Let_def
      by (auto split: Option.bind_splits if_splits)
    then show ?thesis using ep3_done_fields [of K s] by (intro tx_pops_same) (auto simp: tx_keep_def)
  next
    case arm
    have "usb_ok ?d" "tx_ring ?d = tx_ring s" "ep3_log ?d = ep3_log s"
      using assms(1) ep3_done_fields [of K s] by (simp_all add: usb_ok_def)
    moreover have "tx_pops s u"
      using arm_pops [OF calculation(1) au] calculation(2,3) by (simp add: tx_pops_def)
    ultimately show ?thesis using arm by (simp add: tx_pops_def)
  qed
qed

subsection \<open>The reserved run\<close>

text \<open>
  In the middle of a drain that began in \<open>s0\<close>: \<open>outs\<close> has been stored behind the producer cursor but is
  not committed; \<open>room\<close> more bytes fit.
\<close>

abbreviation work_ring :: "u8 list \<Rightarrow> usb \<Rightarrow> u8 ring" where
  "work_ring outs s \<equiv> ring_writeCommit (of_nat (length outs)) (tx_ring s)"

definition draining :: "bool \<Rightarrow> sdk \<Rightarrow> usb \<Rightarrow> nat \<Rightarrow> u8 list \<Rightarrow> nat \<Rightarrow> usb \<Rightarrow> bool" where
  "draining R K s0 dst outs room s \<longleftrightarrow> rx_inv R K s
     \<and> ring_wf (work_ring outs s)
     \<and> concat (ep3_log s) @ ring_list (work_ring outs s) = concat (ep3_log s0) @ ring_list (tx_ring s0) @ outs
     \<and> room \<le> unat (ring_free (work_ring outs s))
     \<and> unat (ring_size (tx_ring s)) + length outs = unat (ring_size (work_ring outs s))
     \<and> unat (r_head (tx_ring s)) mod kTxCapacity = dst \<and> dst + length outs + room \<le> kTxCapacity"

lemma tx_len: "rx_inv R K s \<Longrightarrow> ring_len (tx_ring s) = kTxCapacity \<and> ring_wf (tx_ring s)"
  by (simp add: rx_inv_def usb_ok_def)

lemma writeCommit_frame [simp]:
  "r_buf (ring_writeCommit n r) = r_buf r" "r_tail (ring_writeCommit n r) = r_tail r"
  "ring_cap (ring_writeCommit n r) = ring_cap r" "r_head (ring_writeCommit n r) = r_head r + n"
  "r_buf (ring_readCommit n r) = r_buf r" "r_head (ring_readCommit n r) = r_head r"
  by (simp_all add: ring_writeCommit_def ring_cap_def ring_readCommit_def)

lemma writeCommit_0 [simp]: "ring_writeCommit 0 r = r"
  by (simp add: ring_writeCommit_def)

lemma draining_start:
  assumes "rx_inv R K s" "(dst, cap) = usb_txReserve s"
  shows "draining R K s dst [] (unat cap) s"
proof -
  have wf: "ring_wf (tx_ring s)" "ring_len (tx_ring s) = kTxCapacity" using tx_len [OF assms(1)] by simp_all
  have d: "dst = ring_writePtr (tx_ring s)" "cap = ring_freeContig (tx_ring s)"
    using assms(2) by (simp_all add: usb_txReserve_def)
  have "dst = unat (r_head (tx_ring s)) mod kTxCapacity"
    using ring_head_slot [OF wf(1), of 0] wf(2) by (simp add: d ring_writePtr_def)
  moreover have "work_ring [] s = tx_ring s" by (simp add: ring_writeCommit_def)
  moreover have "dst + unat cap \<le> kTxCapacity"
    using ring_freeContig_bounds(2) [OF wf(1), of "unat cap"] wf(2) by (simp add: d)
  ultimately show ?thesis
    using assms(1) wf ring_freeContig_bounds(1) [OF wf(1), of "unat cap"] d
    by (simp add: draining_def)
qed

text \<open>The working ring extends the ring.\<close>

lemma work_prefix:
  assumes "draining R K s0 dst outs room s"
  shows "ring_list (tx_ring s) = take (unat (ring_size (tx_ring s))) (ring_list (work_ring outs s))"
  using assms by (simp add: draining_def ring_list_def take_map)

lemma draining_pump:
  assumes "sdk_ok K" "irq_ok K" "draining R K s0 dst outs room s"
  shows "\<exists>t. pump K s = Some t \<and> draining R K s0 dst outs room t"
proof -
  let ?R = "tx_ring s" and ?W = "work_ring outs s"
  have inv: "rx_inv R K s" using assms(3) by (simp add: draining_def)
  obtain t where t: "pump K s = Some t" "rx_inv R K t" using pump_rx [OF assms(1,2) inv] by blast
  have "usb_ok s" using inv by (simp add: rx_inv_def)
  from pump_pops [OF this t(1)] obtain n where n: "unat n \<le> unat (ring_size ?R)"
    "tx_ring t = ring_readCommit n ?R"
    "concat (ep3_log t) = concat (ep3_log s) @ take (unat n) (ring_list ?R)"
    unfolding tx_pops_def by auto
  have W: "work_ring outs t = ring_readCommit n ?W"
    by (simp add: n(2) ring_readCommit_def ring_writeCommit_def)
  have sizes: "unat (ring_size ?R) + length outs = unat (ring_size ?W)"
    using assms(3) by (simp add: draining_def)
  then have le: "unat n \<le> unat (ring_size ?W)" using n(1) by simp
  have "take (unat n) (ring_list ?R) = take (unat n) (ring_list ?W)"
    unfolding work_prefix [OF assms(3)] using n(1) by (simp add: min_def)
  moreover have "ring_list (work_ring outs t) = drop (unat n) (ring_list ?W)"
    using ring_readCommit_list(1) [OF le] W by simp
  ultimately have stream: "concat (ep3_log t) @ ring_list (work_ring outs t) = concat (ep3_log s) @ ring_list ?W"
    using n(3) by simp
  have wf: "ring_wf (work_ring outs t)"
    using ring_readCommit_list(3) [OF le] assms(3) W by (simp add: draining_def)
  have fits: "ring_fits ?W" "ring_fits (work_ring outs t)"
    using wf assms(3) by (simp_all add: draining_def ring_wf_def)
  have size: "unat (ring_size (work_ring outs t)) = unat (ring_size ?W) - unat n"
    "unat (ring_size (tx_ring t)) = unat (ring_size ?R) - unat n"
    using ring_readCommit_list(1) [OF le] ring_readCommit_list(1) [OF n(1)] W n(2)
    by (metis length_drop ring_list_length)+
  have "ring_len (work_ring outs t) = ring_len ?W" by (simp add: n(2))
  moreover have "room \<le> unat (ring_free ?W)" using assms(3) by (simp add: draining_def)
  ultimately have free: "room \<le> unat (ring_free (work_ring outs t))"
    using size(1) ring_free_unat [OF fits(1)] ring_free_unat [OF fits(2)] by linarith
  show ?thesis
    using t assms(3) stream wf free size sizes n(1,2) by (simp add: draining_def)
qed

lemma ring_wf_buf: "length xs = ring_len r \<Longrightarrow> ring_wf r \<Longrightarrow> ring_wf (r\<lparr>r_buf := xs\<rparr>)"
  by (auto simp: ring_wf_def ring_fits_def ring_size_def)

text \<open>A store through the reserved pointer.\<close>

definition tx_poke :: "nat \<Rightarrow> u8 \<Rightarrow> usb \<Rightarrow> usb option" where
  "tx_poke off b s = map_option (\<lambda>r. s\<lparr>tx_ring := r\<rparr>) (ring_poke off b (tx_ring s))"

lemma draining_poke:
  assumes "draining R K s0 dst outs (Suc room) s"
  shows "\<exists>t. tx_poke (dst + length outs) b s = Some t \<and> draining R K s0 dst (outs @ [b]) room t"
proof -
  let ?R = "tx_ring s" and ?W = "work_ring outs s"
  let ?i = "dst + length outs"
  have inv: "rx_inv R K s" and wf: "ring_wf ?W" and free: "Suc room \<le> unat (ring_free ?W)"
    and head: "unat (r_head ?R) mod kTxCapacity = dst" and bound: "?i + Suc room \<le> kTxCapacity"
    using assms by (simp_all add: draining_def)
  have len: "ring_len ?R = kTxCapacity" "ring_wf ?R" using tx_len [OF inv] by simp_all
  let ?t = "s\<lparr>tx_ring := ?R\<lparr>r_buf := (r_buf ?R)[?i := b]\<rparr>\<rparr>"
  have run: "tx_poke ?i b s = Some ?t"
    using bound len(1) by (simp add: tx_poke_def ring_poke_def put_def)
  have slot: "unat (ring_index (ring_cap ?W) (r_head ?W)) = ?i"
    using ring_head_slot [OF len(2), of "length outs"] mod_no_wrap [of "unat (r_head ?R)" kTxCapacity "length outs"]
      head bound len(1) by simp
  have W: "work_ring (outs @ [b]) ?t = ring_copyIn [b] 1 ?W"
    using slot by (simp add: ring_copyIn_def ring_writeCommit_def ring_cap_def add.assoc)
  have one: "unat (1 :: u32) \<le> unat (ring_free ?W)" using free by simp
  note c = ring_copyIn_list [OF disjI1 [OF wf] one, of "[b]", simplified]
  have wf': "ring_wf (work_ring (outs @ [b]) ?t)"
    using ring_copyIn_wf(1) [OF one, of "[b]"] wf W by simp
  have "ring_list (work_ring (outs @ [b]) ?t) = ring_list ?W @ [b]" using c(1) W by simp
  moreover have size: "unat (ring_size (work_ring (outs @ [b]) ?t)) = Suc (unat (ring_size ?W))"
    using c(2,4) W by simp
  moreover have "room \<le> unat (ring_free (work_ring (outs @ [b]) ?t))"
  proof -
    have fits: "ring_fits ?W" "ring_fits (work_ring (outs @ [b]) ?t)"
      using wf wf' unfolding ring_wf_def by blast+
    have "ring_len (work_ring (outs @ [b]) ?t) = ring_len ?W" by simp
    then show ?thesis
      using ring_free_unat [OF fits(1)] ring_free_unat [OF fits(2)] free size by linarith
  qed
  moreover have "rx_inv R K ?t"
    using inv ring_wf_buf [of "(r_buf ?R)[?i := b]" ?R] by (simp add: rx_inv_def usb_ok_def)
  ultimately show ?thesis
    using run wf' assms bound by (intro exI [of _ ?t]) (simp add: draining_def ring_size_def)
qed

lemma draining_commit:
  assumes "draining R K s0 dst outs room s"
  defines "t \<equiv> usb_txCommit (of_nat (length outs)) s"
  shows "rx_inv R K t"
    and "concat (ep3_log t) @ ring_list (tx_ring t) = concat (ep3_log s0) @ ring_list (tx_ring s0) @ outs"
  using assms(1)
  by (simp_all add: draining_def t_def usb_txCommit_def rx_inv_def usb_ok_def)

end
