(* ===== verification/UsbBus.thy ===== *)
theory UsbBus
  imports UsbDrain
begin

text \<open>
  The device-to-host direction under all of the bus: what a sequence of bus operations and calls does to
  the stream the host reads.
\<close>

text \<open>The bytes handed to endpoint 3 so far and those still queued for it.\<close>

definition usb_stream :: "usb \<Rightarrow> u8 list" where
  "usb_stream u = concat (ep3_log u) @ ring_list (tx_ring u)"

text \<open>
  From \<open>s\<close> to \<open>t\<close> the bytes \<open>xs\<close> were queued: nothing else reached the stream, and without bus resets, which
  drop what is queued, exactly these did.
\<close>

definition sent :: "bool \<Rightarrow> usb \<Rightarrow> u8 list \<Rightarrow> usb \<Rightarrow> bool" where
  "sent R s xs t \<longleftrightarrow> subseq (usb_stream t) (usb_stream s @ xs) \<and> (R \<or> usb_stream t = usb_stream s @ xs)"

lemma sent_eq: "usb_stream t = usb_stream s @ xs \<Longrightarrow> sent R s xs t"
  by (simp add: sent_def)

lemma sent_refl [simp]: "sent R s [] s"
  by (simp add: sent_def)

lemma sent_same: "usb_stream t = usb_stream s \<Longrightarrow> sent R s [] t"
  by (simp add: sent_def)

lemma sent_trans:
  assumes "sent R s xs t" "sent R t ys u"
  shows "sent R s (xs @ ys) u"
proof -
  have "subseq (usb_stream t @ ys) ((usb_stream s @ xs) @ ys)" using assms(1) by (simp only: sent_def subseq_append)
  then have "subseq (usb_stream u) (usb_stream s @ xs @ ys)"
    using assms(2) subseq_order.order_trans unfolding sent_def append_assoc by blast
  then show ?thesis using assms by (auto simp: sent_def)
qed

lemma sent_exact: "sent False s xs t \<Longrightarrow> usb_stream t = usb_stream s @ xs"
  by (simp add: sent_def)

text \<open>One poll: the handlers leave the transmit side alone, but for a bus reset.\<close>

lemma onIrq_log:
  assumes "onIrq K s = Some t"
  shows "ep3_log t = ep3_log s \<and> (tx_ring t = tx_ring s \<or> INT_FG s AND UIF_BUS_RST K \<noteq> 0 \<and> tx_ring t = ring_clear (tx_ring s))"
proof (cases "INT_FG s AND UIF_TRANSFER K = 0")
  case True
  then show ?thesis
    using assms by (auto simp: onIrq_def busReset_def endpointInit_def Let_def split: if_splits)
next
  case False
  then obtain u where "t = u\<lparr>INT_FG := INT_FG u AND NOT (UIF_TRANSFER K)\<rparr>" "tx_keep s u \<or> u = ep3_done K s"
    using assms on_in_keep on_out_keep handleSetup_keep unfolding onIrq_def Let_def
    by (auto split: Option.bind_splits if_splits)
  then show ?thesis using ep3_done_fields [of K s] by (auto simp: tx_keep_def)
qed

lemma moves_stream: "tx_moves s t \<Longrightarrow> usb_stream t = usb_stream s"
  by (auto simp: tx_moves_def usb_stream_def)

lemma usb_tick_sent:
  assumes "rx_inv R K s" "usb_tick K now s = Some t"
  shows "sent R s [] t"
proof -
  have ok: "usb_ok s" "R \<or> INT_FG s AND UIF_BUS_RST K = 0" using assms(1) by (simp_all add: rx_inv_def)
  obtain u where u: "t = tick_tx K now (tick_rx K u)" "u = s \<or> onIrq K s = Some u"
    using assms(2) by (auto simp: usb_tick_def split: Option.bind_splits if_splits)
  have "usb_ok u" using u(2) onIrq_tx(1) [of K s u] ok(1) by blast
  then have "usb_ok (tick_rx K u)" using tick_rx_keep [of u K] by (simp add: tx_keep_def)
  then have "usb_stream t = usb_stream (tick_rx K u)" unfolding u(1) by (rule moves_stream [OF tick_tx_moves(2)])
  then have t: "usb_stream t = usb_stream u" by (simp add: usb_stream_def tick_rx_tx)
  have log: "ep3_log u = ep3_log s \<and> (tx_ring u = tx_ring s \<or> R \<and> tx_ring u = ring_clear (tx_ring s))"
    using u(2) ok(2) onIrq_log [of K s u] by auto
  show ?thesis using log unfolding sent_def t by (auto simp: usb_stream_def)
qed

lemma pump_stream:
  assumes "usb_ok s" "pump K s = Some t"
  shows "usb_stream t = usb_stream s"
proof -
  obtain n where n: "unat n \<le> length (ring_list (tx_ring s))" "tx_ring t = ring_readCommit n (tx_ring s)"
    "concat (ep3_log t) = concat (ep3_log s) @ take (unat n) (ring_list (tx_ring s))"
    using pump_pops [OF assms] by (auto simp: tx_pops_def)
  have "ring_list (tx_ring t) = drop (unat n) (ring_list (tx_ring s))"
    using ring_readCommit_list(1) [of n "tx_ring s"] n(1,2) by simp
  then show ?thesis by (simp add: usb_stream_def n(3))
qed

text \<open>Calls and bus traffic between two service calls: everything but writes.\<close>

fun bus_idle_op :: "bool \<Rightarrow> sdk \<Rightarrow> bus_op \<Rightarrow> bool" where
  "bus_idle_op R K (Call (UsbWrite xs)) = False"
| "bus_idle_op R K op = main_loop_op R K op"

lemma bus_idle_main: "bus_idle_op R K op \<Longrightarrow> main_loop_op R K op"
  by (cases "(R, K, op)" rule: bus_idle_op.cases) simp_all

lemma host_tx:
  "usb_stream (snd (host_out K st pkt s)) = usb_stream s" "usb_stream (host_in K st s) = usb_stream s"
  "usb_stream (host_setup K st pkt s) = usb_stream s" "usb_stream (host_ep0_in K st s) = usb_stream s"
  "usb_stream (host_ep0_out K st pkt s) = usb_stream s" "usb_stream (host_suspend K mis s) = usb_stream s"
  "usb_stream (host_reset K s) = usb_stream s"
  by (simp_all add: host_out_def host_in_def host_setup_def host_ep0_in_def host_ep0_out_def host_suspend_def
      host_reset_def complete_def usb_stream_def)

lemma bus_step_sent:
  assumes "rx_inv R K s" "bus_step K op s = Some (acc, rd, t)" "bus_idle_op R K op"
  shows "sent R s [] t"
proof (cases op)
  case (HostOut st pkt)
  then show ?thesis using assms(2) host_tx(1) [of K st pkt s] by (auto intro: sent_same split: prod.splits)
next
  case (Call c)
  have ok: "usb_ok s" using assms(1) by (simp add: rx_inv_def)
  show ?thesis
  proof (cases c)
    case (UsbTick now)
    then show ?thesis using assms(2) Call usb_tick_sent [OF assms(1)] by auto
  next
    case UsbPump
    then show ?thesis using assms(2) Call pump_stream [OF ok] by (auto intro: sent_same)
  qed (use assms(2,3) Call in \<open>auto simp: usb_read_def usb_stream_def intro!: sent_same split: prod.splits\<close>)
qed (use assms(2) host_tx(2-7) in \<open>auto intro!: sent_same\<close>)

lemma bus_run_sent:
  assumes "sdk_ok K" "irq_ok K" "rx_inv R K s" "list_all (bus_idle_op R K) ops"
  shows "\<exists>acc rd t. bus_run K ops s = Some (acc, rd, t) \<and> rx_inv R K t \<and> sent R s [] t"
  using assms(3,4)
proof (induction ops arbitrary: s)
  case (Cons op ops)
  have op: "bus_idle_op R K op" "list_all (bus_idle_op R K) ops" using Cons.prems(2) by simp_all
  obtain acc rd t where t: "bus_step K op s = Some (acc, rd, t)" "rx_moves R K (same_session K op) s acc rd t"
    using bus_step_rx [OF assms(1,2) Cons.prems(1) bus_idle_main [OF op(1)]] by blast
  have inv: "rx_inv R K t" using t(2) by (simp add: rx_moves_def)
  have s: "sent R s [] t" by (rule bus_step_sent [OF Cons.prems(1) t(1) op(1)])
  obtain acc' rd' u where u: "bus_run K ops t = Some (acc', rd', u)" "rx_inv R K u" "sent R t [] u"
    using Cons.IH [OF inv op(2)] by blast
  then show ?case using t(1) sent_trans [OF s u(3)] by simp
qed simp

text \<open>Without bus resets the stream is untouched.\<close>

lemma bus_run_stream:
  assumes "sdk_ok K" "irq_ok K" "rx_inv False K s" "list_all (bus_idle_op False K) ops"
  shows "\<exists>acc rd t. bus_run K ops s = Some (acc, rd, t) \<and> rx_inv False K t \<and> usb_stream t = usb_stream s"
proof -
  obtain acc rd t where "bus_run K ops s = Some (acc, rd, t)" "rx_inv False K t" "sent False s [] t"
    using bus_run_sent [OF assms] by blast
  then show ?thesis using sent_exact [of s "[]" t] by simp
qed

end
