(* ===== verification/Cobs.thy ===== *)
theory Cobs
  imports Prelude
begin

text \<open>
  The COBS codec of \<^verbatim>\<open>src/util/cobs.hpp\<close>, in both keyings.

  Each loop takes the input that is still unread (\<open>in[read_index..length)\<close>), the cursors and the
  caller's buffer. The cursors are \<open>size_t\<close> values that index real buffers, so they are natural
  numbers; the code byte is a \<^typ>\<open>u8\<close>. The result of an encoder is the number of bytes written and
  the buffer, \<open>None\<close> when a store left the buffer. A decoder that rejects its input returns
  length 0 and the buffer as it left it.
\<close>

subsection \<open>Worst-case sizes\<close>

definition maxEncoded :: "nat \<Rightarrow> nat" where
  "maxEncoded n = n + n div 254 + 1"

definition ffMaxEncoded :: "nat \<Rightarrow> nat" where
  "ffMaxEncoded n = n + n div 253 + 1"

subsection \<open>Standard keying (delimiter 0x00)\<close>

fun encode_loop :: "u8 list \<Rightarrow> nat \<Rightarrow> nat \<Rightarrow> u8 \<Rightarrow> u8 list \<Rightarrow> (nat \<times> u8 list) option" where
  "encode_loop [] write_index code_index code out = do {
     out \<leftarrow> put out code_index code;
     Some (write_index, out) }"
| "encode_loop (x # xs) write_index code_index code out =
    (if x = 0x00 then do {
       out \<leftarrow> put out code_index code;
       encode_loop xs (write_index + 1) write_index 1 out }
     else do {
       out \<leftarrow> put out write_index x;
       if code + 1 = 0xFF then do {
         out \<leftarrow> put out code_index (code + 1);
         encode_loop xs (write_index + 2) (write_index + 1) 1 out }
       else encode_loop xs (write_index + 1) code_index (code + 1) out })"

definition encode :: "u8 list \<Rightarrow> u8 list \<Rightarrow> (nat \<times> u8 list) option" where
  "encode inp out = encode_loop inp 1 0 1 out"

text \<open>\<open>for (i = 1; i < code; i++) out[write_index++] = in[read_index++]\<close>\<close>

fun copy_out :: "u8 list \<Rightarrow> nat \<Rightarrow> u8 list \<Rightarrow> u8 list option" where
  "copy_out [] write_index out = Some out"
| "copy_out (x # xs) write_index out = do {
     out \<leftarrow> put out write_index x;
     copy_out xs (write_index + 1) out }"

function decode_loop :: "u8 list \<Rightarrow> nat \<Rightarrow> u8 list \<Rightarrow> (nat \<times> u8 list) option" where
  "decode_loop [] write_index out = Some (write_index, out)"
| "decode_loop (code # rest) write_index out =
    (if code = 0x00 then Some (0, out)
     else let n = unat (code - 1) in
       if n > length rest then Some (0, out)
       else do {
         out \<leftarrow> copy_out (take n rest) write_index out;
         if code \<noteq> 0xFF \<and> drop n rest \<noteq> [] then do {
           out \<leftarrow> put out (write_index + n) 0x00;
           decode_loop (drop n rest) (write_index + n + 1) out }
         else decode_loop (drop n rest) (write_index + n) out })"
  by pat_completeness auto
termination
  by (relation "measure (\<lambda>(rest, w, out). length rest)") auto

definition decode :: "u8 list \<Rightarrow> u8 list \<Rightarrow> (nat \<times> u8 list) option" where
  "decode inp out = decode_loop inp 0 out"

subsection \<open>Record keying (delimiter 0xFF)\<close>

fun ffEncode_loop :: "u8 list \<Rightarrow> nat \<Rightarrow> nat \<Rightarrow> u8 \<Rightarrow> u8 list \<Rightarrow> (nat \<times> u8 list) option" where
  "ffEncode_loop [] write_index code_index code out = do {
     out \<leftarrow> put out code_index code;
     Some (write_index, out) }"
| "ffEncode_loop (x # xs) write_index code_index code out =
    (if x = 0xFF then do {
       out \<leftarrow> put out code_index code;
       ffEncode_loop xs (write_index + 1) write_index 1 out }
     else do {
       out \<leftarrow> put out write_index x;
       if code + 1 = 0xFE then do {
         out \<leftarrow> put out code_index (code + 1);
         ffEncode_loop xs (write_index + 2) (write_index + 1) 1 out }
       else ffEncode_loop xs (write_index + 1) code_index (code + 1) out })"

definition ffEncode :: "u8 list \<Rightarrow> u8 list \<Rightarrow> (nat \<times> u8 list) option" where
  "ffEncode inp out = ffEncode_loop inp 1 0 1 out"

function ffDecode_loop :: "u8 list \<Rightarrow> nat \<Rightarrow> u8 list \<Rightarrow> (nat \<times> u8 list) option" where
  "ffDecode_loop [] write_index out = Some (write_index, out)"
| "ffDecode_loop (code # rest) write_index out =
    (if code = 0xFF \<or> code = 0x00 then Some (0, out)
     else let n = unat (code - 1) in
       if n > length rest then Some (0, out)
       else do {
         out \<leftarrow> copy_out (take n rest) write_index out;
         if code \<noteq> 0xFE \<and> drop n rest \<noteq> [] then do {
           out \<leftarrow> put out (write_index + n) 0xFF;
           ffDecode_loop (drop n rest) (write_index + n + 1) out }
         else ffDecode_loop (drop n rest) (write_index + n) out })"
  by pat_completeness auto
termination
  by (relation "measure (\<lambda>(rest, w, out). length rest)") auto

definition ffDecode :: "u8 list \<Rightarrow> u8 list \<Rightarrow> (nat \<times> u8 list) option" where
  "ffDecode inp out = ffDecode_loop inp 0 out"

subsection \<open>The code as a list, and the laws of a keying\<close>

text \<open>
  \<open>cobs_ref delim full blk xs\<close> is the encoded stream itself, with no buffer and no cursors:
  \<open>blk\<close> is the group that is being collected, \<open>xs\<close> the input still to come.
\<close>

fun cobs_ref :: "u8 \<Rightarrow> u8 \<Rightarrow> u8 list \<Rightarrow> u8 list \<Rightarrow> u8 list" where
  "cobs_ref delim full blk [] = of_nat (length blk + 1) # blk"
| "cobs_ref delim full blk (x # xs) =
    (if x = delim then of_nat (length blk + 1) # blk @ cobs_ref delim full [] xs
     else if length blk + 2 = unat full then full # blk @ [x] @ cobs_ref delim full [] xs
     else cobs_ref delim full (blk @ [x]) xs)"

lemma cobs_ref_nonempty [simp]: "cobs_ref delim full blk xs \<noteq> []"
  by (induction xs arbitrary: blk) auto

lemma copy_out_append:
  "length xs \<le> length rest \<Longrightarrow>
   copy_out xs (length pre) (pre @ rest) = Some (pre @ xs @ drop (length xs) rest)"
proof (induction xs arbitrary: pre rest)
  case Nil
  then show ?case by simp
next
  case (Cons x xs)
  then obtain r rest' where r: "rest = r # rest'" by (cases rest) auto
  from Cons.prems r have "length xs \<le> length rest'" by simp
  from Cons.IH [OF this, of "pre @ [x]"] show ?case
    by (simp add: r put_def buf_simps)
qed

lemma copy_out_total:
  "w + length xs \<le> length out \<Longrightarrow> \<exists>out'. copy_out xs w out = Some out' \<and> length out' = length out"
proof (induction xs arbitrary: w out)
  case Nil
  then show ?case by simp
next
  case (Cons x xs)
  with Cons.IH [of "w + 1" "out[w := x]"] show ?case by (simp add: put_def)
qed

lemma cobs_ref_longer: "Suc (length blk) \<le> length (cobs_ref delim full blk xs)"
proof (induction xs arbitrary: blk)
  case Nil
  then show ?case by simp
next
  case (Cons x xs)
  with Cons.IH [of "blk @ [x]"] show ?case by simp
qed

text \<open>
  The two keyings are one algorithm with the roles of two bytes swapped. The locale states what
  the loops of a keying do, one law per branch; what follows from the laws is proved once.
\<close>

locale cobs_keying =
  fixes delim full :: u8
    and enc :: "u8 list \<Rightarrow> nat \<Rightarrow> nat \<Rightarrow> u8 \<Rightarrow> u8 list \<Rightarrow> (nat \<times> u8 list) option"
    and dec :: "u8 list \<Rightarrow> nat \<Rightarrow> u8 list \<Rightarrow> (nat \<times> u8 list) option"
  assumes full_big: "2 < unat full"
    and code_not_delim: "0 < unat c \<Longrightarrow> unat c \<le> unat full \<Longrightarrow> c \<noteq> delim"
    and enc_Nil: "enc [] w ci code out = do { out \<leftarrow> put out ci code; Some (w, out) }"
    and enc_delim: "enc (delim # xs) w ci code out =
        do { out \<leftarrow> put out ci code; enc xs (w + 1) w 1 out }"
    and enc_data: "x \<noteq> delim \<Longrightarrow> code + 1 \<noteq> full \<Longrightarrow> enc (x # xs) w ci code out =
        do { out \<leftarrow> put out w x; enc xs (w + 1) ci (code + 1) out }"
    and enc_full: "x \<noteq> delim \<Longrightarrow> code + 1 = full \<Longrightarrow> enc (x # xs) w ci code out =
        do { out \<leftarrow> put out w x; out \<leftarrow> put out ci (code + 1); enc xs (w + 2) (w + 1) 1 out }"
    and dec_Nil: "dec [] w out = Some (w, out)"
    and dec_bad: "code = delim \<or> code = 0 \<Longrightarrow> dec (code # rest) w out = Some (0, out)"
    and dec_group: "code \<noteq> delim \<Longrightarrow> code \<noteq> 0 \<Longrightarrow> dec (code # rest) w out =
        (let n = unat (code - 1) in
         if n > length rest then Some (0, out)
         else do {
           out \<leftarrow> copy_out (take n rest) w out;
           if code \<noteq> full \<and> drop n rest \<noteq> [] then do {
             out \<leftarrow> put out (w + n) delim;
             dec (drop n rest) (w + n + 1) out }
           else dec (drop n rest) (w + n) out })"
begin

abbreviation ref :: "u8 list \<Rightarrow> u8 list \<Rightarrow> u8 list" where
  "ref \<equiv> cobs_ref delim full"

lemma code_unat: "length (blk :: u8 list) + 1 < unat full \<Longrightarrow>
    unat (of_nat (length blk + 1) :: u8) = length blk + 1"
  using unat_u8_lt [of full] by (subst unat_of_nat) simp

lemma code_full_iff:
  assumes "length (blk :: u8 list) + 1 < unat full"
  shows "(of_nat (length blk + 1) :: u8) + 1 = full \<longleftrightarrow> length blk + 2 = unat full"
proof -
  have "(of_nat (length blk + 1) :: u8) + 1 = of_nat (length blk + 2)" by simp
  moreover have "unat (of_nat (length blk + 2) :: u8) = length blk + 2"
    using assms unat_u8_lt [of full] by (subst unat_of_nat) simp
  ultimately show ?thesis by (auto simp: word_unat_eq_iff)
qed

lemma enc_refines:
  assumes "length blk + 1 < unat full"
    and "length (ref blk xs) \<le> 1 + length blk + length rest"
  shows "enc xs (length pre + 1 + length blk) (length pre) (of_nat (length blk + 1))
           (pre @ c # blk @ rest)
       = Some (length pre + length (ref blk xs),
               pre @ ref blk xs @ drop (length (ref blk xs) - 1 - length blk) rest)"
  using assms
proof (induction xs arbitrary: blk pre c rest)
  case Nil
  then show ?case by (simp add: enc_Nil put_def buf_simps)
next
  case (Cons x xs)
  note code = code_full_iff [OF Cons.prems(1)]
  consider (delim) "x = delim" | (full) "x \<noteq> delim" "length blk + 2 = unat full"
    | (data) "x \<noteq> delim" "length blk + 2 \<noteq> unat full" by blast
  then show ?case
  proof cases
    case delim
    with Cons.prems(2) have len: "length (ref [] xs) \<le> length rest" by simp
    then obtain r rest' where r: "rest = r # rest'" by (cases rest) auto
    have "enc xs (length (pre @ of_nat (length blk + 1) # blk) + 1 + length ([] :: u8 list))
            (length (pre @ of_nat (length blk + 1) # blk)) (of_nat (length ([] :: u8 list) + 1))
            ((pre @ of_nat (length blk + 1) # blk) @ r # [] @ rest')
        = Some (length (pre @ of_nat (length blk + 1) # blk) + length (ref [] xs),
            (pre @ of_nat (length blk + 1) # blk) @ ref [] xs @
              drop (length (ref [] xs) - 1 - length ([] :: u8 list)) rest')"
      using len r full_big by (intro Cons.IH) auto
    moreover have "drop (length (ref [] xs)) rest = drop (length (ref [] xs) - 1) rest'"
      by (cases "length (ref [] xs)") (auto simp: r)
    ultimately show ?thesis
      by (simp add: delim enc_delim put_def buf_simps r)
  next
    case full
    with Cons.prems(2) have len: "length (ref [] xs) + 1 \<le> length rest" by simp
    then obtain r s rest' where r: "rest = r # s # rest'"
      by (cases rest; cases "tl rest") auto
    have f: "of_nat (length blk + 1) + 1 = full" using code full by simp
    have "enc xs (length (pre @ full # blk @ [x]) + 1 + length ([] :: u8 list))
            (length (pre @ full # blk @ [x])) (of_nat (length ([] :: u8 list) + 1))
            ((pre @ full # blk @ [x]) @ s # [] @ rest')
        = Some (length (pre @ full # blk @ [x]) + length (ref [] xs),
            (pre @ full # blk @ [x]) @ ref [] xs @
              drop (length (ref [] xs) - 1 - length ([] :: u8 list)) rest')"
      using len r full_big by (intro Cons.IH) auto
    moreover have "drop (length (ref [] xs) + 1) rest = drop (length (ref [] xs) - 1) rest'"
      by (cases "length (ref [] xs)") (auto simp: r)
    moreover have "(pre @ c # blk @ r # s # rest')[length pre + 1 + length blk := x]
        = pre @ c # (blk @ [x]) @ s # rest'"
      using list_update_mid [of "pre @ c # blk" r "s # rest'" x] by simp
    moreover have "(pre @ c # (blk @ [x]) @ s # rest')[length pre := full]
        = pre @ full # (blk @ [x]) @ s # rest'"
      by (rule list_update_mid)
    ultimately show ?thesis
      using full f by (simp add: enc_full put_def r add.commute add.left_commute)
  next
    case data
    have blk': "length (blk @ [x]) + 1 < unat full" using Cons.prems(1) data by simp
    have longer: "Suc (length (blk @ [x])) \<le> length (ref (blk @ [x]) xs)"
      by (rule cobs_ref_longer)
    with Cons.prems(2) data have "rest \<noteq> []" by auto
    then obtain r rest' where r: "rest = r # rest'" by (cases rest) auto
    have "enc xs (length pre + 1 + length (blk @ [x])) (length pre)
            (of_nat (length (blk @ [x]) + 1)) (pre @ c # (blk @ [x]) @ rest')
        = Some (length pre + length (ref (blk @ [x]) xs),
            pre @ ref (blk @ [x]) xs @
              drop (length (ref (blk @ [x]) xs) - 1 - length (blk @ [x])) rest')"
      using blk' Cons.prems(2) data by (intro Cons.IH) (auto simp: r)
    moreover have "drop (length (ref (blk @ [x]) xs) - 1 - length blk) rest
        = drop (length (ref (blk @ [x]) xs) - 1 - length (blk @ [x])) rest'"
      using longer by (simp add: r drop_Cons')
    moreover have "(pre @ c # blk @ r # rest')[length pre + 1 + length blk := x]
        = pre @ c # (blk @ [x]) @ rest'"
      using list_update_mid [of "pre @ c # blk" r rest' x] by simp
    moreover have "of_nat (length blk + 1) + 1 \<noteq> full" using code data by simp
    ultimately show ?thesis
      using data by (simp add: enc_data put_def r add.commute add.left_commute)
  qed
qed

lemma ref_size:
  "length blk + 1 < unat full \<Longrightarrow>
   length (ref blk xs) \<le> 1 + length blk + length xs + (length blk + length xs) div (unat full - 1)"
proof (induction xs arbitrary: blk)
  case Nil
  then show ?case by simp
next
  case (Cons x xs)
  let ?k = "unat full - 1"
  have k: "0 < ?k" using full_big by simp
  have sub: "length (ref [] xs) \<le> 1 + length xs + length xs div ?k"
    using Cons.IH [of "[]"] full_big by simp
  have mono: "length xs div ?k \<le> Suc (length blk + length xs) div ?k"
    by (rule div_le_mono) simp
  show ?case
  proof (cases "x = delim")
    case True
    with sub mono show ?thesis by simp
  next
    case False
    show ?thesis
    proof (cases "length blk + 2 = unat full")
      case True
      then have "Suc (length blk + length xs) = length xs + ?k" by simp
      then have "Suc (length blk + length xs) div ?k = Suc (length xs div ?k)"
        using k div_add_self2 [of ?k "length xs"] by (simp only:)
      with sub True False show ?thesis by simp
    next
      case False
      with Cons.prems have "length (blk @ [x]) + 1 < unat full" by simp
      from Cons.IH [OF this] \<open>x \<noteq> delim\<close> False show ?thesis by simp
    qed
  qed
qed

lemma code_byte_not_delim: "length (blk :: u8 list) + 1 < unat full \<Longrightarrow>
    (of_nat (length blk + 1) :: u8) \<noteq> delim"
  using code_unat [of blk] by (intro code_not_delim) simp_all

lemma full_not_delim: "full \<noteq> delim"
  using full_big by (intro code_not_delim) simp_all

lemma ref_no_delim:
  "length blk + 1 < unat full \<Longrightarrow> delim \<notin> set blk \<Longrightarrow> delim \<notin> set (ref blk xs)"
proof (induction xs arbitrary: blk)
  case Nil
  then show ?case using code_byte_not_delim [of blk] by auto
next
  case (Cons x xs)
  have "delim \<notin> set (ref [] xs)" using Cons.IH [of "[]"] full_big by simp
  moreover have "delim \<notin> set (ref (blk @ [x]) xs)"
    if "x \<noteq> delim" "length blk + 2 \<noteq> unat full"
    using that Cons.prems by (intro Cons.IH) auto
  ultimately show ?case
    using code_byte_not_delim [OF Cons.prems(1)] full_not_delim Cons.prems(2) by auto
qed

lemma dec_group_append:
  assumes "length g + 1 = unat code" "code \<noteq> delim" "length g \<le> length dst"
  shows "dec (code # g @ rest) (length pre) (pre @ dst) =
      (if code \<noteq> full \<and> rest \<noteq> [] then do {
         out \<leftarrow> put (pre @ g @ drop (length g) dst) (length pre + length g) delim;
         dec rest (length pre + length g + 1) out }
       else dec rest (length pre + length g) (pre @ g @ drop (length g) dst))"
proof -
  have c: "code \<noteq> 0" using assms(1) by auto
  have n: "unat (code - 1) = length g"
    using assms(1) unat_minus_one [OF c] by simp
  from dec_group [OF assms(2) c, of "g @ rest"] show ?thesis
    by (simp add: n Let_def copy_out_append [OF assms(3)])
qed

lemma dec_ref:
  assumes "length blk + 1 < unat full" "length blk + length xs \<le> length dst"
  shows "dec (ref blk xs) (length pre) (pre @ dst)
       = Some (length pre + length blk + length xs,
               pre @ blk @ xs @ drop (length blk + length xs) dst)"
  using assms
proof (induction xs arbitrary: blk pre dst)
  case Nil
  have "dec (of_nat (length blk + 1) # blk @ []) (length pre) (pre @ dst)
      = Some (length pre + length blk, pre @ blk @ drop (length blk) dst)"
    using Nil code_unat [of blk] code_byte_not_delim [of blk]
    by (subst dec_group_append) (simp_all add: dec_Nil)
  then show ?case by simp
next
  case (Cons x xs)
  have code: "unat (of_nat (length blk + 1) :: u8) = length blk + 1"
    by (rule code_unat [OF Cons.prems(1)])
  consider (delim) "x = delim" | (full) "x \<noteq> delim" "length blk + 2 = unat full"
    | (data) "x \<noteq> delim" "length blk + 2 \<noteq> unat full" by blast
  then show ?case
  proof cases
    case delim
    have nf: "(of_nat (length blk + 1) :: u8) \<noteq> full" using code Cons.prems(1) by auto
    from Cons.prems(2) obtain d dst' where d: "drop (length blk) dst = d # dst'"
      by (cases "drop (length blk) dst") auto
    then have drop': "drop (Suc (length blk + length xs)) dst = drop (length xs) dst'"
      by (metis add.commute add_Suc_right drop_Suc_Cons drop_drop)
    have len: "length xs \<le> length dst'"
    proof -
      have "Suc (length dst') = length dst - length blk"
        using arg_cong [OF d, of length] by simp
      with Cons.prems(2) show ?thesis by simp
    qed
    have "(pre @ blk @ d # dst')[length pre + length blk := delim] = (pre @ blk @ [delim]) @ dst'"
      using list_update_mid [of "pre @ blk" d dst' delim] by simp
    moreover have "dec (ref [] xs) (length (pre @ blk @ [delim])) ((pre @ blk @ [delim]) @ dst')
        = Some (length (pre @ blk @ [delim]) + length ([] :: u8 list) + length xs,
            (pre @ blk @ [delim]) @ [] @ xs @ drop (length ([] :: u8 list) + length xs) dst')"
      using len full_big by (intro Cons.IH) auto
    ultimately show ?thesis
      using delim nf Cons.prems code code_byte_not_delim [OF Cons.prems(1)]
      by (simp add: dec_group_append d drop' put_def)
  next
    case full
    have "dec (full # (blk @ [x]) @ ref [] xs) (length pre) (pre @ dst)
        = dec (ref [] xs) (length (pre @ blk @ [x]) + length ([] :: u8 list))
            ((pre @ blk @ [x]) @ drop (length (blk @ [x])) dst)"
      using full Cons.prems full_not_delim by (subst dec_group_append) auto
    moreover have "dec (ref [] xs) (length (pre @ blk @ [x]))
            ((pre @ blk @ [x]) @ drop (length (blk @ [x])) dst)
        = Some (length (pre @ blk @ [x]) + length ([] :: u8 list) + length xs,
            (pre @ blk @ [x]) @ [] @ xs @
              drop (length ([] :: u8 list) + length xs) (drop (length (blk @ [x])) dst))"
      using full_big Cons.prems(2) by (intro Cons.IH) auto
    ultimately show ?thesis using full by (simp add: add.commute)
  next
    case data
    have "length (blk @ [x]) + 1 < unat full" using Cons.prems(1) data by simp
    from Cons.IH [OF this, of dst pre] Cons.prems(2) data show ?thesis by simp
  qed
qed

text \<open>The decoder on arbitrary bytes: it never stores beyond as many bytes as it was given.\<close>

lemma dec_total:
  "w + length inp \<le> length out \<Longrightarrow>
   \<exists>n out'. dec inp w out = Some (n, out') \<and> n \<le> w + length inp \<and> length out' = length out"
proof (induction inp arbitrary: w out rule: length_induct)
  case (1 inp)
  show ?case
  proof (cases inp)
    case Nil
    then show ?thesis by (simp add: dec_Nil)
  next
    case (Cons code rest)
    let ?n = "unat (code - 1)"
    show ?thesis
    proof (cases "code = delim \<or> code = 0 \<or> ?n > length rest")
      case True
      then show ?thesis
        using Cons by (cases "code = delim \<or> code = 0") (auto simp: dec_bad dec_group)
    next
      case False
      then obtain o1 where o1: "copy_out (take ?n rest) w out = Some o1" "length o1 = length out"
        using copy_out_total [of w "take ?n rest" out] "1.prems" Cons by auto
      have IH: "\<exists>n out'. dec (drop ?n rest) w' o' = Some (n, out')
          \<and> n \<le> w + length inp \<and> length out' = length out"
        if "w' \<le> w + ?n + 1" "length o' = length out" for w' o'
      proof -
        have "\<exists>n out'. dec (drop ?n rest) w' o' = Some (n, out')
          \<and> n \<le> w' + length (drop ?n rest) \<and> length out' = length o'"
          using "1.prems" that Cons False by (intro "1.IH" [rule_format]) auto
        with that Cons False show ?thesis by fastforce
      qed
      show ?thesis
      proof (cases "code \<noteq> full \<and> drop ?n rest \<noteq> []")
        case True
        then have "w + ?n < length o1" using "1.prems" Cons o1(2) by auto
        with True False Cons o1 IH [of "w + ?n + 1" "o1[w + ?n := delim]"] show ?thesis
          by (auto simp: dec_group put_def)
      next
        case nofill: False
        with False Cons o1 IH [of "w + ?n" o1] show ?thesis
          by (auto simp: dec_group)
      qed
    qed
  qed
qed

text \<open>What a client of a keying uses: encode into a large enough buffer, decode it back.\<close>

lemma enc_start:
  assumes "length inp + length inp div (unat full - 1) + 1 \<le> length out"
  shows "enc inp 1 0 1 out = Some (length (ref [] inp), ref [] inp @ drop (length (ref [] inp)) out)"
proof -
  from assms obtain c rest where out: "out = c # rest" by (cases out) auto
  have "length (ref [] inp) \<le> 1 + length inp + length inp div (unat full - 1)"
    using ref_size [of "[]" inp] full_big by simp
  with assms out have "length (ref [] inp) \<le> 1 + length ([] :: u8 list) + length rest" by simp
  from enc_refines [OF _ this, of "[]" c] full_big show ?thesis
    using cobs_ref_nonempty [of delim full "[]" inp]
    by (cases "length (ref [] inp)") (simp_all add: out)
qed

lemma ref_size_start: "length (ref [] inp) \<le> length inp + length inp div (unat full - 1) + 1"
  using ref_size [of "[]" inp] full_big by simp

lemma ref_no_delim_start: "delim \<notin> set (ref [] inp)"
  using ref_no_delim [of "[]" inp] full_big by simp

lemma dec_start:
  "length inp \<le> length dst \<Longrightarrow>
   dec (ref [] inp) 0 dst = Some (length inp, inp @ drop (length inp) dst)"
  using dec_ref [of "[]" inp dst "[]"] full_big by simp

end

interpretation std: cobs_keying "0x00" "0xFF" encode_loop decode_loop
  by unfold_locales (auto simp: unat_gt_0)

interpretation ff: cobs_keying "0xFF" "0xFE" ffEncode_loop ffDecode_loop
  by unfold_locales (auto simp: unat_gt_0)

subsection \<open>The encoded stream of the record keying, for its clients\<close>

definition ff_code :: "u8 list \<Rightarrow> u8 list" where
  "ff_code inp = cobs_ref 0xFF 0xFE [] inp"

lemma ffEncode_code:
  "ffMaxEncoded (length inp) \<le> length out \<Longrightarrow>
   ffEncode inp out = Some (length (ff_code inp), ff_code inp @ drop (length (ff_code inp)) out)"
  using ff.enc_start [of inp out] by (simp add: ffEncode_def ffMaxEncoded_def ff_code_def)

lemma ff_code_size: "length (ff_code inp) \<le> ffMaxEncoded (length inp)"
  using ff.ref_size_start [of inp] by (simp add: ff_code_def ffMaxEncoded_def)

lemma ff_code_no_boundary: "0xFF \<notin> set (ff_code inp)"
  using ff.ref_no_delim_start [of inp] by (simp add: ff_code_def)

lemma ff_code_nonempty [simp]: "ff_code inp \<noteq> []"
  by (simp add: ff_code_def)

lemma ffDecode_code:
  "length inp \<le> length dst \<Longrightarrow>
   ffDecode (ff_code inp) dst = Some (length inp, inp @ drop (length inp) dst)"
  using ff.dec_start [of inp dst] by (simp add: ffDecode_def ff_code_def)

subsection \<open>Properties\<close>

text \<open>
  C15. Encoding a record into a buffer of the advertised worst-case size stores only inside that
  buffer, writes at least one and at most \<^const>\<open>ffMaxEncoded\<close> bytes, leaves the rest of the
  buffer alone, and the bytes written never contain the frame boundary 0xFF.
\<close>

theorem ffEncode_safe:
  assumes "ffMaxEncoded (length inp) \<le> length out"
  shows "\<exists>n out'. ffEncode inp out = Some (n, out') \<and> 0 < n \<and> n \<le> ffMaxEncoded (length inp)
    \<and> 0xFF \<notin> set (take n out') \<and> drop n out' = drop n out \<and> length out' = length out"
  using ffEncode_code [OF assms] ff_code_size [of inp] ff_code_no_boundary [of inp] assms
  by simp

theorem ffEncode_safe_witness:
  "\<exists>n out'. ffEncode [0x01, 0xFF, 0x02] [0, 0, 0, 0, 7] = Some (n, out') \<and> 0 < n
    \<and> n \<le> ffMaxEncoded (length [0x01, 0xFF, 0x02 :: u8])
    \<and> 0xFF \<notin> set (take n out') \<and> drop n out' = drop n [0, 0, 0, 0, 7]
    \<and> length out' = length [0, 0, 0, 0, 7 :: u8]"
  by (rule ffEncode_safe) (simp add: ffMaxEncoded_def)

text \<open>
  C12. What the encoder wrote, the decoder reads back: every byte sequence survives a round trip
  through the record keying, into any destination that holds it.
\<close>

theorem ff_roundtrip:
  assumes "ffMaxEncoded (length inp) \<le> length out" and "length inp \<le> length dst"
  shows "\<exists>n out'. ffEncode inp out = Some (n, out')
    \<and> ffDecode (take n out') dst = Some (length inp, inp @ drop (length inp) dst)"
  using ffEncode_code [OF assms(1)] ffDecode_code [OF assms(2)] by simp

theorem ff_roundtrip_witness:
  "\<exists>n out'. ffEncode [0xFF, 0x00] [9, 9, 9] = Some (n, out')
    \<and> ffDecode (take n out') [5, 5, 5] = Some (length [0xFF, 0x00 :: u8],
          [0xFF, 0x00] @ drop (length [0xFF, 0x00 :: u8]) [5, 5, 5])"
  by (rule ff_roundtrip) (simp_all add: ffMaxEncoded_def)

text \<open>
  The standard keying: within \<^const>\<open>maxEncoded\<close> bytes, free of the delimiter 0x00, and read
  back exactly.
\<close>

theorem std_roundtrip:
  assumes "maxEncoded (length inp) \<le> length out" and "length inp \<le> length dst"
  shows "\<exists>n out'. encode inp out = Some (n, out') \<and> n \<le> maxEncoded (length inp)
    \<and> 0x00 \<notin> set (take n out')
    \<and> decode (take n out') dst = Some (length inp, inp @ drop (length inp) dst)"
  using std.enc_start [of inp out] std.ref_size_start [of inp] std.ref_no_delim_start [of inp]
    std.dec_start [OF assms(2)] assms(1)
  by (simp add: encode_def decode_def maxEncoded_def)

theorem std_roundtrip_witness:
  "\<exists>n out'. encode [0x00, 0x11] [9, 9, 9] = Some (n, out')
    \<and> n \<le> maxEncoded (length [0x00, 0x11 :: u8]) \<and> 0x00 \<notin> set (take n out')
    \<and> decode (take n out') [5, 5] = Some (length [0x00, 0x11 :: u8],
          [0x00, 0x11] @ drop (length [0x00, 0x11 :: u8]) [5, 5])"
  by (rule std_roundtrip) (simp_all add: maxEncoded_def)



end
