(* ===== verification/Framer.thy ===== *)
theory Framer
  imports Cobs
begin

text \<open>
  The transport envelope of \<^verbatim>\<open>src/sniffer/record_framer.hpp\<close>: record header, record frame, metadata
  block and loss marker, each written into a caller-owned buffer; and the host's view of the stream
  (\<^verbatim>\<open>app/test/mdio_codec.js\<close>, \<open>demuxV2\<close>, \<open>metaText\<close>, \<open>parseRecord\<close>), which says what the envelope
  promises. The buffers are byte lists; \<open>None\<close> is a store outside the buffer.
\<close>

subsection \<open>Device side\<close>

definition HEADER_LEN :: nat where "HEADER_LEN = 12"
definition TYPE_MDIO :: u8 where "TYPE_MDIO = 0x01"
definition FLAG_OVF_PIOC :: u8 where "FLAG_OVF_PIOC = 0x01"
definition FLAG_OVF_RAM :: u8 where "FLAG_OVF_RAM = 0x02"
definition FLAG_CONTINUED :: u8 where "FLAG_CONTINUED = 0x04"

definition putU16 :: "u8 list \<Rightarrow> nat \<Rightarrow> u16 \<Rightarrow> u8 list option" where
  "putU16 raw p v = do {
     raw \<leftarrow> put raw p (ucast v);
     put raw (p + 1) (ucast (drop_bit 8 v)) }"

definition putU32 :: "u8 list \<Rightarrow> nat \<Rightarrow> u32 \<Rightarrow> u8 list option" where
  "putU32 raw p v = do {
     raw \<leftarrow> put raw p (ucast v);
     raw \<leftarrow> put raw (p + 1) (ucast (drop_bit 8 v));
     raw \<leftarrow> put raw (p + 2) (ucast (drop_bit 16 v));
     put raw (p + 3) (ucast (drop_bit 24 v)) }"

definition putHeader ::
  "u8 list \<Rightarrow> u8 \<Rightarrow> u32 \<Rightarrow> u16 \<Rightarrow> u16 \<Rightarrow> u8 \<Rightarrow> u16 \<Rightarrow> (nat \<times> u8 list) option" where
  "putHeader raw type t_us dur_us onset_us flags n = do {
     raw \<leftarrow> put raw 0 type;
     raw \<leftarrow> putU32 raw 1 t_us;
     raw \<leftarrow> putU16 raw 5 dur_us;
     raw \<leftarrow> putU16 raw 7 onset_us;
     raw \<leftarrow> put raw 9 flags;
     raw \<leftarrow> putU16 raw 10 n;
     Some (HEADER_LEN, raw) }"

definition frameRecord :: "u8 list \<Rightarrow> u8 list \<Rightarrow> (nat \<times> u8 list) option" where
  "frameRecord raw out = do {
     (w, out) \<leftarrow> ffEncode raw out;
     out \<leftarrow> put out w 0xFF;
     Some (w + 1, out) }"

text \<open>
  \<open>frameMeta\<close>: the null pointer is \<open>None\<close>, a C string is its bytes up to the terminating NUL
  (excluded), so \<open>ascii[0]\<close> of the empty string reads that NUL.
\<close>

fun frameMeta_loop :: "u8 list \<Rightarrow> nat \<Rightarrow> u8 list \<Rightarrow> (nat \<times> u8 list) option" where
  "frameMeta_loop [] w out = do {
     out \<leftarrow> put out w 0xFE;
     out \<leftarrow> put out (w + 1) 0xFF;
     Some (w + 2, out) }"
| "frameMeta_loop (c # s) w out =
    (if c < 0x20 \<or> c > 0x7E then Some (0, out)
     else do {
       out \<leftarrow> put out w c;
       frameMeta_loop s (w + 1) out })"

definition frameMeta :: "u8 list option \<Rightarrow> u8 list \<Rightarrow> (nat \<times> u8 list) option" where
  "frameMeta ascii out =
    (case ascii of
       None \<Rightarrow> Some (0, out)
     | Some s \<Rightarrow>
         if (case s of [] \<Rightarrow> 0 | c # _ \<Rightarrow> c) \<noteq> 0x5B then Some (0, out)
         else do {
           out \<leftarrow> put out 0 0xFE;
           frameMeta_loop s 1 out })"

definition frameLoss :: "u8 list \<Rightarrow> (nat \<times> u8 list) option" where
  "frameLoss out = do {
     out \<leftarrow> put out 0 0xFD;
     out \<leftarrow> put out 1 0xFF;
     Some (2, out) }"

subsection \<open>Host side: what the envelope means\<close>

text \<open>Segments of a stream: the runs between 0xFF boundaries, empty ones dropped (\<open>flush\<close>).\<close>

fun segments :: "u8 list \<Rightarrow> u8 list \<Rightarrow> u8 list list" where
  "segments seg [] = (if seg = [] then [] else [seg])"
| "segments seg (b # bs) =
    (if b = 0xFF then (if seg = [] then [] else [seg]) @ segments [] bs
     else segments (seg @ [b]) bs)"

text \<open>\<open>metaText\<close>: a 0xFE-bracketed printable block that starts with \<open>[\<close>.\<close>

definition metaText :: "u8 list \<Rightarrow> u8 list option" where
  "metaText seg =
    (if length seg < 3 \<or> hd seg \<noteq> 0xFE \<or> last seg \<noteq> 0xFE then None
     else let body = butlast (tl seg) in
       if hd body \<noteq> 0x5B \<or> (\<exists>c \<in> set body. c < 0x20 \<or> c > 0x7E) then None else Some body)"

datatype item = Loss | Meta "u8 list" | Rec "u8 list" | Bad

definition classify :: "u8 list \<Rightarrow> item" where
  "classify seg =
    (if seg = [0xFD] then Loss
     else case metaText seg of
       Some m \<Rightarrow> Meta m
     | None \<Rightarrow> (case ffDecode seg (replicate (length seg) 0) of
           Some (n, dec) \<Rightarrow> if n = 0 then Bad else Rec (take n dec)
         | None \<Rightarrow> Bad))"

definition demux :: "u8 list \<Rightarrow> item list" where
  "demux bs = map classify (segments [] bs)"

definition readU16 :: "u8 list \<Rightarrow> nat \<Rightarrow> u16" where
  "readU16 rec p = ucast (rec ! p) OR push_bit 8 (ucast (rec ! (p + 1)))"

definition readU32 :: "u8 list \<Rightarrow> nat \<Rightarrow> u32" where
  "readU32 rec p = ucast (rec ! p) OR push_bit 8 (ucast (rec ! (p + 1)))
     OR push_bit 16 (ucast (rec ! (p + 2))) OR push_bit 24 (ucast (rec ! (p + 3)))"

record burst =
  b_type :: u8
  b_t_us :: u32
  b_dur_us :: u16
  b_onset_us :: u16
  b_flags :: u8
  b_n :: u16
  b_payload :: "u8 list"

definition parseRecord :: "u8 list \<Rightarrow> burst option" where
  "parseRecord rec =
    (if length rec < 12 then None
     else let n = readU16 rec 10; payload = take (unat n) (drop 12 rec) in
       if length payload \<noteq> unat n then None
       else Some \<lparr>b_type = rec ! 0, b_t_us = readU32 rec 1, b_dur_us = readU16 rec 5,
                  b_onset_us = readU16 rec 7, b_flags = rec ! 9, b_n = n, b_payload = payload\<rparr>)"

subsection \<open>What each emitter writes\<close>

definition header_bytes :: "u8 \<Rightarrow> u32 \<Rightarrow> u16 \<Rightarrow> u16 \<Rightarrow> u8 \<Rightarrow> u16 \<Rightarrow> u8 list" where
  "header_bytes type t dur onset flags n =
    [type, ucast t, ucast (drop_bit 8 t), ucast (drop_bit 16 t), ucast (drop_bit 24 t),
     ucast dur, ucast (drop_bit 8 dur), ucast onset, ucast (drop_bit 8 onset), flags,
     ucast n, ucast (drop_bit 8 n)]"

lemma length_header_bytes [simp]: "length (header_bytes type t dur onset flags n) = 12"
  by (simp add: header_bytes_def)

lemma putHeader_bytes:
  assumes "12 \<le> length raw"
  shows "putHeader raw type t dur onset flags n =
    Some (HEADER_LEN, header_bytes type t dur onset flags n @ drop 12 raw)"
proof -
  obtain a0 a1 a2 a3 a4 a5 a6 a7 a8 a9 a10 a11 rest
    where raw: "raw = a0 # a1 # a2 # a3 # a4 # a5 # a6 # a7 # a8 # a9 # a10 # a11 # rest"
    using assms by (auto simp: numeral_eq_Suc Suc_le_length_iff)
  show ?thesis
    by (simp add: raw putHeader_def putU16_def putU32_def put_def header_bytes_def eval_nat_numeral)
qed

lemma bytes_u16: "ucast (ucast (v :: u16) :: u8) OR push_bit 8 (ucast (ucast (drop_bit 8 v) :: u8)) = v"
  by (rule bit_word_eqI) (auto simp: bit_simps)

lemma bytes_u32:
  "ucast (ucast (v :: u32) :: u8) OR push_bit 8 (ucast (ucast (drop_bit 8 v) :: u8))
   OR push_bit 16 (ucast (ucast (drop_bit 16 v) :: u8))
   OR push_bit 24 (ucast (ucast (drop_bit 24 v) :: u8)) = v" (is "?l = v")
proof (rule bit_word_eqI)
  fix n :: nat assume "n < LENGTH(32)"
  then show "bit ?l n = bit v n"
    by (cases "n < 16"; cases "n < 24") (auto simp: bit_simps)
qed

lemma header_fields:
  fixes p :: "u8 list" and type flags :: u8 and t :: u32 and dur onset n :: u16
  defines "h \<equiv> header_bytes type t dur onset flags n @ p"
  shows "h ! 0 = type" "readU32 h 1 = t" "readU16 h 5 = dur" "readU16 h 7 = onset" "h ! 9 = flags"
    "readU16 h 10 = n" "drop 12 h = p" "\<not> length h < 12"
  using bytes_u32 [of t] bytes_u16 [of dur] bytes_u16 [of onset] bytes_u16 [of n]
  unfolding h_def
  by (simp_all add: readU16_def readU32_def header_bytes_def)

lemma parseRecord_header:
  assumes "length payload < 2 ^ 16"
  shows "parseRecord (header_bytes type t dur onset flags (of_nat (length payload)) @ payload) =
    Some \<lparr>b_type = type, b_t_us = t, b_dur_us = dur, b_onset_us = onset, b_flags = flags,
          b_n = of_nat (length payload), b_payload = payload\<rparr>"
proof -
  have "unat (of_nat (length payload) :: u16) = length payload"
    using assms by (simp add: unat_of_nat)
  then show ?thesis
    using header_fields(2) [of type t dur onset flags "of_nat (length payload)" payload]
    by (simp add: parseRecord_def header_fields)
qed

lemma frameRecord_bytes:
  assumes "ffMaxEncoded (length raw) + 1 \<le> length out"
  shows "frameRecord raw out = Some (length (ff_code raw) + 1,
    ff_code raw @ 0xFF # drop (length (ff_code raw) + 1) out)"
proof -
  have len: "length (ff_code raw) < length out" using ff_code_size [of raw] assms by simp
  then obtain x xs where x: "drop (length (ff_code raw)) out = x # xs"
    by (metis Cons_nth_drop_Suc)
  then have "drop (length (ff_code raw) + 1) out = xs"
    by (metis add.commute drop_Suc_Cons drop_drop drop0 plus_1_eq_Suc One_nat_def)
  then show ?thesis
    using assms len x by (simp add: frameRecord_def ffEncode_code put_def buf_simps)
qed

definition printable :: "u8 list \<Rightarrow> bool" where
  "printable s \<longleftrightarrow> (\<forall>c \<in> set s. \<not> (c < 0x20 \<or> c > 0x7E))"

lemma frameMeta_loop_bytes:
  assumes "printable s" "length s + 2 \<le> length rest"
  shows "frameMeta_loop s (length pre) (pre @ rest) =
    Some (length pre + length s + 2, pre @ s @ 0xFE # 0xFF # drop (length s + 2) rest)"
  using assms
proof (induction s arbitrary: pre rest)
  case Nil
  then obtain a b rest' where "rest = a # b # rest'"
    by (cases rest; cases "tl rest") auto
  then show ?case by (simp add: put_def buf_simps)
next
  case (Cons c s)
  then obtain a rest' where r: "rest = a # rest'" by (cases rest) auto
  with Cons.IH [of rest' "pre @ [c]"] Cons.prems show ?case
    by (simp add: printable_def put_def buf_simps)
qed

lemma frameMeta_loop_reject:
  assumes "\<not> printable s" "w + length s \<le> length out"
  shows "\<exists>out'. frameMeta_loop s w out = Some (0, out')"
  using assms
proof (induction s arbitrary: w out)
  case Nil
  then show ?case by (simp add: printable_def)
next
  case (Cons c s)
  show ?case
  proof (cases "c < 0x20 \<or> c > 0x7E")
    case True
    then show ?thesis by simp
  next
    case False
    with Cons.prems have "\<not> printable s" "w + 1 + length s \<le> length (out[w := c])"
      by (auto simp: printable_def)
    from Cons.IH [OF this] False Cons.prems(2) show ?thesis by (auto simp: put_def)
  qed
qed

lemma frameMeta_bytes:
  assumes "printable s" "s \<noteq> []" "hd s = 0x5B" "length s + 3 \<le> length out"
  shows "frameMeta (Some s) out = Some (length s + 3, 0xFE # s @ 0xFE # 0xFF # drop (length s + 3) out)"
proof -
  from assms(4) obtain a out' where o: "out = a # out'" by (cases out) auto
  have "frameMeta_loop s (length [0xFE :: u8]) ([0xFE] @ out') =
    Some (length [0xFE :: u8] + length s + 2, [0xFE] @ s @ 0xFE # 0xFF # drop (length s + 2) out')"
    using assms o by (intro frameMeta_loop_bytes) auto
  then show ?thesis
    using assms(2,3)
    by (cases s) (simp_all add: frameMeta_def o put_def eval_nat_numeral del: frameMeta_loop.simps)
qed

lemma frameMeta_reject:
  assumes "\<not> (printable s \<and> s \<noteq> [] \<and> hd s = 0x5B)" "length s + 3 \<le> length out"
  shows "\<exists>out'. frameMeta (Some s) out = Some (0, out')"
proof (cases "s \<noteq> [] \<and> hd s = 0x5B")
  case True
  from assms(2) obtain a out' where o: "out = a # out'" by (cases out) auto
  from True assms frameMeta_loop_reject [of s 1 "0xFE # out'"] o show ?thesis
    by (cases s) (auto simp: frameMeta_def put_def)
next
  case False
  then show ?thesis by (cases s) (auto simp: frameMeta_def)
qed

subsection \<open>A stream of frames and what the host reads from it\<close>

datatype frame =
    FRecord u32 u16 u16 u8 "u8 list"
  | FMeta "u8 list option"
  | FLoss

text \<open>
  One emission, into a buffer of the size the emitter asks for: \<open>raw\<close> is the header and payload
  laid out as the client lays them out.
\<close>

fun emit :: "frame \<Rightarrow> u8 list" where
  "emit (FRecord t dur onset flags payload) =
     (case putHeader (replicate HEADER_LEN 0) TYPE_MDIO t dur onset flags (of_nat (length payload)) of
        Some (_, hdr) \<Rightarrow>
          (case frameRecord (hdr @ payload)
                  (replicate (ffMaxEncoded (HEADER_LEN + length payload) + 1) 0) of
             Some (w, out) \<Rightarrow> take w out
           | None \<Rightarrow> [])
      | None \<Rightarrow> [])"
| "emit (FMeta ascii) =
     (case frameMeta ascii (replicate (length (case ascii of None \<Rightarrow> [] | Some s \<Rightarrow> s) + 3) 0) of
        Some (w, out) \<Rightarrow> take w out
      | None \<Rightarrow> [])"
| "emit FLoss = (case frameLoss (replicate 2 0) of Some (w, out) \<Rightarrow> take w out | None \<Rightarrow> [])"

datatype event = ELoss | EMeta "u8 list" | ERecord "burst option" | EBad

fun host_event :: "item \<Rightarrow> event" where
  "host_event Loss = ELoss"
| "host_event (Meta m) = EMeta m"
| "host_event (Rec raw) = ERecord (parseRecord raw)"
| "host_event Bad = EBad"

fun frame_events :: "frame \<Rightarrow> event list" where
  "frame_events (FRecord t dur onset flags payload) =
     [ERecord (Some \<lparr>b_type = TYPE_MDIO, b_t_us = t, b_dur_us = dur, b_onset_us = onset,
        b_flags = flags, b_n = of_nat (length payload), b_payload = payload\<rparr>)]"
| "frame_events (FMeta None) = []"
| "frame_events (FMeta (Some s)) = (if printable s \<and> s \<noteq> [] \<and> hd s = 0x5B then [EMeta s] else [])"
| "frame_events FLoss = [ELoss]"

fun frame_ok :: "frame \<Rightarrow> bool" where
  "frame_ok (FRecord t dur onset flags payload) \<longleftrightarrow> length payload < 2 ^ 16"
| "frame_ok _ \<longleftrightarrow> True"

lemma emit_record:
  "emit (FRecord t dur onset flags payload) =
     ff_code (header_bytes TYPE_MDIO t dur onset flags (of_nat (length payload)) @ payload) @ [0xFF]"
  by (simp add: putHeader_bytes HEADER_LEN_def frameRecord_bytes)

lemma emit_meta:
  "emit (FMeta ascii) = (case ascii of None \<Rightarrow> []
     | Some s \<Rightarrow> if printable s \<and> s \<noteq> [] \<and> hd s = 0x5B then 0xFE # s @ [0xFE, 0xFF] else [])"
proof (cases ascii)
  case None
  then show ?thesis by (simp add: frameMeta_def)
next
  case (Some s)
  show ?thesis
  proof (cases "printable s \<and> s \<noteq> [] \<and> hd s = 0x5B")
    case True
    then show ?thesis using Some by (simp add: frameMeta_bytes)
  next
    case False
    obtain out' where "frameMeta (Some s) (replicate (length s + 3) 0) = Some (0, out')"
      using frameMeta_reject [OF False, of "replicate (length s + 3) 0"] by auto
    then show ?thesis using Some False by simp
  qed
qed

lemma emit_loss: "emit FLoss = [0xFD, 0xFF]"
  by (simp add: frameLoss_def put_def eval_nat_numeral)

lemma segments_boundary:
  "0xFF \<notin> set xs \<Longrightarrow> seg @ xs \<noteq> [] \<Longrightarrow>
   segments seg (xs @ 0xFF # bs) = (seg @ xs) # segments [] bs"
  by (induction xs arbitrary: seg) auto

text \<open>
  A record segment is never taken for a loss marker or a metadata block: it is at least two bytes
  long, and when its code byte is 0xFE the byte after it is the record type, which is not \<open>[\<close>.
\<close>

lemma cobs_ref_second: "blk \<noteq> [] \<Longrightarrow> \<exists>c rest. cobs_ref delim full blk xs = c # hd blk # rest"
  by (induction xs arbitrary: blk) (fastforce simp: neq_Nil_conv)+

lemma ff_code_lead:
  assumes "raw \<noteq> []"
  shows "2 \<le> length (ff_code raw)"
    and "hd (ff_code raw) = 0xFE \<Longrightarrow> ff_code raw ! 1 = hd raw"
proof -
  obtain x xs where raw: "raw = x # xs" using assms by (cases raw) auto
  show "2 \<le> length (ff_code raw)"
    using cobs_ref_longer [of "[x]" "0xFF" "0xFE" xs] cobs_ref_nonempty [of "0xFF" "0xFE" "[]" xs]
    by (auto simp: ff_code_def raw Suc_le_eq)
  show "ff_code raw ! 1 = hd raw" if "hd (ff_code raw) = 0xFE"
    using that cobs_ref_second [of "[x]" "0xFF" "0xFE" xs] by (auto simp: ff_code_def raw)
qed

lemma classify_record:
  assumes "raw \<noteq> []" "hd raw \<noteq> 0x5B"
  shows "classify (ff_code raw) = Rec raw"
proof -
  let ?seg = "ff_code raw"
  have long: "2 \<le> length ?seg" by (rule ff_code_lead(1) [OF assms(1)])
  then obtain a b rest where seg: "?seg = a # b # rest"
    by (cases ?seg; cases "tl ?seg") auto
  have "metaText ?seg = None"
  proof (cases "a = 0xFE")
    case True
    then have "b = hd raw" using ff_code_lead(2) [OF assms(1)] seg by simp
    then show ?thesis using assms(2) seg by (cases rest) (auto simp: metaText_def Let_def)
  next
    case False
    then show ?thesis by (simp add: metaText_def seg)
  qed
  moreover have "length raw \<le> length ?seg"
    using ff.dec_total [of 0 ?seg ?seg] ffDecode_code [of raw "replicate (length raw + length ?seg) 0"]
      ff.dec_total [of 0 ?seg "replicate (length raw + length ?seg) 0"]
    by (auto simp: ffDecode_def)
  ultimately show ?thesis
    using long assms(1) ffDecode_code [of raw "replicate (length ?seg) 0"]
    by (auto simp: classify_def)
qed

lemma classify_meta:
  assumes "printable s" "s \<noteq> []" "hd s = 0x5B"
  shows "classify (0xFE # s @ [0xFE]) = Meta s"
proof -
  have "\<not> length (0xFE # s @ [0xFE]) < 3" using assms(2) by (cases s) auto
  then have "metaText (0xFE # s @ [0xFE]) = Some s"
    using assms by (auto simp: metaText_def printable_def butlast_append)
  then show ?thesis by (simp add: classify_def)
qed

lemma printable_no_boundary: "printable s \<Longrightarrow> 0xFF \<notin> set s"
  by (auto simp: printable_def)

lemma demux_frame:
  assumes "frame_ok f"
  shows "map host_event (demux (emit f @ bs)) = frame_events f @ map host_event (demux bs)"
proof (cases f)
  case (FRecord t dur onset flags payload)
  let ?raw = "header_bytes TYPE_MDIO t dur onset flags (of_nat (length payload)) @ payload"
  have "segments [] (emit f @ bs) = ff_code ?raw # segments [] bs"
    using segments_boundary [OF ff_code_no_boundary [of ?raw], of "[]" bs]
    by (simp add: FRecord emit_record del: emit.simps)
  moreover have "classify (ff_code ?raw) = Rec ?raw"
    by (rule classify_record) (simp_all add: header_bytes_def TYPE_MDIO_def)
  moreover have "parseRecord ?raw = Some \<lparr>b_type = TYPE_MDIO, b_t_us = t, b_dur_us = dur,
      b_onset_us = onset, b_flags = flags, b_n = of_nat (length payload), b_payload = payload\<rparr>"
    using assms FRecord by (intro parseRecord_header) simp
  ultimately show ?thesis by (simp add: demux_def FRecord del: emit.simps)
next
  case (FMeta ascii)
  show ?thesis
  proof (cases ascii)
    case None
    then show ?thesis using FMeta by (simp add: emit_meta del: emit.simps)
  next
    case (Some s)
    show ?thesis
    proof (cases "printable s \<and> s \<noteq> [] \<and> hd s = 0x5B")
      case True
      then have "segments [] ((0xFE # s @ [0xFE]) @ 0xFF # bs) = (0xFE # s @ [0xFE]) # segments [] bs"
        using segments_boundary [of "0xFE # s @ [0xFE]" "[]" bs] printable_no_boundary by auto
      with True Some FMeta classify_meta [of s] show ?thesis
        by (simp add: emit_meta demux_def del: emit.simps segments.simps)
    next
      case False
      then show ?thesis using Some FMeta by (auto simp: emit_meta simp del: emit.simps)
    qed
  qed
next
  case FLoss
  then show ?thesis by (simp add: emit_loss demux_def classify_def del: emit.simps)
qed

lemma demux_frames:
  assumes "\<forall>f \<in> set fs. frame_ok f"
  shows "map host_event (demux (concat (map emit fs))) = concat (map frame_events fs)"
  using assms
proof (induction fs)
  case Nil
  show ?case by (simp add: demux_def)
next
  case (Cons f fs)
  then show ?case using demux_frame [of f "concat (map emit fs)"] by (simp del: emit.simps)
qed

subsection \<open>Properties\<close>

text \<open>
  C9. Whatever sequence of records, metadata blocks and loss markers the device emits, the host reads
  back exactly that sequence: every record with every header field and its payload, every well-formed
  metadata text, every loss marker, in order, none torn, none confused with another kind, although
  record segments may begin with the bytes 0xFD and 0xFE that lead the other two kinds.
\<close>

theorem host_reads_stream:
  assumes "\<forall>f \<in> set fs. frame_ok f"
  shows "map host_event (demux (concat (map emit fs))) = concat (map frame_events fs)"
  by (rule demux_frames [OF assms])

theorem host_reads_stream_witness:
  "map host_event (demux (concat (map emit
      [FRecord 0x11223344 0x0102 56 0 [0x00, 0xFF, 0xFD, 0xFE], FMeta (Some [0x5B, 0x41, 0x5D]), FLoss])))
   = concat (map frame_events
      [FRecord 0x11223344 0x0102 56 0 [0x00, 0xFF, 0xFD, 0xFE], FMeta (Some [0x5B, 0x41, 0x5D]), FLoss])"
  by (rule host_reads_stream) simp

text \<open>
  \<open>putHeader\<close> followed by \<open>frameRecord\<close> stays inside the buffers the header file asks for, writes
  the twelve header bytes little-endian in front of the payload, and appends exactly one boundary
  byte: 0xFF is the last byte of the frame and occurs nowhere else in it.
\<close>

theorem frameRecord_envelope:
  assumes "12 \<le> length hdr_buf" and "ffMaxEncoded (12 + length payload) + 1 \<le> length out"
  shows "\<exists>hdr w out'. putHeader hdr_buf type t dur onset flags n = Some (HEADER_LEN, hdr)
    \<and> take 12 hdr = header_bytes type t dur onset flags n \<and> drop 12 hdr = drop 12 hdr_buf
    \<and> frameRecord (take 12 hdr @ payload) out = Some (w, out')
    \<and> w \<le> ffMaxEncoded (12 + length payload) + 1 \<and> drop w out' = drop w out
    \<and> out' ! (w - 1) = 0xFF \<and> 0xFF \<notin> set (take (w - 1) out')"
proof -
  let ?hdr = "header_bytes type t dur onset flags n @ drop 12 hdr_buf"
  let ?raw = "header_bytes type t dur onset flags n @ payload"
  have "take 12 ?hdr = header_bytes type t dur onset flags n" by simp
  moreover have "frameRecord ?raw out = Some (length (ff_code ?raw) + 1,
      ff_code ?raw @ 0xFF # drop (length (ff_code ?raw) + 1) out)"
    using assms(2) by (intro frameRecord_bytes) simp
  ultimately show ?thesis
    using putHeader_bytes [OF assms(1)] ff_code_size [of ?raw] ff_code_no_boundary [of ?raw]
    by (intro exI [of _ ?hdr]) (simp add: nth_append)
qed

theorem frameRecord_envelope_witness:
  "\<exists>hdr w out'. putHeader (replicate 12 0) 1 0xAABBCCDD 2 3 4 1 = Some (HEADER_LEN, hdr)
    \<and> take 12 hdr = header_bytes 1 0xAABBCCDD 2 3 4 1 \<and> drop 12 hdr = drop 12 (replicate 12 0)
    \<and> frameRecord (take 12 hdr @ [0xFF]) (replicate 15 0) = Some (w, out')
    \<and> w \<le> ffMaxEncoded (12 + length [0xFF :: u8]) + 1 \<and> drop w out' = drop w (replicate 15 0)
    \<and> out' ! (w - 1) = 0xFF \<and> 0xFF \<notin> set (take (w - 1) out')"
  by (rule frameRecord_envelope) (simp_all add: ffMaxEncoded_def)

end
