(* ===== verification/RleSniffer.thy ===== *)
theory RleSniffer
  imports UsbBus Framer
begin

text \<open>
  The run-length capture datapath of \<^verbatim>\<open>src/sniffer/rle_sniffer.hpp\<close> and \<^verbatim>\<open>rle_sniffer.cpp\<close>: the timer
  interrupt that copies the PIOC FIFO into a RAM ring, and the main-loop service that squelches idle
  runs and stores the rest straight into the USB transmit ring. The build is the product's
  (\<open>RUN_SNIFFER\<close>, no \<open>DIAG\<close>).

  The PIOC is hardware that runs its own program: its data registers are the list \<open>DR\<close>, which the CPU
  only reads. \<open>kbps\<close> is the build's \<open>RLE_MIN_KBPS\<close>, \<open>fcpu\<close> the vendor's \<open>SystemCoreClock\<close>.
\<close>

subsection \<open>Constants\<close>

record pioc_sdk =
  RB_MST_RESET :: u8
  RB_MST_IO_EN0 :: u8
  RB_MST_IO_EN1 :: u8
  RB_MST_CLK_GATE :: u8

definition CAP_IDLE_K :: "int \<Rightarrow> u32" where
  "CAP_IDLE_K kbps =
    (if kbps \<le> 0 then 0
     else if (750 :: u32) div of_int kbps \<noteq> 0 then 750 div of_int kbps else 1)"

definition TICK_HI_CYC :: u8 where "TICK_HI_CYC = 9"
definition TICK_LO_CYC :: u8 where "TICK_LO_CYC = 8"
definition RING_SLOTS :: u8 where "RING_SLOTS = 30"
definition RING_BASE :: nat where "RING_BASE = 0x22"
definition RING_HEAD :: nat where "RING_HEAD = 0x21"
definition RING_SZ :: u16 where "RING_SZ = 2048"
definition RING_MASK :: u16 where "RING_MASK = RING_SZ - 1"
definition PUMP_EVERY :: nat where "PUMP_EVERY = 16"

subsection \<open>State\<close>

record rle =
  DR :: "u8 list"
  SYS_CFG :: u8
  tim3_on :: bool
  tim3_flag :: bool
  drain_armed :: bool
  rle_ring :: "u8 list"
  rle_head :: u16
  rle_tail :: u16
  rle_ovfRam :: u16
  rle_ovfPioc :: u16
  rle_sniffTail :: u8
  rle_sniffSlot :: u8
  rle_sniffLastMs :: u32
  rle_sniffActive :: bool
  maxGap :: u8
  ramDrop :: u32
  lossSeen :: u32
  ramHi :: u16
  txMinFree :: u16
  loopCalls :: u32
  capRun :: u32
  capPiped :: bool
  rle_modeHbMs :: u32

text \<open>The static object; the registers are the hardware's.\<close>

definition rle_static :: "u8 list \<Rightarrow> rle" where
  "rle_static regs =
    \<lparr>DR = regs, SYS_CFG = 0, tim3_on = False, tim3_flag = False, drain_armed = False,
     rle_ring = replicate (unat RING_SZ) 0, rle_head = 0, rle_tail = 0, rle_ovfRam = 0, rle_ovfPioc = 0,
     rle_sniffTail = 0, rle_sniffSlot = 0, rle_sniffLastMs = 0, rle_sniffActive = False, maxGap = 0,
     ramDrop = 0, lossSeen = 0, ramHi = 0, txMinFree = 0xFFFF, loopCalls = 0, capRun = 0,
     capPiped = False, rle_modeHbMs = 0\<rparr>"

subsection \<open>The RAM ring\<close>

definition rle_ringCount :: "rle \<Rightarrow> u16" where
  "rle_ringCount r = (rle_head r - rle_tail r) AND RING_MASK"

definition rle_ringSpace :: "rle \<Rightarrow> u16" where
  "rle_ringSpace r = RING_MASK - rle_ringCount r"

text \<open>\<open>ring_[pos & RING_MASK] = x\<close> for consecutive positions.\<close>

fun mask_store :: "u16 \<Rightarrow> u8 list \<Rightarrow> u8 list \<Rightarrow> u8 list" where
  "mask_store pos [] buf = buf"
| "mask_store pos (x # xs) buf = mask_store (pos + 1) xs (buf[unat (pos AND RING_MASK) := x])"

definition rle_ringPush :: "u8 list \<Rightarrow> rle \<Rightarrow> rle" where
  "rle_ringPush p r =
    (let n = of_nat (length p) in
     if rle_ringSpace r < n then r\<lparr>rle_ovfRam := rle_ovfRam r + 1\<rparr>
     else r\<lparr>rle_ring := mask_store (rle_head r) p (rle_ring r), rle_head := rle_head r + n\<rparr>)"

definition rle_ringPop :: "u16 \<Rightarrow> rle \<Rightarrow> u8 list \<times> rle" where
  "rle_ringPop maxLen r =
    (let n = rle_ringCount r; n = (if n > maxLen then maxLen else n); t = rle_tail r
     in (map (\<lambda>i. rle_ring r ! unat ((t + of_nat i) AND RING_MASK)) [0..<unat n], r\<lparr>rle_tail := t + n\<rparr>))"

subsection \<open>The drain interrupt\<close>

text \<open>\<open>while (advance >= RING_SLOTS) advance -= RING_SLOTS;\<close>\<close>

function reduce_slots :: "u8 \<Rightarrow> u8" where
  "reduce_slots a = (if a \<ge> RING_SLOTS then reduce_slots (a - RING_SLOTS) else a)"
  by pat_completeness auto
termination
  by (relation "measure unat") (simp_all add: RING_SLOTS_def unat_sub word_le_nat_alt)

declare reduce_slots.simps [simp del]

text \<open>The gap to the published head, and the re-synchronisation when more than 30 bytes have passed.\<close>

definition drain_resync :: "u8 \<Rightarrow> rle \<Rightarrow> rle \<times> u8 \<times> u8" where
  "drain_resync h r =
    (let rawGap = h - rle_sniffTail r;
         r = (if rawGap > maxGap r then r\<lparr>maxGap := rawGap\<rparr> else r);
         slot = rle_sniffSlot r
     in if rawGap > RING_SLOTS then
          (let slot = slot + reduce_slots rawGap
           in (r\<lparr>rle_ovfPioc := rle_ovfPioc r + 1, rle_sniffTail := h - RING_SLOTS\<rparr>, RING_SLOTS,
               if slot \<ge> RING_SLOTS then slot - RING_SLOTS else slot))
        else (r, rawGap, slot))"

text \<open>
  The copy of \<open>gap\<close> bytes from \<open>slot\<close>, in two contiguous runs of the register file, as far as the RAM
  ring has room; the cursors move past all of them.
\<close>

definition drain_copy :: "u8 \<Rightarrow> u8 \<Rightarrow> u8 \<Rightarrow> rle \<Rightarrow> rle" where
  "drain_copy rawGap gap slot r =
    (let rh = rle_head r; rt = rle_tail r;
         space = RING_MASK - ((rh - rt) AND RING_MASK);
         toCopy = (if ucast gap > space then ucast space else gap);
         first = RING_SLOTS - slot;
         first = (if first > toCopy then toCopy else first);
         data = take (unat first) (drop (RING_BASE + unat slot) (DR r))
                @ take (unat toCopy - unat first) (drop RING_BASE (DR r));
         r = r\<lparr>rle_ring := mask_store rh data (rle_ring r)\<rparr>;
         slot = (if rawGap \<le> RING_SLOTS
                 then (let slot = slot + rawGap in if slot \<ge> RING_SLOTS then slot - RING_SLOTS else slot)
                 else slot);
         r = r\<lparr>rle_sniffSlot := slot, rle_sniffTail := rle_sniffTail r + gap, rle_head := rh + ucast toCopy\<rparr>;
         r = (if toCopy < gap then r\<lparr>ramDrop := ramDrop r + ucast (gap - toCopy)\<rparr> else r);
         fill = (rle_head r - rt) AND RING_MASK
     in if fill > ramHi r then r\<lparr>ramHi := fill\<rparr> else r)"

definition drainPioc :: "rle \<Rightarrow> rle" where
  "drainPioc r =
    (let h = DR r ! RING_HEAD; rawGap = h - rle_sniffTail r; (r, gap, slot) = drain_resync h r
     in drain_copy rawGap gap slot r)"

definition TIM3_IRQHandler :: "rle \<Rightarrow> rle" where
  "TIM3_IRQHandler r =
    (if tim3_flag r then
       (let r = r\<lparr>tim3_flag := False\<rparr> in if drain_armed r then drainPioc r else r)
     else r)"

subsection \<open>Lifecycle\<close>

definition rle_loadBlob :: "pioc_sdk \<Rightarrow> rle \<Rightarrow> rle" where
  "rle_loadBlob P r =
    (let r = r\<lparr>SYS_CFG := 0\<rparr>;
         r = r\<lparr>SYS_CFG := SYS_CFG r OR RB_MST_RESET P\<rparr>;
         r = r\<lparr>SYS_CFG := RB_MST_IO_EN0 P OR RB_MST_IO_EN1 P\<rparr>
     in r\<lparr>SYS_CFG := SYS_CFG r OR RB_MST_CLK_GATE P\<rparr>)"

definition startDrainTimer :: "rle \<Rightarrow> rle" where
  "startDrainTimer r = r\<lparr>tim3_flag := False, tim3_on := True\<rparr>"

text \<open>\<open>%u\<close> and \<open>%lu\<close>.\<close>

fun dec_digits :: "nat \<Rightarrow> u8 list" where
  "dec_digits n = (if n < 10 then [0x30 + of_nat n] else dec_digits (n div 10) @ [0x30 + of_nat (n mod 10)])"

declare dec_digits.simps [simp del]

definition rle_marker :: "u32 \<Rightarrow> u8 list" where
  "rle_marker fcpu =
    map of_char ''[MODE rle wire=2 thi='' @ dec_digits (unat TICK_HI_CYC)
    @ map of_char '' tlo='' @ dec_digits (unat TICK_LO_CYC)
    @ map of_char '' fcpu='' @ dec_digits (unat fcpu) @ map of_char '']''"

text \<open>\<open>snprintf\<close> into 64 bytes keeps at most 63 characters; the block is framed behind a boundary.\<close>

definition rle_emitModeMarker :: "u32 \<Rightarrow> usb \<Rightarrow> usb option" where
  "rle_emitModeMarker fcpu u =
    (let marker = take 63 (rle_marker fcpu) in
     do {
       (w, out) \<leftarrow> frameMeta (Some marker) (replicate 79 0);
       Some (if w \<noteq> 0 \<and> unat (usb_writeSpace u) \<ge> w + 1
             then snd (usb_write (take (w + 1) (0xFF # out)) u) else u) })"

definition rle_begin :: "pioc_sdk \<Rightarrow> u32 \<Rightarrow> u32 \<Rightarrow> rle \<Rightarrow> usb \<Rightarrow> (rle \<times> usb) option" where
  "rle_begin P fcpu nowMs r u =
    (let r = rle_loadBlob P r;
         r = r\<lparr>rle_sniffTail := 0, rle_sniffSlot := 0, rle_sniffLastMs := nowMs, rle_sniffActive := False,
               rle_head := 0, rle_tail := 0, rle_ovfRam := 0, rle_ovfPioc := 0, ramDrop := 0, lossSeen := 0,
               ramHi := 0, maxGap := 0, txMinFree := 0xFFFF, capRun := 0, capPiped := False,
               drain_armed := True, rle_modeHbMs := nowMs + 1000\<rparr>
     in do {
       u \<leftarrow> rle_emitModeMarker fcpu u;
       Some (startDrainTimer r, u) })"

definition rle_stop :: "rle \<Rightarrow> rle" where
  "rle_stop r = r\<lparr>tim3_on := False, drain_armed := False, SYS_CFG := 0, rle_head := 0, rle_tail := 0,
                  rle_sniffActive := False, capRun := 0, capPiped := False\<rparr>"

subsection \<open>The main-loop service\<close>

text \<open>
  The squelch of one run-byte: the new counters, the bytes stored (none or one), and the activity
  flags. \<open>active\<close> is \<open>sniffActive_\<close>, \<open>saw\<close> the local \<open>sawActivity\<close>.
\<close>

record squelch =
  sq_run :: u32
  sq_piped :: bool
  sq_active :: bool
  sq_saw :: bool

definition squelch_byte :: "u32 \<Rightarrow> u8 \<Rightarrow> squelch \<Rightarrow> u8 list \<times> squelch" where
  "squelch_byte k b q =
    (if b \<ge> 128 then
       (if k \<noteq> 0 \<and> sq_piped q then ([], q)
        else
         let q = q\<lparr>sq_run := sq_run q + 1\<rparr> in
         if k \<noteq> 0 \<and> sq_run q \<ge> k
         then ([0xFF], q\<lparr>sq_piped := True, sq_active := False, sq_saw := False\<rparr>)
         else ([b], q\<lparr>sq_saw := True\<rparr>))
     else
      let idleTail = sq_piped q; q = q\<lparr>sq_run := 0, sq_piped := False, sq_saw := True\<rparr>
      in (if idleTail then [] else [b], q))"

text \<open>
  The drain loop over \<open>n\<close> bytes from position \<open>i\<close>; \<open>outl\<close> bytes are stored at \<open>dst\<close> so far. It returns
  the number of bytes consumed.
\<close>

fun service_loop ::
  "sdk \<Rightarrow> u32 \<Rightarrow> rle \<Rightarrow> nat \<Rightarrow> u32 \<Rightarrow> nat \<Rightarrow> nat \<Rightarrow> nat \<Rightarrow> squelch \<Rightarrow> usb \<Rightarrow> (nat \<times> nat \<times> squelch \<times> usb) option" where
  "service_loop K k r dst cap 0 i outl q u = Some (i, outl, q, u)"
| "service_loop K k r dst cap (Suc n) i outl q u = do {
     u \<leftarrow> (if i mod PUMP_EVERY = 0 then pump K u else Some u);
     if outl \<ge> unat cap then Some (i, outl, q, u)
     else
      let (out, q) = squelch_byte k (rle_ring r ! unat ((rle_tail r + of_nat i) AND RING_MASK)) q in
      case out of
        [] \<Rightarrow> service_loop K k r dst cap n (i + 1) outl q u
      | b # _ \<Rightarrow> do {
          u \<leftarrow> tx_poke (dst + outl) b u;
          service_loop K k r dst cap n (i + 1) (outl + 1) q u } }"

text \<open>The drain with \<open>avail\<close> bytes of the transmit ring to fill: all of it, except in the telemetry build.\<close>

definition drain_upto :: "sdk \<Rightarrow> u32 \<Rightarrow> u16 \<Rightarrow> rle \<Rightarrow> usb \<Rightarrow> (rle \<times> bool \<times> usb) option" where
  "drain_upto K k avail r u =
    (let budget = (if avail > 192 then 192 else avail);
         n = rle_ringCount r; n = (if n > budget then budget else n);
         (dst, cap) = usb_txReserve u
     in if budget = 0 \<or> n = 0 \<or> cap = 0 then Some (r, False, u)
        else do {
          (i, outl, q, u) \<leftarrow> service_loop K k r dst cap (unat n) 0 0
            \<lparr>sq_run = capRun r, sq_piped = capPiped r, sq_active = rle_sniffActive r, sq_saw = False\<rparr> u;
          Some (r\<lparr>capRun := sq_run q, capPiped := sq_piped q, rle_sniffActive := sq_active q,
                  rle_tail := rle_tail r + of_nat i\<rparr>,
                sq_saw q, usb_txCommit (of_nat outl) u) })"

definition service_drain :: "sdk \<Rightarrow> u32 \<Rightarrow> rle \<Rightarrow> usb \<Rightarrow> (rle \<times> bool \<times> usb) option" where
  "service_drain K k r u = drain_upto K k (ucast (usb_writeSpace u)) r u"

definition emitBoundary :: "usb \<Rightarrow> bool \<times> usb" where
  "emitBoundary u = (let (n, u) = usb_write [0xFF] u in (n = 1, u))"

text \<open>The capture-loss marker.\<close>

definition service_loss :: "rle \<Rightarrow> usb \<Rightarrow> rle \<times> usb" where
  "service_loss r u =
    (let rd = ramDrop r in
     if rd \<noteq> lossSeen r then
       (let (n, u) = usb_write [0xFD] u in (if n = 1 then r\<lparr>lossSeen := rd\<rparr> else r, u))
     else (r, u))"

text \<open>Idle separator and mode heartbeat.\<close>

definition service_idle :: "u32 \<Rightarrow> bool \<Rightarrow> rle \<Rightarrow> usb \<Rightarrow> rle \<times> usb" where
  "service_idle nowMs saw r u =
    (let ramCount = rle_ringCount r;
         r = (if saw \<or> ramCount > 0 then r\<lparr>rle_sniffLastMs := nowMs, rle_sniffActive := True\<rparr> else r)
     in if rle_sniffActive r \<and> ramCount = 0 \<and> nowMs - rle_sniffLastMs r > 3 then
          (let (ok, u) = emitBoundary u in (if ok then r\<lparr>rle_sniffActive := False\<rparr> else r, u))
        else (r, u))"

definition service_heartbeat :: "u32 \<Rightarrow> u32 \<Rightarrow> rle \<Rightarrow> usb \<Rightarrow> (rle \<times> usb) option" where
  "service_heartbeat fcpu nowMs r u =
    (if \<not> rle_sniffActive r \<and> passed nowMs (rle_modeHbMs r)
     then map_option (\<lambda>u. (r\<lparr>rle_modeHbMs := nowMs + 1000\<rparr>, u)) (rle_emitModeMarker fcpu u)
     else Some (r, u))"

definition rle_service :: "sdk \<Rightarrow> u32 \<Rightarrow> int \<Rightarrow> u32 \<Rightarrow> rle \<Rightarrow> usb \<Rightarrow> (rle \<times> usb) option" where
  "rle_service K fcpu kbps nowMs r u =
    (let r = r\<lparr>loopCalls := loopCalls r + 1\<rparr> in
     do {
       (r, saw, u) \<leftarrow> service_drain K (CAP_IDLE_K kbps) r u;
       let f = ucast (usb_writeSpace u);
       let r = (if f < txMinFree r then r\<lparr>txMinFree := f\<rparr> else r);
       let (r, u) = service_loss r u;
       let (r, u) = service_idle nowMs saw r u;
       service_heartbeat fcpu nowMs r u })"

end
