(* ===== verification/ClockedSniffer.thy ===== *)
theory ClockedSniffer
  imports RleSniffer
begin

text \<open>
  The clocked capture datapath of \<^verbatim>\<open>src/sniffer/clocked_sniffer.hpp\<close> and \<^verbatim>\<open>clocked_sniffer.cpp\<close>: the
  main loop drains the 16-slot PIOC FIFO into a timestamped burst, frames finished bursts into a RAM
  ring, and copies the ring into the USB transmit ring. \<open>diagOvfPioc\<close> and \<open>diagOvfRam\<close> exist in the
  telemetry build only, which sums the reported losses in them; nothing here reads them.

  The PIOC's data registers are the list \<open>clk_DR\<close>, which the CPU only reads; its system register keeps
  the value last written, and \<open>resets\<close> counts the pulses of the reset bit. \<open>us k\<close> is the \<open>k\<close>-th reading
  of \<open>Time::micros()\<close>.
\<close>

subsection \<open>Constants\<close>

definition CLK_SLOTS :: u8 where "CLK_SLOTS = 16"
definition CLK_HEAD :: nat where "CLK_HEAD = 0x3F"
definition CLK_ACC :: nat where "CLK_ACC = 0x3E"
definition CLK_RING_SZ :: nat where "CLK_RING_SZ = 2048"
definition BURST_MAX :: u16 where "BURST_MAX = 768"
definition BURST_TCAP_US :: u32 where "BURST_TCAP_US = 50000"
definition ONSET_N :: u16 where "ONSET_N = 8"
definition CLK_PUMP_EVERY :: nat where "CLK_PUMP_EVERY = 16"
definition DRAIN_MAX :: u16 where "DRAIN_MAX = 192"

text \<open>\<open>sizeof enc\<close>.\<close>

definition ENC_SIZE :: nat where
  "ENC_SIZE = 12 + unat BURST_MAX + (12 + unat BURST_MAX) div 254 + 2"

subsection \<open>State\<close>

record clk =
  clk_DR :: "u8 list"
  clk_SYS_CFG :: u8
  resets :: nat
  us_reads :: nat
  clk_ring :: "u8 ring"
  clk_ovfRam :: u16
  clk_ovfPioc :: u16
  clk_sniffTail :: u8
  clk_sniffLastMs :: u32
  partialSeenMs :: u32
  partialSeenBits :: u8
  burstBuf :: "u8 list"
  burstN :: u16
  burstT0 :: u32
  burstLast :: u32
  burstOnset :: u16
  burstOpen :: bool
  burstNeedTerminal :: bool
  tailBits :: u8
  clk_modeHbMs :: u32
  diagOvfPioc :: u32
  diagOvfRam :: u32

definition clk_static :: "u8 list \<Rightarrow> clk" where
  "clk_static regs =
    \<lparr>clk_DR = regs, clk_SYS_CFG = 0, resets = 0, us_reads = 0,
     clk_ring = \<lparr>r_head = 0, r_tail = 0, r_buf = replicate CLK_RING_SZ 0\<rparr>,
     clk_ovfRam = 0, clk_ovfPioc = 0, clk_sniffTail = 0, clk_sniffLastMs = 0, partialSeenMs = 0,
     partialSeenBits = 0, burstBuf = replicate (unat BURST_MAX) 0, burstN = 0, burstT0 = 0, burstLast = 0,
     burstOnset = 0, burstOpen = False, burstNeedTerminal = False, tailBits = 0, clk_modeHbMs = 0,
     diagOvfPioc = 0, diagOvfRam = 0\<rparr>"

definition clk_micros :: "(nat \<Rightarrow> u32) \<Rightarrow> clk \<Rightarrow> u32 \<times> clk" where
  "clk_micros us c = (us (us_reads c), c\<lparr>us_reads := us_reads c + 1\<rparr>)"

subsection \<open>The RAM ring\<close>

definition clk_ringCount :: "clk \<Rightarrow> u16" where
  "clk_ringCount c = ucast (ring_size (clk_ring c))"

definition clk_ringSpace :: "clk \<Rightarrow> u16" where
  "clk_ringSpace c = ucast (ring_free (clk_ring c))"

definition clk_ringPush :: "u8 list \<Rightarrow> clk \<Rightarrow> clk" where
  "clk_ringPush p c =
    (let (ok, r) = ring_pushAll p (clk_ring c); c = c\<lparr>clk_ring := r\<rparr>
     in if ok then c else c\<lparr>clk_ovfRam := clk_ovfRam c + 1\<rparr>)"

definition clk_ringPop :: "u16 \<Rightarrow> clk \<Rightarrow> u8 list \<times> clk" where
  "clk_ringPop maxLen c = (let (xs, r) = ring_pop (ucast maxLen) (clk_ring c) in (xs, c\<lparr>clk_ring := r\<rparr>))"

subsection \<open>Lifecycle\<close>

definition loadRingBlob :: "pioc_sdk \<Rightarrow> clk \<Rightarrow> clk" where
  "loadRingBlob P c =
    (let c = c\<lparr>clk_SYS_CFG := 0\<rparr>;
         c = c\<lparr>clk_SYS_CFG := clk_SYS_CFG c OR RB_MST_RESET P, resets := resets c + 1\<rparr>;
         c = c\<lparr>clk_SYS_CFG := RB_MST_IO_EN0 P OR RB_MST_IO_EN1 P\<rparr>
     in c\<lparr>clk_SYS_CFG := clk_SYS_CFG c OR RB_MST_CLK_GATE P\<rparr>)"

definition restartPioc :: "pioc_sdk \<Rightarrow> clk \<Rightarrow> clk" where
  "restartPioc P c =
    (let c = c\<lparr>clk_SYS_CFG := clk_SYS_CFG c OR RB_MST_RESET P, resets := resets c + 1\<rparr>;
         c = c\<lparr>clk_SYS_CFG := RB_MST_IO_EN0 P OR RB_MST_IO_EN1 P\<rparr>
     in c\<lparr>clk_SYS_CFG := clk_SYS_CFG c OR RB_MST_CLK_GATE P\<rparr>)"

definition CLK_MARKER :: "u8 list" where
  "CLK_MARKER = map of_char ''[MODE clocked wire=2]''"

definition clk_emitModeMarker :: "clk \<Rightarrow> clk option" where
  "clk_emitModeMarker c = do {
     (w, out) \<leftarrow> frameMeta (Some CLK_MARKER) (replicate 40 0);
     Some (if w \<noteq> 0 \<and> unat (clk_ringSpace c) \<ge> w then clk_ringPush (take w out) c else c) }"

definition clk_begin :: "pioc_sdk \<Rightarrow> u32 \<Rightarrow> clk \<Rightarrow> clk option" where
  "clk_begin P nowMs c =
    (let c = loadRingBlob P c;
         c = c\<lparr>clk_sniffTail := clk_DR c ! CLK_HEAD, clk_sniffLastMs := nowMs, partialSeenMs := nowMs,
               partialSeenBits := 0, clk_ring := ring_clear (clk_ring c), clk_ovfRam := 0, clk_ovfPioc := 0,
               burstOpen := False, burstN := 0, burstNeedTerminal := False, tailBits := 0\<rparr>;
         c = clk_ringPush [0xFF] c
     in map_option (\<lambda>c. c\<lparr>clk_modeHbMs := nowMs + 1000\<rparr>) (clk_emitModeMarker c))"

definition clk_stop :: "clk \<Rightarrow> clk" where
  "clk_stop c = c\<lparr>clk_SYS_CFG := 0, clk_ring := ring_clear (clk_ring c), burstOpen := False, burstN := 0,
                  burstNeedTerminal := False, tailBits := 0, partialSeenBits := 0\<rparr>"

subsection \<open>Records\<close>

definition sat16 :: "u32 \<Rightarrow> u16" where
  "sat16 d = (if d > 0xFFFF then 0xFFFF else ucast d)"

definition rec_flags :: "bool \<Rightarrow> clk \<Rightarrow> u8" where
  "rec_flags continued c =
    (if clk_ovfPioc c \<noteq> 0 then 1 else 0) OR (if clk_ovfRam c \<noteq> 0 then 2 else 0)
    OR (if continued then 4 else 0) OR push_bit 3 (tailBits c AND 7)"

text \<open>\<open>emitRecord\<close>; reading \<open>burstBuf_\<close> past its end is \<open>None\<close>.\<close>

definition emitRecord :: "bool \<Rightarrow> clk \<Rightarrow> clk option" where
  "emitRecord continued c =
    (if \<not> burstOpen c \<and> \<not> (burstNeedTerminal c \<and> \<not> continued) then Some c
     else if unat (burstN c) > length (burstBuf c) then None
     else
      let dur = sat16 (burstLast c - burstT0 c);
          rec = [0x01, ucast (burstT0 c), ucast (drop_bit 8 (burstT0 c)), ucast (drop_bit 16 (burstT0 c)),
                 ucast (drop_bit 24 (burstT0 c)), ucast dur, ucast (drop_bit 8 dur),
                 ucast (burstOnset c), ucast (drop_bit 8 (burstOnset c)), rec_flags continued c,
                 ucast (burstN c), ucast (drop_bit 8 (burstN c))] @ take (unat (burstN c)) (burstBuf c)
      in do {
        (m, enc) \<leftarrow> frameRecord rec (replicate ENC_SIZE 0);
        let m = (of_nat m :: u16);
        let c = (if clk_ringSpace c \<ge> m
                 then (let c = clk_ringPush (take (unat m) enc) c;
                           c = c\<lparr>diagOvfPioc := diagOvfPioc c + ucast (clk_ovfPioc c), diagOvfRam := diagOvfRam c + ucast (clk_ovfRam c)\<rparr>
                       in c\<lparr>clk_ovfPioc := 0, clk_ovfRam := 0, burstNeedTerminal := continued\<rparr>)
                 else c\<lparr>clk_ovfRam := clk_ovfRam c + 1\<rparr>);
        Some (c\<lparr>burstOpen := False, burstN := 0\<rparr>) })"

subsection \<open>Service, stage 1: the PIOC FIFO into the burst\<close>

definition clk_overrun :: "u8 \<Rightarrow> clk \<Rightarrow> clk" where
  "clk_overrun h c =
    (if h - clk_sniffTail c > CLK_SLOTS
     then c\<lparr>clk_ovfPioc := clk_ovfPioc c + 1, clk_sniffTail := h - CLK_SLOTS\<rparr> else c)"

text \<open>One byte out of the FIFO.\<close>

definition clk_open :: "(nat \<Rightarrow> u32) \<Rightarrow> clk \<Rightarrow> clk" where
  "clk_open us c =
    (if burstOpen c then c
     else let (t, c) = clk_micros us c
          in c\<lparr>burstOpen := True, burstN := 0, burstOnset := 0, burstT0 := t\<rparr>)"

definition clk_append :: "u8 \<Rightarrow> clk \<Rightarrow> clk option" where
  "clk_append b c =
    (if burstN c < BURST_MAX
     then map_option (\<lambda>buf. c\<lparr>burstBuf := buf, burstN := burstN c + 1\<rparr>) (put (burstBuf c) (unat (burstN c)) b)
     else Some c)"

definition clk_onset :: "(nat \<Rightarrow> u32) \<Rightarrow> clk \<Rightarrow> clk" where
  "clk_onset us c =
    (if burstN c = ONSET_N then let (t, c) = clk_micros us c in c\<lparr>burstOnset := sat16 (t - burstT0 c)\<rparr> else c)"

definition clk_split :: "(nat \<Rightarrow> u32) \<Rightarrow> clk \<Rightarrow> clk option" where
  "clk_split us c =
    (if burstN c \<ge> BURST_MAX then let (t, c) = clk_micros us c in emitRecord True (c\<lparr>burstLast := t\<rparr>)
     else Some c)"

definition clk_byte :: "(nat \<Rightarrow> u32) \<Rightarrow> clk \<Rightarrow> clk option" where
  "clk_byte us c =
    (let b = clk_DR c ! (0x20 + unat (clk_sniffTail c AND (CLK_SLOTS - 1)));
         c = clk_open us (c\<lparr>clk_sniffTail := clk_sniffTail c + 1\<rparr>)
     in do { c \<leftarrow> clk_append b c; clk_split us (clk_onset us c) })"

lemma emitRecord_tail: "emitRecord cont c = Some c' \<Longrightarrow> clk_sniffTail c' = clk_sniffTail c"
  by (auto simp: emitRecord_def Let_def clk_ringPush_def split: if_splits Option.bind_splits prod.splits)

lemma clk_byte_tail: "clk_byte us c = Some c' \<Longrightarrow> clk_sniffTail c' = clk_sniffTail c + 1"
  by (auto simp: clk_byte_def clk_split_def clk_onset_def clk_append_def clk_open_def clk_micros_def Let_def
      dest!: emitRecord_tail split: if_splits Option.bind_splits prod.splits)

text \<open>\<open>while (sniffTail_ != h)\<close>.\<close>

function clk_drain :: "(nat \<Rightarrow> u32) \<Rightarrow> u8 \<Rightarrow> clk \<Rightarrow> clk option" where
  "clk_drain us h c =
    (if clk_sniffTail c = h then Some c
     else case clk_byte us c of None \<Rightarrow> None | Some c \<Rightarrow> clk_drain us h c)"
  by pat_completeness auto
termination
proof (relation "measure (\<lambda>(us, h, c). unat (h - clk_sniffTail c))")
  fix us :: "nat \<Rightarrow> u32" and h :: u8 and c c' :: clk
  assume ne: "clk_sniffTail c \<noteq> h" and st: "clk_byte us c = Some c'"
  have "h - clk_sniffTail c \<noteq> 0" using ne by auto
  then have "unat (h - clk_sniffTail c - 1) < unat (h - clk_sniffTail c)"
    by (simp add: measure_unat)
  then show "((us, h, c'), us, h, c) \<in> measure (\<lambda>(us, h, c). unat (h - clk_sniffTail c))"
    by (simp add: clk_byte_tail [OF st] diff_diff_eq [symmetric])
qed simp

declare clk_drain.simps [simp del]

definition clk_stage1 :: "(nat \<Rightarrow> u32) \<Rightarrow> u32 \<Rightarrow> clk \<Rightarrow> clk option" where
  "clk_stage1 us nowMs c =
    (let h = clk_DR c ! CLK_HEAD; c = clk_overrun h c; got = (clk_sniffTail c \<noteq> h)
     in do {
       c \<leftarrow> clk_drain us h c;
       Some (if got then let (t, c) = clk_micros us c in c\<lparr>burstLast := t, clk_sniffLastMs := nowMs\<rparr> else c) })"

subsection \<open>Service: partial bytes and the end of a burst\<close>

text \<open>\<open>for (v = acc; v >>= 1;) kbits++;\<close>\<close>

function sentinel_loop :: "u8 \<Rightarrow> u8 \<Rightarrow> u8" where
  "sentinel_loop v k = (let v = drop_bit 1 v in if v \<noteq> 0 then sentinel_loop v (k + 1) else k)"
  by pat_completeness auto
termination
proof (relation "measure (\<lambda>(v, k). unat v)")
  fix v k x :: u8
  assume x: "x = drop_bit 1 v" "x \<noteq> 0"
  have "unat x = unat v div 2" unfolding x(1) by (simp add: drop_bit_eq_div unat_div)
  moreover have "unat x \<noteq> 0" using x(2) by (simp add: unat_eq_0)
  ultimately show "((x, k + 1), v, k) \<in> measure (\<lambda>(v, k). unat v)" by simp
qed simp

declare sentinel_loop.simps [simp del]

definition flush_byte :: "u8 \<Rightarrow> u8 \<Rightarrow> u8" where
  "flush_byte acc kbits =
    ucast (push_bit (8 - unat kbits) ((ucast acc :: u32) AND (push_bit (unat kbits) 1 - 1)))"

definition clk_partial :: "u32 \<Rightarrow> u8 \<Rightarrow> clk \<Rightarrow> clk" where
  "clk_partial nowMs kbits c =
    (if kbits \<noteq> 0
     then (if partialSeenBits c = 0 then c\<lparr>partialSeenMs := nowMs\<rparr> else c)\<lparr>partialSeenBits := kbits\<rparr>
     else c\<lparr>partialSeenBits := 0\<rparr>)"

text \<open>The idle branch: flush the partial byte, close the burst or the continued chain, restart the PIOC.\<close>

definition clk_close :: "pioc_sdk \<Rightarrow> (nat \<Rightarrow> u32) \<Rightarrow> u8 \<Rightarrow> u8 \<Rightarrow> clk \<Rightarrow> clk option" where
  "clk_close P us acc kbits c = do {
     c \<leftarrow> (if kbits \<noteq> 0 \<and> burstN c < BURST_MAX
          then map_option (\<lambda>buf. c\<lparr>burstBuf := buf, burstN := burstN c + 1, tailBits := kbits\<rparr>)
                 (put (burstBuf c) (unat (burstN c)) (flush_byte acc kbits))
          else Some c);
     let c = (if burstOpen c then c
              else let (t, c) = clk_micros us c
                   in c\<lparr>burstOpen := True, burstLast := t, burstT0 := t, burstOnset := 0\<rparr>);
     c \<leftarrow> emitRecord False c;
     let c = c\<lparr>tailBits := 0\<rparr>;
     Some (if kbits \<noteq> 0 then (restartPioc P c)\<lparr>clk_sniffTail := 0, partialSeenBits := 0\<rparr> else c) }"

definition clk_finalize :: "pioc_sdk \<Rightarrow> (nat \<Rightarrow> u32) \<Rightarrow> u32 \<Rightarrow> u8 \<Rightarrow> u8 \<Rightarrow> clk \<Rightarrow> clk option" where
  "clk_finalize P us nowMs acc kbits c =
    (let partialOnlyIdle = (kbits \<noteq> 0 \<and> \<not> burstOpen c \<and> \<not> burstNeedTerminal c \<and> nowMs - partialSeenMs c > 3)
     in if burstOpen c \<or> burstNeedTerminal c \<or> partialOnlyIdle then
          (let idle = (nowMs - clk_sniffLastMs c > 3);
               (tcap, c) = (if burstOpen c
                            then let (t, c) = clk_micros us c in (t - burstT0 c > BURST_TCAP_US, c)
                            else (False, c))
           in if idle \<or> partialOnlyIdle then clk_close P us acc kbits c
              else if tcap then emitRecord False c
              else Some c)
        else Some c)"

subsection \<open>Service, stage 2: the RAM ring into the USB transmit ring\<close>

fun clk_copy :: "sdk \<Rightarrow> nat \<Rightarrow> nat \<Rightarrow> u8 list \<Rightarrow> usb \<Rightarrow> usb option" where
  "clk_copy K dst i [] u = Some u"
| "clk_copy K dst i (b # src) u = do {
     u \<leftarrow> (if i mod CLK_PUMP_EVERY = 0 then pump K u else Some u);
     u \<leftarrow> tx_poke (dst + i) b u;
     clk_copy K dst (i + 1) src u }"

definition clk_stage2 :: "sdk \<Rightarrow> clk \<Rightarrow> usb \<Rightarrow> (clk \<times> usb) option" where
  "clk_stage2 K c u =
    (let budget = (ucast (usb_writeSpace u) :: u16);
         budget = (if budget > DRAIN_MAX then DRAIN_MAX else budget);
         n = clk_ringCount c; n = (if n > budget then budget else n);
         (dst, cap) = usb_txReserve u
     in if budget = 0 \<or> n = 0 \<or> cap = 0 then Some (c, u)
        else
         let srcCap = (ucast (ring_readContig (clk_ring c)) :: u16);
             n = (if n > srcCap then srcCap else n);
             n = (if ucast n > cap then ucast cap else n);
             src = take (unat n) (drop (ring_readPtr (clk_ring c)) (r_buf (clk_ring c)))
         in do {
           u \<leftarrow> clk_copy K dst 0 src u;
           Some (c\<lparr>clk_ring := ring_readCommit (ucast n) (clk_ring c)\<rparr>, usb_txCommit (ucast n) u) })"

definition clk_service ::
  "sdk \<Rightarrow> pioc_sdk \<Rightarrow> (nat \<Rightarrow> u32) \<Rightarrow> u32 \<Rightarrow> clk \<Rightarrow> usb \<Rightarrow> (clk \<times> usb) option" where
  "clk_service K P us nowMs c u = do {
     c \<leftarrow> (if passed nowMs (clk_modeHbMs c)
          then map_option (\<lambda>c. c\<lparr>clk_modeHbMs := nowMs + 1000\<rparr>) (clk_emitModeMarker c)
          else Some c);
     c \<leftarrow> clk_stage1 us nowMs c;
     let acc = clk_DR c ! CLK_ACC;
     let kbits = sentinel_loop acc 0;
     let c = clk_partial nowMs kbits c;
     c \<leftarrow> clk_finalize P us nowMs acc kbits c;
     clk_stage2 K c u }"

end
