(* ===== verification/RleDrain.thy ===== *)
theory RleDrain
  imports RleSniffer
begin

text \<open>
  The drain interrupt of the run-length datapath against the FIFO it empties. The FIFO has 30 slots
  and an 8-bit head, and 30 does not divide 256: the code keeps a logical and a physical cursor. Here
  the history of everything the PIOC produced is a list, and the lemmas say which part of it each
  interrupt moves to the RAM ring.
\<close>

subsection \<open>The RAM ring as a ring buffer\<close>

definition rle_wf :: "rle \<Rightarrow> bool" where
  "rle_wf r \<longleftrightarrow> length (rle_ring r) = 2048 \<and> length (DR r) = 64"

definition rle_list :: "rle \<Rightarrow> u8 list" where
  "rle_list r = map (\<lambda>i. rle_ring r ! unat ((rle_tail r + of_nat i) AND RING_MASK))
                    [0..<unat (rle_ringCount r)]"

lemma RING_MASK_val: "RING_MASK = mask 11"
  by (simp add: RING_MASK_def RING_SZ_def mask_eq_exp_minus_1)

lemma unat_and_RING_MASK: "unat (x AND RING_MASK) = unat x mod 2048"
proof -
  have "unat (x AND RING_MASK) = take_bit 11 (unat x)"
    by (simp only: RING_MASK_val take_bit_eq_mask [symmetric] unsigned_take_bit_eq)
  then show ?thesis by (simp add: take_bit_eq_mod)
qed

lemma slot_u16: "unat ((x + of_nat i) AND RING_MASK) = (unat x + i) mod 2048"
proof -
  have "(unat x + i) mod 65536 mod 2048 = (unat x + i) mod (2048 :: nat)" by (intro mod_mod_cancel) simp
  then show ?thesis using unat_add_of_nat [of x i] by (simp add: unat_and_RING_MASK)
qed

lemma count_u16: "unat (rle_ringCount r) < 2048"
  by (simp add: rle_ringCount_def unat_and_RING_MASK)

lemma space_u16: "unat (RING_MASK - ((h - t) AND RING_MASK)) = 2047 - unat ((h - t) AND RING_MASK)"
proof -
  have "unat ((h - t) AND RING_MASK) < 2048" by (simp add: unat_and_RING_MASK)
  then have "(h - t) AND RING_MASK \<le> RING_MASK"
    by (simp add: word_le_nat_alt RING_MASK_def RING_SZ_def)
  then show ?thesis by (simp add: unat_sub) (simp add: RING_MASK_def RING_SZ_def)
qed

text \<open>The same ring with 32-bit cursors, to reuse the ring buffer's lemmas.\<close>

definition to_ring :: "rle \<Rightarrow> u8 ring" where
  "to_ring r = \<lparr>r_head = ucast (rle_tail r) + ucast (rle_ringCount r), r_tail = ucast (rle_tail r),
                r_buf = rle_ring r\<rparr>"

lemma to_ring_size: "ring_size (to_ring r) = ucast (rle_ringCount r)"
  by (simp add: ring_size_def to_ring_def)

lemma unat_ucast_u16 [simp]: "unat (ucast (x :: u16) :: u32) = unat x"
  by (simp add: unsigned_ucast_eq take_bit_nat_eq_self unat_u16_lt order_less_trans [OF unat_u16_lt])

lemma to_ring_wf:
  assumes "rle_wf r"
  shows "ring_wf (to_ring r)"
proof -
  have "unat (ring_size (to_ring r)) \<le> 2048" using count_u16 [of r] by (simp add: to_ring_size)
  moreover have "ring_len (to_ring r) = 2 ^ 11" using assms by (simp add: rle_wf_def to_ring_def)
  ultimately show ?thesis
    unfolding ring_wf_def ring_fits_def by (intro conjI exI [of _ 11]) simp_all
qed

lemma to_ring_list:
  assumes "rle_wf r"
  shows "ring_list (to_ring r) = rle_list r"
proof -
  have wf: "ring_wf (to_ring r)" using to_ring_wf [OF assms] .
  have len: "ring_len (to_ring r) = 2048" using assms by (simp add: rle_wf_def to_ring_def)
  have "unat (ring_index (ring_cap (to_ring r)) (r_tail (to_ring r) + of_nat i))
      = unat ((rle_tail r + of_nat i) AND RING_MASK)" if "i < unat (rle_ringCount r)" for i
  proof -
    have "r_tail (to_ring r) = ucast (rle_tail r)" by (simp add: to_ring_def)
    then show ?thesis
      using ring_slot [OF disjI1 [OF wf] disjI2 [OF wf], of i] slot_u16 [of "rle_tail r" i] len by simp
  qed
  then show ?thesis by (simp add: ring_list_def rle_list_def to_ring_size) (simp add: to_ring_def)
qed

lemma mask_store_copy_in:
  assumes "unat p mod 2048 = unat h mod 2048"
  shows "mask_store h xs buf = copy_in_loop 2048 p xs buf"
  using assms
proof (induction xs arbitrary: h p buf)
  case (Cons x xs)
  have next_mod: "unat (p + 1) mod 2048 = unat (h + 1) mod 2048"
  proof -
    have "unat (p + 1) mod 2048 = (unat p + 1) mod 2048"
      using unat_add_of_nat [of p 1] by (simp add: mod_mod_cancel)
    moreover have "unat (h + 1) mod 2048 = (unat h + 1) mod 2048"
      using unat_add_of_nat [of h 1] by (simp add: mod_mod_cancel)
    ultimately show ?thesis using Cons.prems by (metis mod_add_left_eq)
  qed
  have "unat (ring_index 2048 p) = unat p mod 2048"
    using ring_index_pow2 [of 11 p] by simp
  then show ?case using Cons.IH [OF next_mod] Cons.prems by (simp add: unat_and_RING_MASK)
qed simp

lemma rle_store:
  assumes "rle_wf r" "length data + unat (rle_ringCount r) < 2048"
  defines "r' \<equiv> r\<lparr>rle_ring := mask_store (rle_head r) data (rle_ring r),
                  rle_head := rle_head r + of_nat (length data)\<rparr>"
  shows "rle_list r' = rle_list r @ data" and "rle_wf r'"
    and "unat (rle_ringCount r') = unat (rle_ringCount r) + length data"
proof -
  let ?R = "to_ring r" and ?n = "of_nat (length data) :: u32"
  have wf: "ring_wf ?R" "ring_fits ?R" "ring_len ?R = 2048"
    using to_ring_wf [OF assms(1)] assms(1) by (simp_all add: ring_wf_def rle_wf_def to_ring_def)
  have n: "unat ?n = length data" using assms(2) by (simp add: unat_of_nat)
  have free: "unat ?n \<le> unat (ring_free ?R)"
    using ring_free_unat [OF wf(2)] assms(2) n wf(3) by (simp add: to_ring_size)
  have head: "unat (r_head ?R) mod 2048 = unat (rle_head r) mod 2048"
  proof -
    have "unat (rle_tail r) + unat (rle_ringCount r) < 4294967296"
      using unat_u16_lt [of "rle_tail r"] count_u16 [of r] by simp
    then have "unat (r_head ?R) = unat (rle_tail r) + unat (rle_ringCount r)"
      by (simp add: to_ring_def unat_word_ariths)
    also have "\<dots> mod 2048 = (unat (rle_tail r) + unat (rle_head r - rle_tail r)) mod 2048"
      by (simp add: rle_ringCount_def unat_and_RING_MASK mod_add_right_eq)
    also have "\<dots> = unat (rle_tail r + of_nat (unat (rle_head r - rle_tail r))) mod 2048"
      unfolding unat_add_of_nat by (simp add: mod_mod_cancel)
    also have "\<dots> = unat (rle_head r) mod 2048" by simp
    finally show ?thesis .
  qed
  have cap: "ring_cap ?R = 2048" using wf(3) by (simp add: ring_cap_def)
  have copy: "ring_copyIn data ?n ?R = ?R\<lparr>r_buf := rle_ring r', r_head := r_head ?R + ?n\<rparr>"
    using mask_store_copy_in [OF head] cap n by (simp add: ring_copyIn_def r'_def) (simp add: to_ring_def)
  have count: "rle_ringCount r' = rle_ringCount r + of_nat (length data)"
  proof -
    have "unat (rle_ringCount r') = (unat (rle_head r - rle_tail r) + length data) mod 2048"
      using slot_u16 [of "rle_head r - rle_tail r" "length data"]
      by (simp add: rle_ringCount_def r'_def add_diff_eq [symmetric] diff_add_eq)
    also have "\<dots> = (unat (rle_ringCount r) + length data) mod 2048"
      by (simp add: rle_ringCount_def unat_and_RING_MASK mod_add_left_eq)
    finally have "unat (rle_ringCount r') = unat (rle_ringCount r) + length data"
      using assms(2) by simp
    moreover have "unat (rle_ringCount r + of_nat (length data)) = unat (rle_ringCount r) + length data"
      using unat_add_of_nat [of "rle_ringCount r" "length data"] assms(2) by simp
    ultimately show ?thesis by (simp add: word_unat_eq_iff)
  qed
  show "unat (rle_ringCount r') = unat (rle_ringCount r) + length data"
    using unat_add_of_nat [of "rle_ringCount r" "length data"] assms(2) count by simp
  have u: "(ucast (rle_ringCount r') :: u32) = ucast (rle_ringCount r) + ?n"
  proof -
    have "unat (ucast (rle_ringCount r) + ?n :: u32) = unat (rle_ringCount r) + length data"
      using unat_add_of_nat [of "ucast (rle_ringCount r) :: u32" "length data"] assms(2) by simp
    then show ?thesis
      using \<open>unat (rle_ringCount r') = unat (rle_ringCount r) + length data\<close>
      by (simp add: word_unat_eq_iff)
  qed
  have tail: "rle_tail r' = rle_tail r" by (simp add: r'_def)
  have "to_ring r' = ring_copyIn data ?n ?R"
    unfolding copy by (simp add: to_ring_def u tail add.assoc)
  moreover have "length (mask_store h xs buf) = length buf" for h xs buf
    by (induction xs arbitrary: h buf) simp_all
  then show wf': "rle_wf r'" using assms(1) by (simp add: rle_wf_def r'_def)
  ultimately show "rle_list r' = rle_list r @ data"
    using ring_copyIn_list(1) [OF disjI1 [OF wf(1)] free, of data] n
      to_ring_list [OF assms(1)] to_ring_list [OF wf'] by simp
qed

subsection \<open>The FIFO of the PIOC\<close>

text \<open>
  \<open>w\<close> is every byte the PIOC has produced. It publishes the count modulo 256 and keeps byte \<open>p\<close> in
  physical slot \<open>p mod 30\<close> until it is overwritten. \<open>blob_push\<close> is the PIOC's store of one byte.
\<close>

definition pioc_fifo :: "u8 list \<Rightarrow> rle \<Rightarrow> bool" where
  "pioc_fifo w r \<longleftrightarrow> length (DR r) = 64 \<and> DR r ! RING_HEAD = of_nat (length w)
     \<and> (\<forall>p < length w. length w \<le> p + 30 \<longrightarrow> DR r ! (RING_BASE + p mod 30) = w ! p)"

definition blob_push :: "u8 list \<Rightarrow> u8 \<Rightarrow> rle \<Rightarrow> rle" where
  "blob_push w b r = r\<lparr>DR := (DR r)[RING_BASE + length w mod 30 := b, RING_HEAD := of_nat (length w + 1)]\<rparr>"

lemma blob_push_fifo:
  assumes "pioc_fifo w r"
  shows "pioc_fifo (w @ [b]) (blob_push w b r)"
proof -
  have len: "length (DR r) = 64" using assms by (simp add: pioc_fifo_def)
  have slot: "n mod 30 < 30" for n :: nat by simp
  have head: "RING_BASE + n mod 30 \<noteq> RING_HEAD" for n by (simp add: RING_BASE_def RING_HEAD_def)
  have "(DR r)[RING_BASE + length w mod 30 := b, RING_HEAD := of_nat (length w + 1)] ! (RING_BASE + p mod 30)
      = (w @ [b]) ! p" if p: "p < length w + 1" "length w + 1 \<le> p + 30" for p
  proof (cases "p = length w")
    case True
    then show ?thesis
      using len slot [of "length w"] by (simp add: RING_BASE_def RING_HEAD_def nth_list_update)
  next
    case False
    then have lt: "p < length w" using p(1) by simp
    have "p mod 30 \<noteq> length w mod 30"
    proof
      assume eq: "p mod 30 = length w mod 30"
      have "length w = p + (length w - p)" using lt by simp
      then have "(length w - p) mod 30 = 0" using eq by (metis diff_diff_cancel mod_eq_dvd_iff_nat dvd_imp_mod_0 less_imp_le lt)
      moreover have "0 < length w - p" "length w - p < 30" using lt p(2) by simp_all
      ultimately show False by simp
    qed
    moreover have "DR r ! (RING_BASE + p mod 30) = w ! p" using assms lt p(2) by (simp add: pioc_fifo_def)
    ultimately show ?thesis
      using lt len by (simp add: RING_BASE_def RING_HEAD_def nth_append nth_list_update)
  qed
  then show ?thesis
    using len by (simp add: pioc_fifo_def blob_push_def RING_HEAD_def)
qed

text \<open>The two copy loops read consecutive bytes of the history, across the end of the register file.\<close>

lemma fifo_read:
  assumes "pioc_fifo w r" "n \<le> 30" "C + n \<le> length w" "length w \<le> C + 30"
  defines "s \<equiv> C mod 30" and "f \<equiv> min (30 - C mod 30) n"
  shows "take f (drop (RING_BASE + s) (DR r)) @ take (n - f) (drop RING_BASE (DR r)) = take n (drop C w)"
proof (rule nth_equalityI)
  have len: "length (DR r) = 64" and s: "s < 30" using assms(1) by (simp_all add: pioc_fifo_def s_def)
  have f: "f \<le> n" "f \<le> 30 - s" "n - f \<le> 30" using assms(2) by (simp_all add: f_def s_def)
  have parts: "length (take f (drop (RING_BASE + s) (DR r))) = f"
    "length (take (n - f) (drop RING_BASE (DR r))) = n - f"
    using f s len by (simp_all add: RING_BASE_def)
  then show "length (take f (drop (RING_BASE + s) (DR r)) @ take (n - f) (drop RING_BASE (DR r)))
      = length (take n (drop C w))"
    using f(1) assms(3) by simp
  fix i
  assume "i < length (take f (drop (RING_BASE + s) (DR r)) @ take (n - f) (drop RING_BASE (DR r)))"
  then have i: "i < n" using parts f(1) by simp
  have val: "DR r ! (RING_BASE + (C + i) mod 30) = w ! (C + i)"
    using assms(1,3,4) i by (simp add: pioc_fifo_def)
  have right: "take n (drop C w) ! i = w ! (C + i)" using i assms(3) by simp
  have "(C + i) mod 30 = (s + i) mod 30" by (simp add: s_def mod_add_left_eq)
  also have "\<dots> = (if i < 30 - s then s + i else i - (30 - s))"
  proof (cases "i < 30 - s")
    case False
    then have "s + i = (i - (30 - s)) + 30" "i - (30 - s) < 30" using s i assms(2) by linarith+
    then show ?thesis using False by (metis mod_add_self2 mod_less)
  qed simp
  finally have pos: "(C + i) mod 30 = (if i < 30 - s then s + i else i - (30 - s))" .
  show "(take f (drop (RING_BASE + s) (DR r)) @ take (n - f) (drop RING_BASE (DR r))) ! i = take n (drop C w) ! i"
  proof (cases "i < f")
    case True
    then have "i < 30 - s" by (simp add: f_def s_def)
    then show ?thesis using True len s val pos right by (simp add: nth_append RING_BASE_def add.assoc)
  next
    case False
    then have "f = 30 - s" "\<not> i < 30 - s" using i by (simp_all add: f_def s_def min_def split: if_splits)
    then show ?thesis using False i len s val pos right by (simp add: nth_append RING_BASE_def add.assoc)
  qed
qed

lemma reduce_slots_mod: "unat (reduce_slots a) = unat a mod 30"
proof (induction a rule: reduce_slots.induct)
  case (1 a)
  show ?case
  proof (cases "a \<ge> RING_SLOTS")
    case True
    then have "unat (a - RING_SLOTS) = unat a - 30" "30 \<le> unat a"
      by (simp_all add: RING_SLOTS_def unat_sub word_le_nat_alt)
    then show ?thesis using 1 True by (simp add: reduce_slots.simps [of a] le_mod_geq)
  next
    case False
    then show ?thesis by (simp add: reduce_slots.simps [of a] RING_SLOTS_def word_le_nat_alt)
  qed
qed

text \<open>The two cursors of the code agree with one position in the history.\<close>

definition cursor_at :: "nat \<Rightarrow> rle \<Rightarrow> bool" where
  "cursor_at C r \<longleftrightarrow> rle_sniffTail r = of_nat C \<and> unat (rle_sniffSlot r) = C mod 30"

lemma slot_add:
  fixes slot d :: u8
  assumes "unat slot < 30" "unat d \<le> 30"
  shows "unat (if slot + d \<ge> RING_SLOTS then slot + d - RING_SLOTS else slot + d) = (unat slot + unat d) mod 30"
proof -
  have sum: "unat (slot + d) = unat slot + unat d" using assms by (simp add: unat_word_ariths)
  show ?thesis
  proof (cases "30 \<le> unat slot + unat d")
    case True
    then have "unat (slot + d - RING_SLOTS) = unat slot + unat d - 30"
      using sum by (simp add: RING_SLOTS_def unat_sub word_le_nat_alt)
    moreover have "unat slot + unat d - 30 < 30" using assms by simp
    ultimately show ?thesis using True sum by (simp add: RING_SLOTS_def word_le_nat_alt le_mod_geq)
  next
    case False
    then show ?thesis using sum by (simp add: RING_SLOTS_def word_le_nat_alt)
  qed
qed

lemma cursor_gap:
  assumes "pioc_fifo w r" "cursor_at C r" "C \<le> length w" "length w - C < 256"
  shows "unat (DR r ! RING_HEAD - rle_sniffTail r) = length w - C"
proof -
  have "DR r ! RING_HEAD - rle_sniffTail r = of_nat (length w - C)"
    using assms by (simp add: pioc_fifo_def cursor_at_def of_nat_diff)
  then show ?thesis using assms(4) by (simp add: unat_of_nat)
qed

lemma of_nat_unat_ucast: "(of_nat (unat x) :: 'b::len word) = ucast (x :: 'a::len word)"
  by transfer simp

text \<open>
  What \<open>drain_copy\<close> does when \<open>slot\<close> is the physical slot of history position \<open>C\<close> and \<open>gap\<close> reaches the
  end of the history.
\<close>

lemma drain_copy_spec:
  assumes "rle_wf r" "pioc_fifo w r" "unat slot = C mod 30" "unat gap \<le> 30" "C + unat gap = length w"
    and "rle_sniffTail r = of_nat C" "rawGap \<le> RING_SLOTS \<longrightarrow> rawGap = gap" "\<not> rawGap \<le> RING_SLOTS \<longrightarrow> unat gap = 30"
  defines "n \<equiv> min (unat gap) (2047 - unat (rle_ringCount r))" and "r' \<equiv> drain_copy rawGap gap slot r"
  shows "rle_list r' = rle_list r @ take n (drop C w)" and "rle_wf r'" and "cursor_at (length w) r'"
    and "ramDrop r' = ramDrop r + of_nat (unat gap - n)"
    and "pioc_fifo w r'" and "rle_ovfPioc r' = rle_ovfPioc r" and "lossSeen r' = lossSeen r"
    and "rle_tail r' = rle_tail r"
proof -
  define space where "space = RING_MASK - ((rle_head r - rle_tail r) AND RING_MASK)"
  define toCopy where "toCopy = (if ucast gap > space then ucast space else gap)"
  define f where "f = (if RING_SLOTS - slot > toCopy then toCopy else RING_SLOTS - slot)"
  define data where "data = take (unat f) (drop (RING_BASE + unat slot) (DR r))
      @ take (unat toCopy - unat f) (drop RING_BASE (DR r))"
  define sl where "sl = (if rawGap \<le> RING_SLOTS
      then (if slot + rawGap \<ge> RING_SLOTS then slot + rawGap - RING_SLOTS else slot + rawGap) else slot)"
  define hi where "hi = rle_head r + ucast toCopy"
  have sp: "unat space = 2047 - unat (rle_ringCount r)"
    using space_u16 [of "rle_head r" "rle_tail r"] by (simp add: space_def rle_ringCount_def)
  have ug: "unat (ucast gap :: u16) = unat gap"
    by (simp add: unsigned_ucast_eq take_bit_nat_eq_self order_less_trans [OF unat_u8_lt])
  have n: "unat toCopy = n"
  proof (cases "ucast gap > space")
    case True
    then have "unat space < 256" using ug unat_u8_lt [of gap] by (simp add: word_less_nat_alt)
    then have "unat (ucast space :: u8) = unat space" by (simp add: unsigned_ucast_eq take_bit_nat_eq_self)
    then show ?thesis using True sp ug by (simp add: toCopy_def n_def word_less_nat_alt)
  next
    case False
    then show ?thesis using sp ug by (simp add: toCopy_def n_def word_less_nat_alt)
  qed
  have "slot \<le> RING_SLOTS" using assms(3) by (simp add: word_le_nat_alt RING_SLOTS_def)
  then have "unat (RING_SLOTS - slot) = 30 - C mod 30"
    using assms(3) by (simp add: unat_sub RING_SLOTS_def)
  then have f: "unat f = min (30 - C mod 30) n" using n by (auto simp: f_def word_less_nat_alt min_def)
  have n_le: "n \<le> 30" "C + n \<le> length w" "length w \<le> C + 30" using assms(4,5) by (simp_all add: n_def)
  have data: "data = take n (drop C w)"
    using fifo_read [OF assms(2) n_le] f n assms(3) by (simp add: data_def)
  then have len: "length data = n" using n_le(2) by simp
  have room: "length data + unat (rle_ringCount r) < 2048"
    using count_u16 [of r] len by (simp add: n_def)
  have hd: "hi = rle_head r + of_nat (length data)"
    using n len by (simp add: hi_def flip: of_nat_unat_ucast)
  let ?s = "r\<lparr>rle_ring := mask_store (rle_head r) data (rle_ring r), rle_head := rle_head r + of_nat (length data)\<rparr>"
  note st = rle_store [OF assms(1) room]
  let ?d = "if toCopy < gap then ramDrop r + ucast (gap - toCopy) else ramDrop r"
  let ?fill = "(hi - rle_tail r) AND RING_MASK"
  have shape: "r' = ?s\<lparr>rle_sniffSlot := sl, rle_sniffTail := rle_sniffTail r + gap, ramDrop := ?d,
      ramHi := (if ?fill > ramHi r then ?fill else ramHi r)\<rparr>"
    unfolding r'_def drain_copy_def Let_def space_def [symmetric] toCopy_def [symmetric] f_def [symmetric]
      data_def [symmetric] sl_def [symmetric] hi_def [symmetric] hd [symmetric]
    by (simp add: hi_def)
  have frame: "rle_list r' = rle_list ?s" "rle_wf r' = rle_wf ?s"
    unfolding shape by (simp_all add: rle_list_def rle_wf_def rle_ringCount_def)
  show "rle_list r' = rle_list r @ take n (drop C w)" "rle_wf r'" using st(1,2) data frame by simp_all
  show "ramDrop r' = ramDrop r + of_nat (unat gap - n)"
  proof (cases "toCopy < gap")
    case True
    then have "unat (gap - toCopy) = unat gap - n" using n by (simp add: unat_sub order_less_imp_le)
    then have "(ucast (gap - toCopy) :: u32) = of_nat (unat gap - n)" by (metis of_nat_unat_ucast)
    then show ?thesis using True unfolding shape by simp
  next
    case False
    then have "unat gap - n = 0" using n by (simp add: word_less_nat_alt)
    then show ?thesis using False unfolding shape by simp
  qed
  have sl: "unat sl = length w mod 30"
  proof (cases "rawGap \<le> RING_SLOTS")
    case True
    then have "rawGap = gap" using assms(7) by blast
    then have "sl = (if slot + gap \<ge> RING_SLOTS then slot + gap - RING_SLOTS else slot + gap)"
      using True by (simp add: sl_def)
    then have "unat sl = (C mod 30 + unat gap) mod 30"
      using slot_add [of slot gap] assms(3,4) by simp
    then show ?thesis using assms(5) by (simp add: mod_add_left_eq)
  next
    case False
    then have "length w = C + 30" using assms(5,8) by simp
    then show ?thesis using False assms(3) by (simp add: sl_def)
  qed
  have "of_nat (length w) = (of_nat C :: u8) + gap"
    unfolding assms(5) [symmetric] by simp
  then show "cursor_at (length w) r'" using sl assms(6) unfolding shape by (simp add: cursor_at_def)
  show "pioc_fifo w r'" "rle_ovfPioc r' = rle_ovfPioc r" "lossSeen r' = lossSeen r" "rle_tail r' = rle_tail r"
    using assms(2) unfolding shape by (simp_all add: pioc_fifo_def)
qed

text \<open>
  One interrupt: of the \<open>g\<close> bytes since the last one, the newest 30 are offered to the RAM ring, which
  takes as many as it has room for.
\<close>

lemma drainPioc_spec:
  assumes "rle_wf r" "pioc_fifo w r" "cursor_at C r" "C \<le> length w" "length w - C < 256"
  defines "g \<equiv> length w - C" and "r' \<equiv> drainPioc r"
  defines "n \<equiv> min (min g 30) (2047 - unat (rle_ringCount r))"
  shows "rle_list r' = rle_list r @ take n (drop (length w - min g 30) w)"
    and "rle_wf r'" and "pioc_fifo w r'" and "cursor_at (length w) r'"
    and "ramDrop r' = ramDrop r + of_nat (min g 30 - n)"
    and "rle_ovfPioc r' = rle_ovfPioc r + (if g > 30 then 1 else 0)"
    and "lossSeen r' = lossSeen r" and "rle_tail r' = rle_tail r"
proof -
  define h where "h = DR r ! RING_HEAD"
  define raw where "raw = h - rle_sniffTail r"
  have raw: "unat raw = g" using cursor_gap [OF assms(2-5)] by (simp add: raw_def h_def g_def)
  have h: "h = of_nat (length w)" using assms(2) by (simp add: pioc_fifo_def h_def)
  have slot: "unat (rle_sniffSlot r) = C mod 30" using assms(3) by (simp add: cursor_at_def)
  let ?m = "r\<lparr>maxGap := (if raw > maxGap r then raw else maxGap r)\<rparr>"
  have m: "(if raw > maxGap r then r\<lparr>maxGap := raw\<rparr> else r) = ?m" by simp
  have mr: "rle_list (r\<lparr>maxGap := x, rle_ovfPioc := y, rle_sniffTail := z\<rparr>) = rle_list r"
    "rle_list (r\<lparr>maxGap := x\<rparr>) = rle_list r"
    "rle_ringCount (r\<lparr>maxGap := x, rle_ovfPioc := y, rle_sniffTail := z\<rparr>) = rle_ringCount r"
    "rle_ringCount (r\<lparr>maxGap := x\<rparr>) = rle_ringCount r"
    "rle_wf (r\<lparr>maxGap := x, rle_ovfPioc := y, rle_sniffTail := z\<rparr>)" "rle_wf (r\<lparr>maxGap := x\<rparr>)"
    "pioc_fifo w (r\<lparr>maxGap := x, rle_ovfPioc := y, rle_sniffTail := z\<rparr>)" "pioc_fifo w (r\<lparr>maxGap := x\<rparr>)"
    for x y z
    using assms(1,2) by (simp_all add: rle_list_def rle_ringCount_def rle_wf_def pioc_fifo_def)
  have "rle_list r' = rle_list r @ take n (drop (length w - min g 30) w) \<and> rle_wf r' \<and> pioc_fifo w r'
    \<and> cursor_at (length w) r' \<and> ramDrop r' = ramDrop r + of_nat (min g 30 - n)
    \<and> rle_ovfPioc r' = rle_ovfPioc r + (if g > 30 then 1 else 0) \<and> lossSeen r' = lossSeen r
    \<and> rle_tail r' = rle_tail r"
  proof (cases "raw > RING_SLOTS")
    case True
    then have g: "30 < g" using raw by (simp add: RING_SLOTS_def word_less_nat_alt)
    let ?slot = "rle_sniffSlot r + reduce_slots raw"
    let ?sl = "if ?slot \<ge> RING_SLOTS then ?slot - RING_SLOTS else ?slot"
    let ?s = "?m\<lparr>rle_ovfPioc := rle_ovfPioc r + 1, rle_sniffTail := h - RING_SLOTS\<rparr>"
    have red: "unat (reduce_slots raw) = g mod 30" using reduce_slots_mod raw by simp
    have le30: "unat (reduce_slots raw) \<le> 30" "unat (rle_sniffSlot r) < 30"
      using red slot mod_less_divisor [of 30 g] by simp_all
    have wC: "length w = C + g" using assms(4) by (simp add: g_def)
    have "unat ?sl = (C mod 30 + g mod 30) mod 30"
      using slot_add [OF le30(2,1)] red slot by simp
    also have "\<dots> = (length w - 30 + 30) mod 30" using wC g by (simp add: mod_add_eq)
    finally have sl: "unat ?sl = (length w - 30) mod 30" by simp
    have tail: "rle_sniffTail ?s = of_nat (length w - 30)"
      using h g wC by (simp add: RING_SLOTS_def of_nat_diff)
    have res: "r' = drain_copy raw RING_SLOTS ?sl ?s"
      using True m unfolding r'_def drainPioc_def drain_resync_def Let_def h_def [symmetric] raw_def [symmetric]
      by simp
    have u30: "unat RING_SLOTS = 30" by (simp add: RING_SLOTS_def)
    have len: "length w - 30 + unat RING_SLOTS = length w" using wC g u30 by simp
    have small: "unat RING_SLOTS \<le> 30" "raw \<le> RING_SLOTS \<longrightarrow> raw = RING_SLOTS"
      "\<not> raw \<le> RING_SLOTS \<longrightarrow> unat RING_SLOTS = 30"
      using True u30 by (auto simp: not_le)
    note c = drain_copy_spec [OF mr(5) mr(7) sl small(1) len tail small(2,3), folded res, unfolded u30 mr(1,3), simplified]
    show ?thesis using c g by (simp add: n_def)
  next
    case False
    then have g: "g \<le> 30" using raw by (simp add: RING_SLOTS_def word_less_nat_alt)
    have res: "r' = drain_copy raw raw (rle_sniffSlot r) ?m"
      using False m unfolding r'_def drainPioc_def drain_resync_def Let_def h_def [symmetric] raw_def [symmetric]
      by simp
    have len: "C + unat raw = length w" using raw assms(4) by (simp add: g_def)
    have tail: "rle_sniffTail ?m = of_nat C" using assms(3) by (simp add: cursor_at_def)
    have pre: "unat raw \<le> 30" "raw \<le> RING_SLOTS \<longrightarrow> raw = raw" "\<not> raw \<le> RING_SLOTS \<longrightarrow> unat raw = 30"
      using raw g False by (simp_all add: not_less)
    note c = drain_copy_spec [OF mr(6) mr(8) slot pre(1) len tail pre(2,3), folded res, unfolded mr(2,4) raw]
    have "length w - g = C" using assms(4) by (simp add: g_def)
    then show ?thesis using c g by (simp add: n_def)
  qed
  then show "rle_list r' = rle_list r @ take n (drop (length w - min g 30) w)" "rle_wf r'" "pioc_fifo w r'"
    "cursor_at (length w) r'" "ramDrop r' = ramDrop r + of_nat (min g 30 - n)"
    "rle_ovfPioc r' = rle_ovfPioc r + (if g > 30 then 1 else 0)" "lossSeen r' = lossSeen r"
    "rle_tail r' = rle_tail r"
    by blast+
qed

text \<open>The consumer side of the RAM ring.\<close>

lemma rle_advance:
  assumes "n \<le> unat (rle_ringCount r)"
  defines "r' \<equiv> r\<lparr>rle_tail := rle_tail r + of_nat n\<rparr>"
  shows "rle_list r' = drop n (rle_list r)" and "unat (rle_ringCount r') = unat (rle_ringCount r) - n"
    and "take n (rle_list r) = map (\<lambda>i. rle_ring r ! unat ((rle_tail r + of_nat i) AND RING_MASK)) [0..<n]"
proof -
  let ?x = "rle_head r - rle_tail r" and ?c = "unat (rle_ringCount r)"
  have c: "?c = unat ?x mod 2048" by (simp add: rle_ringCount_def unat_and_RING_MASK)
  then have le: "n \<le> unat ?x" using assms(1) mod_less_eq_dividend [of "unat ?x" 2048] by linarith
  have "unat (of_nat n :: u16) = n"
    using le unat_u16_lt [of ?x] by (simp add: unat_of_nat)
  then have "unat (?x - of_nat n) = unat ?x - n" using le by (simp add: unat_sub word_le_nat_alt)
  moreover have "(unat ?x - n) mod 2048 = unat ?x mod 2048 - n"
  proof -
    have "unat ?x - n = (unat ?x mod 2048 - n) + 2048 * (unat ?x div 2048)"
      using assms(1) c by simp
    then have "(unat ?x - n) mod 2048 = (unat ?x mod 2048 - n) mod 2048" by (metis mod_mult_self2)
    then show ?thesis by (simp add: less_imp_diff_less)
  qed
  ultimately show count: "unat (rle_ringCount r') = ?c - n"
    using c by (simp add: r'_def rle_ringCount_def unat_and_RING_MASK diff_diff_add [symmetric])
  show "rle_list r' = drop n (rle_list r)"
  proof (rule nth_equalityI)
    show "length (rle_list r') = length (drop n (rle_list r))" using count by (simp add: rle_list_def)
    fix i assume "i < length (rle_list r')"
    then have i: "i < ?c - n" using count by (simp add: rle_list_def)
    have "rle_list r' ! i = rle_ring r ! unat ((rle_tail r + of_nat n + of_nat i) AND RING_MASK)"
      using i count by (simp add: rle_list_def) (simp add: r'_def)
    moreover have "drop n (rle_list r) ! i = rle_ring r ! unat ((rle_tail r + of_nat (n + i)) AND RING_MASK)"
    proof -
      have "n + i < ?c" using i assms(1) by simp
      then have "[0..<?c] ! (n + i) = n + i" by simp
      then show ?thesis using i assms(1) unfolding rle_list_def by simp
    qed
    ultimately show "rle_list r' ! i = drop n (rle_list r) ! i" by (simp add: add.assoc)
  qed
  show "take n (rle_list r) = map (\<lambda>i. rle_ring r ! unat ((rle_tail r + of_nat i) AND RING_MASK)) [0..<n]"
    using assms(1) by (simp add: rle_list_def take_map)
qed

lemma rle_ringPop_list:
  "fst (rle_ringPop k r) = take (unat k) (rle_list r)"
  "rle_list (snd (rle_ringPop k r)) = drop (unat k) (rle_list r)"
proof -
  define n where "n = (if rle_ringCount r > k then k else rle_ringCount r)"
  have n: "unat n = min (unat k) (unat (rle_ringCount r))" by (auto simp: n_def word_less_nat_alt min_def)
  have pop: "rle_ringPop k r = (take (unat n) (rle_list r), r\<lparr>rle_tail := rle_tail r + of_nat (unat n)\<rparr>)"
  proof -
    have "take (unat n) (rle_list r) = map (\<lambda>i. rle_ring r ! unat ((rle_tail r + of_nat i) AND RING_MASK)) [0..<unat n]"
      using n by (intro rle_advance(3)) simp
    then show ?thesis by (simp add: rle_ringPop_def Let_def n_def [symmetric])
  qed
  have "length (rle_list r) = unat (rle_ringCount r)" by (simp add: rle_list_def)
  then show "fst (rle_ringPop k r) = take (unat k) (rle_list r)"
    "rle_list (snd (rle_ringPop k r)) = drop (unat k) (rle_list r)"
    using n rle_advance(1) [of "unat n" r] unfolding pop by (auto simp: min_def)
qed

text \<open>
  The ring's own \<open>ringPush\<close>, all or nothing, and \<open>ringPop\<close> keep the contract of a byte queue. The length is a
  \<open>uint16_t\<close>; a longer block cannot be offered.
\<close>

definition rle_enq :: "u8 list \<Rightarrow> rle \<Rightarrow> nat \<times> rle" where
  "rle_enq p r =
    (if length p < 2 ^ 16
     then (if unat (rle_ringSpace r) < length p then 0 else length p, rle_ringPush p r)
     else (0, r))"

definition rle_deq :: "nat \<Rightarrow> rle \<Rightarrow> u8 list \<times> rle" where
  "rle_deq n r = rle_ringPop (of_nat n) r"

lemma rle_enq_list:
  assumes "rle_wf r"
  shows "rle_wf (snd (rle_enq p r))" "rle_list (snd (rle_enq p r)) = rle_list r @ take (fst (rle_enq p r)) p"
proof -
  have space: "unat (rle_ringSpace r) = 2047 - unat (rle_ringCount r)"
    using space_u16 [of "rle_head r" "rle_tail r"] by (simp add: rle_ringSpace_def rle_ringCount_def)
  have full: "rle_wf (r\<lparr>rle_ovfRam := x\<rparr>)" "rle_list (r\<lparr>rle_ovfRam := x\<rparr>) = rle_list r" for x
    using assms by (simp_all add: rle_wf_def rle_list_def rle_ringCount_def)
  consider (room) "length p < 2 ^ 16" "\<not> unat (rle_ringSpace r) < length p"
    | (full) "length p < 2 ^ 16" "unat (rle_ringSpace r) < length p" | (long) "\<not> length p < 2 ^ 16" by blast
  then have "rle_wf (snd (rle_enq p r)) \<and> rle_list (snd (rle_enq p r)) = rle_list r @ take (fst (rle_enq p r)) p"
  proof cases
    case room
    then have "length p + unat (rle_ringCount r) < 2048" using space count_u16 [of r] by linarith
    then show ?thesis
      using room rle_store [OF assms, of p]
      by (simp add: rle_enq_def rle_ringPush_def Let_def word_less_nat_alt unat_of_nat)
  qed (use assms full in \<open>simp_all add: rle_enq_def rle_ringPush_def word_less_nat_alt unat_of_nat\<close>)
  then show "rle_wf (snd (rle_enq p r))" "rle_list (snd (rle_enq p r)) = rle_list r @ take (fst (rle_enq p r)) p"
    by simp_all
qed

interpretation bq: fifo rle_list rle_wf rle_enq rle_deq
proof unfold_locales
  fix r n
  assume "rle_wf r"
  then show "rle_wf (snd (rle_deq n r))" by (simp add: rle_deq_def rle_ringPop_def Let_def rle_wf_def)
  show "fst (rle_deq n r) @ rle_list (snd (rle_deq n r)) = rle_list r"
    by (simp add: rle_deq_def rle_ringPop_list)
qed (rule rle_enq_list, assumption)+

text \<open>So under every sequence of pushes and pops it is a FIFO, across the wrap of its 16-bit cursors.\<close>

lemma rle_ring_fifo:
  assumes "rle_wf r"
  shows "case fifo_run rle_enq rle_deq ops r of (acc, out, r') \<Rightarrow> out @ rle_list r' = rle_list r @ acc \<and> rle_wf r'"
  by (rule bq.run_conserves [OF assms])

subsection \<open>Runs of the capture path\<close>

text \<open>
  A run is a list of periods: the PIOC produces some bytes, the timer fires, and the main loop takes up
  to \<open>k\<close> bytes out of the RAM ring.
\<close>

fun blob_run :: "u8 list \<Rightarrow> u8 list \<Rightarrow> rle \<Rightarrow> rle" where
  "blob_run w [] r = r"
| "blob_run w (b # bs) r = blob_run (w @ [b]) bs (blob_push w b r)"

fun capture :: "(u8 list \<times> u16) list \<Rightarrow> u8 list \<Rightarrow> rle \<Rightarrow> u8 list \<times> rle" where
  "capture [] w r = ([], r)"
| "capture ((bs, k) # ticks) w r =
    (let r = drainPioc (blob_run w bs r); (xs, r) = rle_ringPop k r;
         (out, r) = capture ticks (w @ bs) r
     in (xs @ out, r))"

lemma blob_run_spec:
  assumes "pioc_fifo w r" "rle_wf r" "cursor_at C r"
  shows "pioc_fifo (w @ bs) (blob_run w bs r) \<and> rle_wf (blob_run w bs r) \<and> cursor_at C (blob_run w bs r)
    \<and> rle_list (blob_run w bs r) = rle_list r \<and> ramDrop (blob_run w bs r) = ramDrop r
    \<and> rle_ovfPioc (blob_run w bs r) = rle_ovfPioc r \<and> rle_ringCount (blob_run w bs r) = rle_ringCount r"
  using assms
proof (induction bs arbitrary: w r)
  case (Cons b bs)
  let ?r = "blob_push w b r"
  have "rle_wf ?r" "cursor_at C ?r" "rle_list ?r = rle_list r" "ramDrop ?r = ramDrop r"
    "rle_ovfPioc ?r = rle_ovfPioc r" "rle_ringCount ?r = rle_ringCount r"
    using Cons.prems by (simp_all add: blob_push_def rle_wf_def cursor_at_def rle_list_def rle_ringCount_def)
  then show ?case using Cons.IH [OF blob_push_fifo [OF Cons.prems(1), of b]] by simp
qed simp

lemma capture_spec:
  assumes "rle_wf r" "pioc_fifo w r" "cursor_at (length w) r" "list_all (\<lambda>(bs, _). length bs < 256) ticks"
    "capture ticks w r = (out, r')"
  shows "\<exists>kept. list_all2 (\<lambda>(bs, _) kp. \<exists>n. kp = take n (drop (length bs - 30) bs)) ticks kept
    \<and> out @ rle_list r' = rle_list r @ concat kept
    \<and> ramDrop r' = ramDrop r + of_nat (sum_list (map2 (\<lambda>(bs, _) kp. min (length bs) 30 - length kp) ticks kept))
    \<and> rle_ovfPioc r' = rle_ovfPioc r + of_nat (length (filter (\<lambda>(bs, _). length bs > 30) ticks))"
  using assms
proof (induction ticks arbitrary: w r out)
  case (Cons tk ticks)
  obtain bs k where tk: "tk = (bs, k)" by fastforce
  have short: "length bs < 256" and rest: "list_all (\<lambda>(bs, _). length bs < 256) ticks"
    using Cons.prems(4) tk by simp_all
  let ?p = "blob_run w bs r" and ?w = "w @ bs"
  let ?d = "drainPioc ?p"
  note p = blob_run_spec [OF Cons.prems(2,1,3), of bs]
  have pre: "length w \<le> length ?w" "length ?w - length w < 256" using short by simp_all
  note d = drainPioc_spec [OF p [THEN conjunct2, THEN conjunct1] p [THEN conjunct1]
      p [THEN conjunct2, THEN conjunct2, THEN conjunct1] pre]
  define n where "n = min (min (length bs) 30) (2047 - unat (rle_ringCount ?p))"
  define kp where "kp = take n (drop (length bs - 30) bs)"
  have min30: "length bs - min (length bs) 30 = length bs - 30" by simp
  have data: "take n (drop (length ?w - min (length bs) 30) ?w) = kp"
  proof -
    have "length ?w - min (length bs) 30 = length w + (length bs - 30)" by simp
    then show ?thesis by (simp add: kp_def)
  qed
  have klen: "length kp = n" by (simp add: kp_def n_def)
  let ?e = "snd (rle_ringPop k ?d)" and ?xs = "fst (rle_ringPop k ?d)"
  have e_ids: "rle_wf ?e = rle_wf ?d" "pioc_fifo ?w ?e = pioc_fifo ?w ?d" "cursor_at (length ?w) ?e = cursor_at (length ?w) ?d"
    "ramDrop ?e = ramDrop ?d" "rle_ovfPioc ?e = rle_ovfPioc ?d"
    by (simp_all add: rle_ringPop_def Let_def rle_wf_def pioc_fifo_def cursor_at_def)
  obtain out2 where c: "capture ticks ?w ?e = (out2, r')" "out = ?xs @ out2"
    using Cons.prems(5) tk by (auto simp: Let_def split: prod.splits)
  have "rle_wf ?e" "pioc_fifo ?w ?e" "cursor_at (length ?w) ?e" using d(2-4) e_ids by simp_all
  from Cons.IH [OF this rest c(1)] obtain kept where kept:
    "list_all2 (\<lambda>(bs, _) kp. \<exists>n. kp = take n (drop (length bs - 30) bs)) ticks kept"
    "out2 @ rle_list r' = rle_list ?e @ concat kept"
    "ramDrop r' = ramDrop ?e + of_nat (sum_list (map2 (\<lambda>(bs, _) kp. min (length bs) 30 - length kp) ticks kept))"
    "rle_ovfPioc r' = rle_ovfPioc ?e + of_nat (length (filter (\<lambda>(bs, _). length bs > 30) ticks))"
    by blast
  have gap: "length ?w - length w = length bs" by simp
  have "rle_list ?d = rle_list r @ kp" using d(1) p data unfolding gap n_def [symmetric] by simp
  then have list: "?xs @ rle_list ?e = rle_list r @ kp"
    unfolding rle_ringPop_list by (metis append_take_drop_id)
  then have "out @ rle_list r' = rle_list r @ concat (kp # kept)" using kept(2) c(2) by simp
  moreover have "list_all2 (\<lambda>(bs, _) kp. \<exists>n. kp = take n (drop (length bs - 30) bs)) (tk # ticks) (kp # kept)"
    using kept(1) tk by (auto simp: kp_def)
  moreover have "ramDrop ?e = ramDrop r + of_nat (min (length bs) 30 - length kp)"
    "rle_ovfPioc ?e = rle_ovfPioc r + (if length bs > 30 then 1 else 0)"
    using d(5,6) p e_ids klen unfolding gap n_def [symmetric] by simp_all
  ultimately show ?case
    using kept(3,4) tk by (intro exI [of _ "kp # kept"]) (simp add: add.assoc)
qed simp

lemma sum_list_diff_zero:
  assumes "list_all2 (\<lambda>(bs, _) kp. \<exists>n. kp = take n (drop (length bs - 30) bs)) ticks kept"
    "sum_list (map2 (\<lambda>(bs, _) kp. min (length bs) 30 - length kp) ticks kept) = 0"
    "filter (\<lambda>(bs, _). length bs > 30) ticks = []"
  shows "concat kept = concat (map fst ticks)"
  using assms
proof (induction ticks kept rule: list_all2_induct)
  case (Cons tk ticks kp kept)
  obtain bs k where tk: "tk = (bs, k)" by fastforce
  then have "length bs \<le> 30" "length bs \<le> length kp" using Cons.prems by (auto split: if_splits)
  then have "kp = bs" using Cons.hyps(1) tk by (auto simp: min_def split: if_splits)
  then show ?case using Cons.IH Cons.prems tk by (simp split: if_splits)
qed simp

lemma rle_static_ok:
  "rle_wf (rle_static (replicate 64 0))" "pioc_fifo [] (rle_static (replicate 64 0))"
  "cursor_at 0 (rle_static (replicate 64 0))" "rle_list (rle_static (replicate 64 0)) = []"
  by (simp_all add: rle_wf_def pioc_fifo_def cursor_at_def rle_static_def RING_SZ_def RING_HEAD_def
      rle_list_def rle_ringCount_def)

subsection \<open>Properties\<close>

text \<open>
  C20. The capture path accounts for every byte. The PIOC produces bytes, the timer drains them to the
  RAM ring, the main loop takes them out, in any rhythm with fewer than 256 bytes per timer period,
  across the wraps of the 30-slot FIFO, of its 8-bit head and of the 16-bit cursors. What comes out,
  followed by what is in the RAM ring, is the concatenation of one run per period: consecutive bytes
  from the newest 30 of that period, in order. Bytes of those 30 that are missing are exactly the
  increase of \<open>ramDrop_\<close>; periods of more than 30 bytes are exactly the increase of \<open>ovfPioc_\<close>. Without
  either, nothing is lost.
\<close>

theorem rle_capture_accounts:
  assumes "rle_wf r" and "pioc_fifo w r" and "cursor_at (length w) r"
    and "list_all (\<lambda>(bs, _). length bs < 256) ticks" and "capture ticks w r = (out, r')"
  shows "\<exists>kept. list_all2 (\<lambda>(bs, _) kp. \<exists>n. kp = take n (drop (length bs - 30) bs)) ticks kept
    \<and> out @ rle_list r' = rle_list r @ concat kept
    \<and> ramDrop r' = ramDrop r + of_nat (sum_list (map2 (\<lambda>(bs, _) kp. min (length bs) 30 - length kp) ticks kept))
    \<and> rle_ovfPioc r' = rle_ovfPioc r + of_nat (length (filter (\<lambda>(bs, _). length bs > 30) ticks))
    \<and> (sum_list (map2 (\<lambda>(bs, _) kp. min (length bs) 30 - length kp) ticks kept) = 0
        \<and> filter (\<lambda>(bs, _). length bs > 30) ticks = [] \<longrightarrow>
       out @ rle_list r' = rle_list r @ concat (map fst ticks))"
proof -
  obtain kept where k: "list_all2 (\<lambda>(bs, _) kp. \<exists>n. kp = take n (drop (length bs - 30) bs)) ticks kept"
    "out @ rle_list r' = rle_list r @ concat kept"
    "ramDrop r' = ramDrop r + of_nat (sum_list (map2 (\<lambda>(bs, _) kp. min (length bs) 30 - length kp) ticks kept))"
    "rle_ovfPioc r' = rle_ovfPioc r + of_nat (length (filter (\<lambda>(bs, _). length bs > 30) ticks))"
    using capture_spec [OF assms] by blast
  show ?thesis
    by (rule exI [of _ kept], intro conjI impI k) (use k(2) sum_list_diff_zero [OF k(1)] in auto)
qed

theorem rle_capture_accounts_witness:
  "case capture [([1, 2, 3], 2), ([4], 0)] [] (rle_static (replicate 64 0)) of (out, r') \<Rightarrow>
     \<exists>kept. out @ rle_list r' = concat kept \<and> length kept = 2 \<and> rle_ovfPioc r' = 0"
proof -
  let ?ticks = "[([1, 2, 3], 2), ([4], 0)] :: (u8 list \<times> u16) list" and ?r = "rle_static (replicate 64 0)"
  obtain out r' where c: "capture ?ticks [] ?r = (out, r')" by fastforce
  have t: "list_all (\<lambda>(bs, _). length bs < 256) ?ticks" by simp
  have cur: "cursor_at (length ([] :: u8 list)) ?r" using rle_static_ok(3) by simp
  have "rle_ovfPioc ?r = 0" by (simp add: rle_static_def)
  moreover obtain kept where
    "list_all2 (\<lambda>(bs, _) kp. \<exists>n. kp = take n (drop (length bs - 30) bs)) ?ticks kept"
    "out @ rle_list r' = rle_list ?r @ concat kept"
    "rle_ovfPioc r' = rle_ovfPioc ?r + of_nat (length (filter (\<lambda>(bs, _). length bs > 30) ?ticks))"
    using rle_capture_accounts [OF rle_static_ok(1,2) cur t c] by blast
  moreover from this(1) have "length kept = 2" by (auto dest: list_all2_lengthD)
  ultimately show ?thesis using rle_static_ok(4) unfolding c by auto
qed

text \<open>
  C23. An overrun of the PIOC FIFO is lost without a mark on the wire. When more than 30 bytes were
  produced between two interrupts, the interrupt keeps the last 30, the older ones are gone, and the
  service that follows sends no loss marker: \<open>ovfPioc_\<close> counts the event but only \<open>ramDrop_\<close> reaches the
  wire.
\<close>

theorem pioc_overrun_silent:
  assumes "rle_wf r" and "pioc_fifo w r" and "cursor_at C r" and "C \<le> length w"
    and "30 < length w - C" and "length w - C < 256" and "unat (rle_ringCount r) + 30 \<le> 2047"
    and "lossSeen r = ramDrop r"
  shows "rle_list (drainPioc r) = rle_list r @ drop (length w - 30) w
    \<and> rle_ovfPioc (drainPioc r) = rle_ovfPioc r + 1
    \<and> service_loss (drainPioc r) u = (drainPioc r, u)"
proof -
  note d = drainPioc_spec [OF assms(1-4,6)]
  have m: "min (length w - C) 30 = 30" "min 30 (2047 - unat (rle_ringCount r)) = 30"
    using assms(5,7) by simp_all
  have "rle_list (drainPioc r) = rle_list r @ drop (length w - 30) w"
    using d(1) unfolding m by simp
  moreover have "ramDrop (drainPioc r) = lossSeen (drainPioc r)"
    using d(5,7) assms(8) unfolding m by simp
  ultimately show ?thesis using d(6) assms(5) by (simp add: service_loss_def)
qed

theorem pioc_overrun_silent_witness:
  "let r = blob_run [] (replicate 40 7) (rle_static (replicate 64 0)) in
   rle_list (drainPioc r) = replicate 30 7 \<and> service_loss (drainPioc r) usb_static = (drainPioc r, usb_static)"
proof -
  let ?s = "rle_static (replicate 64 0)" and ?w = "replicate 40 7 :: u8 list"
  let ?r = "blob_run [] ?w ?s"
  note b = blob_run_spec [OF rle_static_ok(2,1,3), of ?w]
  have loss: "lossSeen (blob_run w bs r) = lossSeen r" for w bs r
    by (induction bs arbitrary: w r) (simp_all add: blob_push_def)
  have h: "rle_wf ?r" "pioc_fifo ?w ?r" "cursor_at 0 ?r" "0 \<le> length ?w" "30 < length ?w - 0"
    "length ?w - 0 < 256" "unat (rle_ringCount ?r) + 30 \<le> 2047" "lossSeen ?r = ramDrop ?r"
    using b loss by (simp_all add: rle_static_def rle_ringCount_def)
  have "rle_list ?r = []" using b rle_static_ok(4) by simp
  then show ?thesis
    unfolding Let_def using pioc_overrun_silent [OF h, of usb_static] by simp
qed

end
