(* ===== verification/RleService.thy ===== *)
theory RleService
  imports RleDrain
begin

text \<open>
  The main-loop service of the run-length datapath: what it takes out of the RAM ring reaches the
  USB stream as the squelched run-bytes, in order, with the markers between; and the squelch against
  its description in terms of whole runs.
\<close>

subsection \<open>The squelch of a byte sequence\<close>

fun squelch_list :: "u32 \<Rightarrow> u8 list \<Rightarrow> squelch \<Rightarrow> u8 list \<times> squelch" where
  "squelch_list k [] q = ([], q)"
| "squelch_list k (b # bs) q =
    (let (out, q) = squelch_byte k b q; (outs, q) = squelch_list k bs q in (out @ outs, q))"

lemma squelch_byte_len: "squelch_byte k b q = (out, q') \<Longrightarrow> length out \<le> 1"
  by (auto simp: squelch_byte_def Let_def split: if_splits)

lemma squelch_list_append:
  "squelch_list k (xs @ ys) q =
    (let (a, q) = squelch_list k xs q; (b, q) = squelch_list k ys q in (a @ b, q))"
  by (induction xs arbitrary: q) (simp_all add: Let_def case_prod_beta)

subsection \<open>The drain loop\<close>

definition window :: "rle \<Rightarrow> nat \<Rightarrow> nat \<Rightarrow> u8 list" where
  "window r i n = map (\<lambda>j. rle_ring r ! unat ((rle_tail r + of_nat j) AND RING_MASK)) [i..<i + n]"

lemma window_Suc:
  "window r i (Suc n) = rle_ring r ! unat ((rle_tail r + of_nat i) AND RING_MASK) # window r (i + 1) n"
proof -
  have "[i..<i + Suc n] = i # [i + 1..<i + 1 + n]" using upt_conv_Cons [of i "i + Suc n"] by simp
  then show ?thesis unfolding window_def by (simp only: list.map)
qed

lemma service_loop_spec:
  assumes "sdk_ok K" "irq_ok K" "draining R K s0 dst outs (unat cap - length outs) u" "length outs \<le> unat cap"
  shows "\<exists>m outs' q' u'. service_loop K k r dst cap n i (length outs) q u = Some (i + m, length outs', q', u')
    \<and> m \<le> n \<and> outs' = outs @ fst (squelch_list k (take m (window r i n)) q)
    \<and> q' = snd (squelch_list k (take m (window r i n)) q)
    \<and> draining R K s0 dst outs' (unat cap - length outs') u'"
  using assms(3,4)
proof (induction n arbitrary: i outs q u)
  case 0
  then show ?case by (intro exI [of _ 0] exI [of _ outs]) simp
next
  case (Suc n)
  let ?b = "rle_ring r ! unat ((rle_tail r + of_nat i) AND RING_MASK)"
  obtain u1 where u1: "(if i mod PUMP_EVERY = 0 then pump K u else Some u) = Some u1"
    "draining R K s0 dst outs (unat cap - length outs) u1"
  proof (cases "i mod PUMP_EVERY = 0")
    case True
    then show ?thesis using that draining_pump [OF assms(1,2) Suc.prems(1)] by auto
  next
    case False
    then show ?thesis using that [of u] Suc.prems(1) by simp
  qed
  show ?case
  proof (cases "length outs \<ge> unat cap")
    case True
    then have "service_loop K k r dst cap (Suc n) i (length outs) q u = Some (i, length outs, q, u1)"
      using u1(1) by simp
    then show ?thesis using u1(2) by (intro exI [of _ 0] exI [of _ outs]) simp
  next
    case False
    obtain out q1 where sq: "squelch_byte k ?b q = (out, q1)" by fastforce
    obtain outs2 u2 where step: "service_loop K k r dst cap (Suc n) i (length outs) q u
        = service_loop K k r dst cap n (i + 1) (length outs2) q1 u2"
      "outs2 = outs @ out" "draining R K s0 dst outs2 (unat cap - length outs2) u2" "length outs2 \<le> unat cap"
    proof (cases out)
      case Nil
      then show ?thesis using that [of outs u1] u1 False sq by simp
    next
      case (Cons c cs)
      then have out: "out = [c]" using squelch_byte_len [OF sq] by simp
      have "unat cap - length outs = Suc (unat cap - length (outs @ [c]))" using False by simp
      then obtain u2 where u2: "tx_poke (dst + length outs) c u1 = Some u2"
        "draining R K s0 dst (outs @ [c]) (unat cap - length (outs @ [c])) u2"
        using draining_poke u1(2) by metis
      have "service_loop K k r dst cap (Suc n) i (length outs) q u
          = service_loop K k r dst cap n (i + 1) (length (outs @ [c])) q1 u2"
        using u1(1) False sq out u2(1) by simp
      moreover have "outs @ [c] = outs @ out" "length (outs @ [c]) \<le> unat cap" using out False by simp_all
      ultimately show ?thesis using that u2(2) by blast
    qed
    from Suc.IH [OF step(3,4), of "i + 1" q1] obtain m outs' q' u' where
      "service_loop K k r dst cap n (i + 1) (length outs2) q1 u2 = Some (i + 1 + m, length outs', q', u')"
      "m \<le> n" "outs' = outs2 @ fst (squelch_list k (take m (window r (i + 1) n)) q1)"
      "q' = snd (squelch_list k (take m (window r (i + 1) n)) q1)"
      "draining R K s0 dst outs' (unat cap - length outs') u'"
      by blast
    moreover have "take (Suc m) (window r i (Suc n)) = ?b # take m (window r (i + 1) n)"
      by (simp add: window_Suc)
    moreover have "squelch_list k (?b # bs) q
        = (out @ fst (squelch_list k bs q1), snd (squelch_list k bs q1))" for bs
      using sq by (simp add: case_prod_beta)
    ultimately show ?thesis
      using step(1,2)
      by (intro exI [of _ "Suc m"] exI [of _ outs'] exI [of _ q'] exI [of _ u'])
        (simp del: service_loop.simps squelch_list.simps)
  qed
qed

definition squelch_of :: "rle \<Rightarrow> squelch" where
  "squelch_of r = \<lparr>sq_run = capRun r, sq_piped = capPiped r, sq_active = rle_sniffActive r, sq_saw = False\<rparr>"

definition squelch_out :: "u32 \<Rightarrow> u8 list \<Rightarrow> rle \<Rightarrow> u8 list" where
  "squelch_out k bs r = fst (squelch_list k bs (squelch_of r))"

lemma drain_upto_spec:
  assumes "sdk_ok K" "irq_ok K" "rx_inv R K u"
  shows "\<exists>m q' r' u'. drain_upto K k avail r u = Some (r', sq_saw q', u')
    \<and> rx_inv R K u' \<and> rle_list r = take m (rle_list r) @ rle_list r'
    \<and> usb_stream u' = usb_stream u @ fst (squelch_list k (take m (rle_list r)) (squelch_of r))
    \<and> q' = snd (squelch_list k (take m (rle_list r)) (squelch_of r))
    \<and> r' = r\<lparr>capRun := sq_run q', capPiped := sq_piped q', rle_sniffActive := sq_active q',
            rle_tail := rle_tail r + of_nat m\<rparr> \<and> m \<le> 192 \<and> m \<le> length (rle_list r)"
proof -
  define budget where "budget = (if avail > 192 then 192 else avail)"
  define n where "n = (if rle_ringCount r > budget then budget else rle_ringCount r)"
  obtain dst cap where tx: "usb_txReserve u = (dst, cap)" by fastforce
  have eq: "drain_upto K k avail r u =
    (if budget = 0 \<or> n = 0 \<or> cap = 0 then Some (r, False, u)
     else do {
       (i, outl, q, u) \<leftarrow> service_loop K k r dst cap (unat n) 0 0 (squelch_of r) u;
       Some (r\<lparr>capRun := sq_run q, capPiped := sq_piped q, rle_sniffActive := sq_active q,
               rle_tail := rle_tail r + of_nat i\<rparr>, sq_saw q, usb_txCommit (of_nat outl) u) })"
    unfolding drain_upto_def Let_def tx squelch_of_def budget_def [symmetric]
      n_def [symmetric] by simp
  show ?thesis
  proof (cases "budget = 0 \<or> n = 0 \<or> cap = 0")
    case True
    then show ?thesis
      using eq assms(3)
      by (intro exI [of _ 0] exI [of _ "squelch_of r"] exI [of _ r] exI [of _ u]) (simp add: squelch_of_def)
  next
    case False
    have start: "draining R K u dst [] (unat cap - length ([] :: u8 list)) u" "length ([] :: u8 list) \<le> unat cap"
      using draining_start [OF assms(3), of dst cap] tx by simp_all
    from service_loop_spec [OF assms(1,2) start, of k r "unat n" 0 "squelch_of r"]
    obtain m outs q' u' where l:
      "service_loop K k r dst cap (unat n) 0 0 (squelch_of r) u = Some (m, length outs, q', u')"
      "m \<le> unat n" "outs = fst (squelch_list k (take m (window r 0 (unat n))) (squelch_of r))"
      "q' = snd (squelch_list k (take m (window r 0 (unat n))) (squelch_of r))"
      "draining R K u dst outs (unat cap - length outs) u'"
      by auto
    have n_le: "unat n \<le> unat (rle_ringCount r)" "unat n \<le> 192"
      by (auto simp: n_def budget_def word_less_nat_alt)
    have win: "take m (window r 0 (unat n)) = take m (rle_list r)"
    proof -
      have "window r 0 (unat n) = take (unat n) (rle_list r)"
        using rle_advance(3) [OF n_le(1)] by (simp add: window_def)
      then show ?thesis using l(2) by (simp add: min_def)
    qed
    let ?r' = "r\<lparr>capRun := sq_run q', capPiped := sq_piped q', rle_sniffActive := sq_active q',
               rle_tail := rle_tail r + of_nat m\<rparr>"
    have m: "m \<le> unat (rle_ringCount r)" "m \<le> 192" using l(2) n_le by simp_all
    have "rle_list ?r' = rle_list (r\<lparr>rle_tail := rle_tail r + of_nat m\<rparr>)"
      by (simp add: rle_list_def rle_ringCount_def)
    then have "rle_list r = take m (rle_list r) @ rle_list ?r'"
      using rle_advance(1) [OF m(1)] by simp
    moreover have "drain_upto K k avail r u = Some (?r', sq_saw q', usb_txCommit (of_nat (length outs)) u')"
      using eq False l(1) by simp
    moreover have "m \<le> length (rle_list r)" using m(1) by (simp add: rle_list_def)
    ultimately show ?thesis
      using draining_commit [OF l(5)] l(3,4) m(2) unfolding win
      by (intro exI [of _ m] exI [of _ q'] exI [of _ ?r'] exI [of _ "usb_txCommit (of_nat (length outs)) u'"])
        (simp add: usb_stream_def)
  qed
qed

lemmas service_drain_spec = drain_upto_spec [where avail = "ucast (usb_writeSpace u)" and u = u for u, folded service_drain_def]

subsection \<open>The markers\<close>

lemma usb_write_stream:
  assumes "rx_inv R K u" "usb_write xs u = (n, u')" "length xs < 2 ^ 32"
  shows "usb_stream u' = usb_stream u @ take (unat n) xs" and "rx_inv R K u'"
    and "unat n = min (length xs) (unat (usb_writeSpace u))" and "INT_FG u' = INT_FG u"
proof -
  have wf: "ring_wf (tx_ring u)" using assms(1) by (simp add: rx_inv_def usb_ok_def)
  have u': "n = fst (ring_push xs (tx_ring u))" "u' = u\<lparr>tx_ring := snd (ring_push xs (tx_ring u))\<rparr>"
    using assms(2) by (simp_all add: usb_write_def case_prod_beta)
  note p = ring_push_list [OF disjI1 [OF wf], of xs]
  show "usb_stream u' = usb_stream u @ take (unat n) xs" using p(1) by (simp add: usb_stream_def u')
  show "rx_inv R K u'" using assms(1) p(3) [OF wf] by (simp add: u' rx_inv_def usb_ok_def)
  have fits: "ring_fits (tx_ring u)" using wf by (simp add: ring_wf_def)
  show "unat n = min (length xs) (unat (usb_writeSpace u))"
    using p(5) assms(3) ring_free_unat [OF fits] by (simp add: u' usb_writeSpace_def)
  show "INT_FG u' = INT_FG u" by (simp add: u')
qed

lemma dec_digits_printable: "printable (dec_digits n)"
proof (induction n rule: dec_digits.induct)
  case (1 n)
  have "\<not> (0x30 + of_nat d < (0x20 :: u8) \<or> 0x30 + of_nat d > (0x7E :: u8))" if "d < 10" for d
  proof -
    have "unat (0x30 + of_nat d :: u8) = 0x30 + d"
      using that by (simp add: unat_word_ariths unat_of_nat)
    then show ?thesis using that by (simp add: word_less_nat_alt)
  qed
  then show ?case
    using 1 by (simp add: dec_digits.simps [of n] printable_def)
qed

lemma dec_digits_len: "n < 10 ^ k \<Longrightarrow> 0 < k \<Longrightarrow> length (dec_digits n) \<le> k"
proof (induction k arbitrary: n)
  case (Suc k)
  show ?case
  proof (cases "n < 10")
    case True
    then show ?thesis by (simp add: dec_digits.simps [of n])
  next
    case False
    then have "n div 10 < 10 ^ k" "0 < k" using Suc.prems(1) by (auto intro: gr0I)
    from Suc.IH [OF this] show ?thesis using False by (simp add: dec_digits.simps [of n])
  qed
qed simp

lemma printable_append [simp]: "printable (xs @ ys) \<longleftrightarrow> printable xs \<and> printable ys"
  by (auto simp: printable_def)

lemma rle_marker_ok:
  "printable (rle_marker fcpu)" "rle_marker fcpu \<noteq> []" "hd (rle_marker fcpu) = 0x5B"
  "length (rle_marker fcpu) \<le> 45"
proof -
  have parts: "printable (map of_char ''[MODE rle wire=2 thi='')" "printable (map of_char '' tlo='')"
    "printable (map of_char '' fcpu='')" "printable (map of_char '']'')"
    by (simp_all add: printable_def)
  then show "printable (rle_marker fcpu)"
    unfolding rle_marker_def printable_append by (intro conjI dec_digits_printable) blast+
  show "rle_marker fcpu \<noteq> []" "hd (rle_marker fcpu) = 0x5B" by (simp_all add: rle_marker_def)
  have "length (dec_digits (unat fcpu)) \<le> 10"
    using unat_u32_lt [of fcpu] by (intro dec_digits_len) simp_all
  moreover have "length (dec_digits (unat TICK_HI_CYC)) \<le> 1" "length (dec_digits (unat TICK_LO_CYC)) \<le> 1"
    by (intro dec_digits_len; simp add: TICK_HI_CYC_def TICK_LO_CYC_def)+
  ultimately show "length (rle_marker fcpu) \<le> 45" by (simp add: rle_marker_def)
qed

definition mode_block :: "u32 \<Rightarrow> u8 list" where
  "mode_block fcpu = 0xFF # 0xFE # rle_marker fcpu @ [0xFE, 0xFF]"

lemma emitModeMarker_spec:
  assumes "rx_inv R K u"
  shows "\<exists>u'. rle_emitModeMarker fcpu u = Some u' \<and> rx_inv R K u'
    \<and> usb_stream u' = usb_stream u @ (if length (mode_block fcpu) \<le> unat (usb_writeSpace u) then mode_block fcpu else [])"
proof -
  let ?m = "rle_marker fcpu"
  have m: "take 63 ?m = ?m" using rle_marker_ok(4) [of fcpu] by simp
  have "length ?m + 3 \<le> length (replicate 79 (0 :: u8))" using rle_marker_ok(4) [of fcpu] by simp
  note f = frameMeta_bytes [OF rle_marker_ok(1-3) this]
  have len: "length (mode_block fcpu) = length ?m + 3 + 1" by (simp add: mode_block_def)
  have split: "0xFF # 0xFE # ?m @ 0xFE # 0xFF # xs = mode_block fcpu @ xs" for xs :: "u8 list"
    by (simp add: mode_block_def)
  have bytes: "take (length ?m + 3 + 1) (0xFF # 0xFE # ?m @ 0xFE # 0xFF # xs) = mode_block fcpu" for xs :: "u8 list"
    unfolding split len [symmetric] by simp
  obtain n v where w: "usb_write (mode_block fcpu) u = (n, v)" by fastforce
  have "length (mode_block fcpu) < 2 ^ 32" using len rle_marker_ok(4) [of fcpu] by simp
  note s = usb_write_stream [OF assms w this]
  have eq: "rle_emitModeMarker fcpu u
      = Some (if length (mode_block fcpu) \<le> unat (usb_writeSpace u) then v else u)"
    using w unfolding rle_emitModeMarker_def m Let_def f len by (simp only: bind.bind_lunit prod.case bytes) simp
  show ?thesis
    unfolding eq using s assms by simp
qed

lemma service_loss_spec:
  assumes "rx_inv R K u" "service_loss r u = (r', u')"
  shows "rx_inv R K u'" "\<exists>loss. usb_stream u' = usb_stream u @ loss
     \<and> loss \<in> {[], [0xFD]} \<and> (loss \<noteq> [] \<longrightarrow> ramDrop r \<noteq> lossSeen r)
     \<and> r' = r\<lparr>lossSeen := if loss \<noteq> [] then ramDrop r else lossSeen r\<rparr>"
proof -
  obtain n v where w: "usb_write [0xFD] u = (n, v)" by fastforce
  have "length [0xFD :: u8] < 2 ^ 32" by simp
  note s = usb_write_stream [OF assms(1) w this]
  have n: "n = 1 \<or> n = 0" using s(3) by (auto simp: word_unat_eq_iff min_def)
  have eq: "(r', u') = (if ramDrop r \<noteq> lossSeen r then (if n = 1 then r\<lparr>lossSeen := ramDrop r\<rparr> else r, v) else (r, u))"
    using assms(2) w by (simp add: service_loss_def Let_def split: if_splits)
  show "rx_inv R K u'" using eq s(2) assms(1) by (simp split: if_splits)
  show "\<exists>loss. usb_stream u' = usb_stream u @ loss
     \<and> loss \<in> {[], [0xFD]} \<and> (loss \<noteq> [] \<longrightarrow> ramDrop r \<noteq> lossSeen r)
     \<and> r' = r\<lparr>lossSeen := if loss \<noteq> [] then ramDrop r else lossSeen r\<rparr>"
  proof (cases "ramDrop r \<noteq> lossSeen r \<and> n = 1")
    case True
    then show ?thesis using eq s(1) by (intro exI [of _ "[0xFD]"]) simp
  next
    case False
    then show ?thesis using eq s(1) n by (intro exI [of _ "[]"]) (auto split: if_splits)
  qed
qed

lemma service_idle_spec:
  assumes "rx_inv R K u" "service_idle nowMs saw r u = (r', u')"
  shows "rx_inv R K u'" "\<exists>sep ms. usb_stream u' = usb_stream u @ sep \<and> sep \<in> {[], [0xFF]}
     \<and> (sep \<noteq> [] \<longrightarrow> rle_ringCount r = 0 \<and> \<not> rle_sniffActive r')
     \<and> r' = r\<lparr>rle_sniffLastMs := ms, rle_sniffActive := rle_sniffActive r'\<rparr>"
proof -
  obtain n v where w: "usb_write [0xFF] u = (n, v)" by fastforce
  have "length [0xFF :: u8] < 2 ^ 32" by simp
  note s = usb_write_stream [OF assms(1) w this]
  have n: "n = 1 \<or> n = 0" using s(3) by (auto simp: word_unat_eq_iff min_def)
  define r1 where "r1 = (if saw \<or> rle_ringCount r > 0 then r\<lparr>rle_sniffLastMs := nowMs, rle_sniffActive := True\<rparr> else r)"
  have r1: "r1 = r\<lparr>rle_sniffLastMs := rle_sniffLastMs r1, rle_sniffActive := rle_sniffActive r1\<rparr>"
    by (simp add: r1_def)
  define cond where "cond \<longleftrightarrow> rle_sniffActive r1 \<and> rle_ringCount r = 0 \<and> nowMs - rle_sniffLastMs r1 > 3"
  have eb: "emitBoundary u = (n = 1, v)" using w by (simp add: emitBoundary_def)
  have eq: "(r', u') = (if cond then (if n = 1 then r1\<lparr>rle_sniffActive := False\<rparr> else r1, v) else (r1, u))"
    using assms(2) unfolding service_idle_def Let_def r1_def [symmetric] cond_def [symmetric] eb prod.case
    by simp
  show "rx_inv R K u'" using eq s(2) assms(1) by (simp split: if_splits)
  show "\<exists>sep ms. usb_stream u' = usb_stream u @ sep \<and> sep \<in> {[], [0xFF]}
     \<and> (sep \<noteq> [] \<longrightarrow> rle_ringCount r = 0 \<and> \<not> rle_sniffActive r')
     \<and> r' = r\<lparr>rle_sniffLastMs := ms, rle_sniffActive := rle_sniffActive r'\<rparr>"
  proof (cases "cond \<and> n = 1")
    case True
    then have "r' = r1\<lparr>rle_sniffActive := False\<rparr>" "u' = v" using eq by simp_all
    moreover from this(1) have "r' = r\<lparr>rle_sniffLastMs := rle_sniffLastMs r1, rle_sniffActive := False\<rparr>"
      by (subst (asm) r1) simp
    ultimately show ?thesis
      using True s(1) by (intro exI [of _ "[0xFF]"] exI [of _ "rle_sniffLastMs r1"]) (simp add: cond_def)
  next
    case False
    then have "r' = r1" "usb_stream u' = usb_stream u" using eq s(1) n by (auto split: if_splits)
    then show ?thesis
      using r1 by (intro exI [of _ "[]"] exI [of _ "rle_sniffLastMs r1"]) simp
  qed
qed

subsection \<open>The squelch in terms of runs\<close>

text \<open>A run is its continuation bytes (128 and above) and its terminal byte.\<close>

definition is_run :: "u8 list \<times> u8 \<Rightarrow> bool" where
  "is_run = (\<lambda>(cs, t). (\<forall>c \<in> set cs. c \<ge> 128) \<and> t < 128)"

definition run_out :: "u32 \<Rightarrow> u8 list \<times> u8 \<Rightarrow> u8 list" where
  "run_out k = (\<lambda>(cs, t). if k = 0 \<or> length cs < unat k then cs @ [t] else take (unat k - 1) cs @ [0xFF])"

lemma squelch_conts_raw:
  "\<forall>c \<in> set cs. c \<ge> 128 \<Longrightarrow> \<not> sq_piped q \<Longrightarrow>
    fst (squelch_list 0 cs q) = cs \<and> \<not> sq_piped (snd (squelch_list 0 cs q))"
  by (induction cs arbitrary: q) (simp_all add: squelch_byte_def Let_def case_prod_beta)

lemma squelch_conts_piped:
  "\<forall>c \<in> set cs. c \<ge> 128 \<Longrightarrow> sq_piped q \<Longrightarrow> k \<noteq> 0 \<Longrightarrow> squelch_list k cs q = ([], q)"
  by (induction cs) (simp_all add: squelch_byte_def)

lemma squelch_conts:
  assumes "\<forall>c \<in> set cs. c \<ge> 128" "\<not> sq_piped q" "k \<noteq> 0" "unat (sq_run q) < unat k"
  defines "room \<equiv> unat k - unat (sq_run q)"
  shows "fst (squelch_list k cs q) = (if length cs < room then cs else take (room - 1) cs @ [0xFF])
    \<and> (sq_piped (snd (squelch_list k cs q)) \<longleftrightarrow> \<not> length cs < room)"
  using assms(1,2,4) unfolding room_def
proof (induction cs arbitrary: q)
  case (Cons c cs)
  have run: "unat (sq_run q + 1) = unat (sq_run q) + 1"
    using Cons.prems(3) unat_u32_lt [of k] by (simp add: unat_word_ariths)
  have c: "c \<ge> 128" "\<forall>c \<in> set cs. c \<ge> 128" using Cons.prems(1) by simp_all
  show ?case
  proof (cases "sq_run q + 1 \<ge> k")
    case True
    then have one: "unat k - unat (sq_run q) = 1" using run Cons.prems(3) by (simp add: word_le_nat_alt)
    let ?q = "q\<lparr>sq_run := sq_run q + 1, sq_piped := True, sq_active := False, sq_saw := False\<rparr>"
    have "squelch_byte k c q = ([0xFF], ?q)"
      using True c(1) assms(3) Cons.prems(2) by (simp add: squelch_byte_def Let_def)
    moreover have "squelch_list k cs ?q = ([], ?q)" by (rule squelch_conts_piped [OF c(2) _ assms(3)]) simp
    ultimately show ?thesis unfolding one by simp
  next
    case False
    let ?q = "q\<lparr>sq_run := sq_run q + 1, sq_saw := True\<rparr>"
    have b: "squelch_byte k c q = ([c], ?q)"
      using False c(1) assms(3) Cons.prems(2) by (simp add: squelch_byte_def Let_def)
    have lt: "unat (sq_run ?q) < unat k" using False run by (simp add: word_le_nat_alt)
    define n where "n = unat k - unat (sq_run q) - 2"
    have n: "unat k - unat (sq_run ?q) = Suc n" "unat k - unat (sq_run q) = Suc (Suc n)"
      using lt run by (simp_all add: n_def)
    show ?thesis
      using Cons.IH [OF c(2) _ lt] Cons.prems(2) b unfolding n by (simp add: case_prod_beta)
  qed
qed simp

lemma squelch_one_run:
  assumes "is_run (cs, t)" "sq_run q = 0" "\<not> sq_piped q"
  shows "fst (squelch_list k (cs @ [t]) q) = run_out k (cs, t)
    \<and> sq_run (snd (squelch_list k (cs @ [t]) q)) = 0 \<and> \<not> sq_piped (snd (squelch_list k (cs @ [t]) q))"
proof -
  have cs: "\<forall>c \<in> set cs. c \<ge> 128" and t: "\<not> t \<ge> 128" using assms(1) by (simp_all add: is_run_def not_le)
  show ?thesis
  proof (cases "k = 0")
    case True
    then show ?thesis
      using squelch_conts_raw [OF cs assms(3)] t
      by (simp add: squelch_list_append squelch_byte_def Let_def case_prod_beta run_out_def)
  next
    case False
    then have "unat (sq_run q) < unat k" using assms(2) by (simp add: unat_gt_0)
    then show ?thesis
      using squelch_conts [OF cs assms(3) False] t False assms(2)
      by (simp add: squelch_list_append squelch_byte_def Let_def case_prod_beta run_out_def)
  qed
qed

lemma service_heartbeat_spec:
  assumes "rx_inv R K u"
  shows "\<exists>mode r' u'. service_heartbeat fcpu nowMs r u = Some (r', u') \<and> rx_inv R K u'
    \<and> usb_stream u' = usb_stream u @ mode \<and> mode \<in> {[], mode_block fcpu}
    \<and> (mode \<noteq> [] \<longrightarrow> \<not> rle_sniffActive r) \<and> (r' = r \<or> r' = r\<lparr>rle_modeHbMs := nowMs + 1000\<rparr>)"
proof (cases "\<not> rle_sniffActive r \<and> passed nowMs (rle_modeHbMs r)")
  case True
  obtain v where v: "rle_emitModeMarker fcpu u = Some v" "rx_inv R K v"
    "\<exists>mode. usb_stream v = usb_stream u @ mode \<and> mode \<in> {[], mode_block fcpu}"
    using emitModeMarker_spec [OF assms, of fcpu] by force
  then obtain mode where "usb_stream v = usb_stream u @ mode" "mode \<in> {[], mode_block fcpu}" by blast
  then show ?thesis
    using v(1,2) True
    by (intro exI [of _ mode] exI [of _ "r\<lparr>rle_modeHbMs := nowMs + 1000\<rparr>"] exI [of _ v]) (simp add: service_heartbeat_def)
next
  case False
  then have "service_heartbeat fcpu nowMs r u = Some (r, u)" by (auto simp: service_heartbeat_def)
  then show ?thesis using assms by (intro exI [of _ "[]"] exI [of _ r] exI [of _ u]) simp
qed

subsection \<open>One service call\<close>

lemma rle_service_facts:
  assumes "sdk_ok K" and "irq_ok K" and "rx_inv R K u"
  shows "\<exists>m q' loss sep mode r' u'. rle_service K fcpu kbps nowMs r u = Some (r', u') \<and> rx_inv R K u'
    \<and> rle_list r = take m (rle_list r) @ rle_list r'
    \<and> squelch_list (CAP_IDLE_K kbps) (take m (rle_list r)) (squelch_of r)
        = (squelch_out (CAP_IDLE_K kbps) (take m (rle_list r)) r, q')
    \<and> usb_stream u' = usb_stream u @ squelch_out (CAP_IDLE_K kbps) (take m (rle_list r)) r @ loss @ sep @ mode
    \<and> capRun r' = sq_run q' \<and> capPiped r' = sq_piped q'
    \<and> loss \<in> {[], [0xFD]} \<and> (loss \<noteq> [] \<longrightarrow> ramDrop r \<noteq> lossSeen r)
    \<and> ramDrop r' = ramDrop r \<and> lossSeen r' = (if loss \<noteq> [] then ramDrop r else lossSeen r)
    \<and> sep \<in> {[], [0xFF]} \<and> (sep \<noteq> [] \<longrightarrow> rle_list r' = [] \<and> \<not> rle_sniffActive r')
    \<and> mode \<in> {[], mode_block fcpu} \<and> (mode \<noteq> [] \<longrightarrow> \<not> rle_sniffActive r')"
proof -
  let ?k = "CAP_IDLE_K kbps" and ?r = "r\<lparr>loopCalls := loopCalls r + 1\<rparr>"
  have frame: "rle_list ?r = rle_list r" "squelch_of ?r = squelch_of r"
    by (simp_all add: rle_list_def rle_ringCount_def squelch_of_def)
  obtain m q' r1 u1 where d: "service_drain K ?k ?r u = Some (r1, sq_saw q', u1)" "rx_inv R K u1"
    "rle_list r = take m (rle_list r) @ rle_list r1"
    "usb_stream u1 = usb_stream u @ squelch_out ?k (take m (rle_list r)) r"
    "q' = snd (squelch_list ?k (take m (rle_list r)) (squelch_of r))"
    "r1 = ?r\<lparr>capRun := sq_run q', capPiped := sq_piped q', rle_sniffActive := sq_active q',
            rle_tail := rle_tail r + of_nat m\<rparr>"
    using service_drain_spec [OF assms, of ?k ?r] unfolding frame squelch_out_def by auto
  define r2 where "r2 = (if ucast (usb_writeSpace u1) < txMinFree r1 then r1\<lparr>txMinFree := ucast (usb_writeSpace u1)\<rparr> else r1)"
  obtain r3 u3 where l: "service_loss r2 u1 = (r3, u3)" by fastforce
  obtain r4 u4 where i: "service_idle nowMs (sq_saw q') r3 u3 = (r4, u4)" by fastforce
  obtain loss where loss: "rx_inv R K u3" "usb_stream u3 = usb_stream u1 @ loss" "loss \<in> {[], [0xFD]}"
    "loss \<noteq> [] \<longrightarrow> ramDrop r2 \<noteq> lossSeen r2"
    "r3 = r2\<lparr>lossSeen := if loss \<noteq> [] then ramDrop r2 else lossSeen r2\<rparr>"
    using service_loss_spec [OF d(2) l] by blast
  obtain sep ms where sep: "rx_inv R K u4" "usb_stream u4 = usb_stream u3 @ sep" "sep \<in> {[], [0xFF]}"
    "sep \<noteq> [] \<longrightarrow> rle_ringCount r3 = 0 \<and> \<not> rle_sniffActive r4"
    "r4 = r3\<lparr>rle_sniffLastMs := ms, rle_sniffActive := rle_sniffActive r4\<rparr>"
    using service_idle_spec [OF loss(1) i] by blast
  have run: "rle_service K fcpu kbps nowMs r u = service_heartbeat fcpu nowMs r4 u4"
    unfolding rle_service_def Let_def d(1) bind.bind_lunit prod.case r2_def [symmetric] l i by simp
  have two: "rle_list r2 = rle_list r1" "ramDrop r2 = ramDrop r" "lossSeen r2 = lossSeen r"
    "capRun r2 = sq_run q'" "capPiped r2 = sq_piped q'"
    unfolding r2_def d(6) by (simp_all add: rle_list_def rle_ringCount_def)
  have three: "rle_list r3 = rle_list r2" "ramDrop r3 = ramDrop r2" "capRun r3 = capRun r2" "capPiped r3 = capPiped r2"
    "lossSeen r3 = (if loss \<noteq> [] then ramDrop r2 else lossSeen r2)" "rle_ringCount r3 = 0 \<longrightarrow> rle_list r3 = []"
    unfolding loss(5) by (simp_all add: rle_list_def rle_ringCount_def)
  have four: "rle_list r4 = rle_list r3" "ramDrop r4 = ramDrop r3" "capRun r4 = capRun r3"
    "capPiped r4 = capPiped r3" "lossSeen r4 = lossSeen r3"
    by (subst sep(5), simp add: rle_list_def rle_ringCount_def)+
  obtain mode r' u' where hb: "service_heartbeat fcpu nowMs r4 u4 = Some (r', u')" "rx_inv R K u'"
    "usb_stream u' = usb_stream u4 @ mode" "mode \<in> {[], mode_block fcpu}"
    "mode \<noteq> [] \<longrightarrow> \<not> rle_sniffActive r4" "r' = r4 \<or> r' = r4\<lparr>rle_modeHbMs := nowMs + 1000\<rparr>"
    using service_heartbeat_spec [OF sep(1)] by blast
  have five: "rle_list r' = rle_list r4" "ramDrop r' = ramDrop r4" "capRun r' = capRun r4"
    "capPiped r' = capPiped r4" "lossSeen r' = lossSeen r4" "rle_sniffActive r' = rle_sniffActive r4"
    using hb(6) by (auto simp: rle_list_def rle_ringCount_def)
  have f1: "rle_list r = take m (rle_list r) @ rle_list r'"
    using d(3) five(1) four(1) three(1) two(1) by simp
  have f2: "squelch_list ?k (take m (rle_list r)) (squelch_of r) = (squelch_out ?k (take m (rle_list r)) r, q')"
    by (simp add: squelch_out_def d(5))
  have f3: "usb_stream u' = usb_stream u @ squelch_out ?k (take m (rle_list r)) r @ loss @ sep @ mode"
    by (simp only: hb(3) sep(2) loss(2) d(4) append_assoc)
  have f4: "capRun r' = sq_run q' \<and> capPiped r' = sq_piped q'"
    using five(3,4) four(3,4) three(3,4) two(4,5) by simp
  have f5: "loss \<noteq> [] \<longrightarrow> ramDrop r \<noteq> lossSeen r" using loss(4) two(2,3) by simp
  have f6: "ramDrop r' = ramDrop r \<and> lossSeen r' = (if loss \<noteq> [] then ramDrop r else lossSeen r)"
    using five(2,5) four(2,5) three(2,5) two(2,3) by simp
  have f7: "sep \<noteq> [] \<longrightarrow> rle_list r' = [] \<and> \<not> rle_sniffActive r'"
    using sep(4) three(6) five(1,6) four(1) by simp
  have f8: "mode \<noteq> [] \<longrightarrow> \<not> rle_sniffActive r'" using hb(5) five(6) by simp
  have f9: "rle_service K fcpu kbps nowMs r u = Some (r', u')" using run hb(1) by simp
  show ?thesis
    by (rule exI [of _ m], rule exI [of _ q'], rule exI [of _ loss], rule exI [of _ sep],
        rule exI [of _ mode], rule exI [of _ r'], rule exI [of _ u'])
      (intro conjI f9 hb(2) f1 f2 f3 conjunct1 [OF f4] conjunct2 [OF f4] loss(3) f5 conjunct1 [OF f6]
        conjunct2 [OF f6] sep(3) f7 hb(4) f8)
qed

subsection \<open>Properties\<close>

text \<open>
  C21. One call of the run-length service always returns, and what reaches the USB stream is accounted
  for byte by byte: the squelched image of a prefix of the RAM ring, then at most one loss marker, at
  most one idle boundary, at most one mode block. The rest of the RAM ring stays; the squelch continues
  where the prefix ended. A loss marker is sent only for a drop that was not reported, and the drop
  counts as reported only if the marker is in the stream; a boundary and a mode block are sent only
  when no frame is open.
\<close>

theorem rle_service_stream:
  assumes "sdk_ok K" and "irq_ok K" and "rx_inv R K u"
  shows "\<exists>m q' loss sep mode r' u'. rle_service K fcpu kbps nowMs r u = Some (r', u') \<and> rx_inv R K u'
    \<and> rle_list r = take m (rle_list r) @ rle_list r'
    \<and> squelch_list (CAP_IDLE_K kbps) (take m (rle_list r)) (squelch_of r)
        = (squelch_out (CAP_IDLE_K kbps) (take m (rle_list r)) r, q')
    \<and> usb_stream u' = usb_stream u @ squelch_out (CAP_IDLE_K kbps) (take m (rle_list r)) r @ loss @ sep @ mode
    \<and> capRun r' = sq_run q' \<and> capPiped r' = sq_piped q'
    \<and> loss \<in> {[], [0xFD]} \<and> (loss \<noteq> [] \<longrightarrow> ramDrop r \<noteq> lossSeen r)
    \<and> ramDrop r' = ramDrop r \<and> lossSeen r' = (if loss \<noteq> [] then ramDrop r else lossSeen r)
    \<and> sep \<in> {[], [0xFF]} \<and> (sep \<noteq> [] \<longrightarrow> rle_list r' = [] \<and> \<not> rle_sniffActive r')
    \<and> mode \<in> {[], mode_block fcpu} \<and> (mode \<noteq> [] \<longrightarrow> \<not> rle_sniffActive r')"
  by (rule rle_service_facts [OF assms])

theorem rle_service_stream_witness:
  "let u = (busReset wch usb_static)\<lparr>INT_FG := 0\<rparr>; r = rle_static (replicate 64 0) in
   \<exists>r' u' loss sep mode. rle_service wch 144000000 1000 5 r u = Some (r', u')
     \<and> usb_stream u' = usb_stream u @ loss @ sep @ mode \<and> loss = [] \<and> mode \<in> {[], mode_block 144000000}"
proof -
  let ?u = "(busReset wch usb_static)\<lparr>INT_FG := 0\<rparr>" and ?r = "rle_static (replicate 64 0)"
  have inv: "rx_inv False wch ?u" by (rule reset_rx_inv(1) [OF wch_ok usb_static_ok])
  have "ramDrop ?r = lossSeen ?r" "rle_list ?r = []" "squelch_out k [] ?r = []" for k
    using rle_static_ok(4) by (simp_all add: rle_static_def squelch_out_def)
  then show ?thesis
    using rle_service_stream [OF wch_ok wch_irq_ok inv, of 144000000 1000 5 ?r] unfolding Let_def
    by (metis append_Nil take_Nil)
qed

text \<open>
  C22. The squelch, byte by byte with its two state variables and in pieces of any size, is the
  description of it: with a threshold \<open>k\<close> a run of fewer than \<open>k\<close> continuation bytes passes unchanged,
  terminal byte included; a longer one keeps its first \<open>k - 1\<close> continuation bytes and becomes one
  boundary, its terminal byte dropped. With the threshold 0 every byte passes. Splitting the input
  between two calls of the service changes nothing.
\<close>

theorem squelch_reference:
  assumes "list_all is_run runs" and "sq_run q = 0" and "\<not> sq_piped q"
    and "concat (map (\<lambda>(cs, t). cs @ [t]) runs) = xs @ ys"
  shows "(case squelch_list k xs q of (a, q') \<Rightarrow> case squelch_list k ys q' of (b, q'') \<Rightarrow>
           a @ b = concat (map (run_out k) runs) \<and> sq_run q'' = 0 \<and> \<not> sq_piped q'')"
proof -
  have "fst (squelch_list k (concat (map (\<lambda>(cs, t). cs @ [t]) runs)) q) = concat (map (run_out k) runs)
    \<and> sq_run (snd (squelch_list k (concat (map (\<lambda>(cs, t). cs @ [t]) runs)) q)) = 0
    \<and> \<not> sq_piped (snd (squelch_list k (concat (map (\<lambda>(cs, t). cs @ [t]) runs)) q))"
    using assms(1-3)
  proof (induction runs arbitrary: q)
    case (Cons ct runs)
    obtain cs t where ct: "ct = (cs, t)" by fastforce
    have "is_run (cs, t)" "list_all is_run runs" using Cons.prems(1) ct by simp_all
    note one = squelch_one_run [OF this(1) Cons.prems(2,3), of k]
    from Cons.IH [OF \<open>list_all is_run runs\<close>, of "snd (squelch_list k (cs @ [t]) q)"] one show ?case
      by (simp add: ct squelch_list_append [of k "cs @ [t]"] Let_def case_prod_beta
          del: append_assoc append_Cons flip: append_assoc)
  qed simp
  then show ?thesis
    unfolding assms(4) by (simp add: squelch_list_append Let_def case_prod_beta)
qed

theorem squelch_reference_witness:
  "fst (squelch_list 3 [200, 5, 200, 201, 202, 203, 9, 4] \<lparr>sq_run = 0, sq_piped = False, sq_active = False, sq_saw = False\<rparr>)
     = [200, 5, 200, 201, 0xFF, 4]"
proof -
  let ?q = "\<lparr>sq_run = 0, sq_piped = False, sq_active = False, sq_saw = False\<rparr>"
  let ?runs = "[([200], 5), ([200, 201, 202, 203], 9), ([], 4)] :: (u8 list \<times> u8) list"
  have h: "list_all is_run ?runs" "sq_run ?q = 0" "\<not> sq_piped ?q"
    "concat (map (\<lambda>(cs, t). cs @ [t]) ?runs) = [200, 5, 200, 201, 202, 203, 9, 4] @ []"
    by (simp_all add: is_run_def)
  show ?thesis
    using squelch_reference [OF h, of 3] by (simp add: run_out_def case_prod_beta take_Cons')
qed

end
