(* ===== verification/ClockedBurst.thy ===== *)
theory ClockedBurst
  imports ClockedSniffer RleService
begin

text \<open>
  The burst side of the clocked datapath: every byte read from the PIOC FIFO ends in exactly one
  record, the records are cut at the size limit, framed whole or dropped whole, and every loss is
  flagged in the next record that is staged.
\<close>

subsection \<open>The invariant\<close>

definition clk_ok :: "clk \<Rightarrow> bool" where
  "clk_ok c \<longleftrightarrow> length (burstBuf c) = 768 \<and> unat (burstN c) < 768 \<and> (\<not> burstOpen c \<longrightarrow> burstN c = 0)
     \<and> ring_wf (clk_ring c) \<and> ring_len (clk_ring c) = 2048 \<and> length (clk_DR c) = 64 \<and> tailBits c = 0"

definition open_bytes :: "clk \<Rightarrow> u8 list" where
  "open_bytes c = take (unat (burstN c)) (burstBuf c)"

lemma clk_ring_free:
  assumes "ring_wf (clk_ring c)" "ring_len (clk_ring c) = 2048"
  shows "unat (clk_ringSpace c) = 2048 - length (ring_list (clk_ring c))"
proof -
  have "ring_fits (clk_ring c)" using assms(1) by (simp add: ring_wf_def)
  then have f: "unat (ring_free (clk_ring c)) = 2048 - length (ring_list (clk_ring c))"
    using ring_free_unat [of "clk_ring c"] assms(2) by simp
  then have "unat (ring_free (clk_ring c)) < 65536" by simp
  then show ?thesis using f by (simp add: clk_ringSpace_def unsigned_ucast_eq take_bit_nat_eq_self)
qed

subsection \<open>One record\<close>

definition rec_frame :: "bool \<Rightarrow> clk \<Rightarrow> frame" where
  "rec_frame continued c =
    FRecord (burstT0 c) (sat16 (burstLast c - burstT0 c)) (burstOnset c) (rec_flags continued c) (open_bytes c)"

text \<open>The record is staged exactly when its frame fits the RAM ring.\<close>

definition rec_fits :: "bool \<Rightarrow> clk \<Rightarrow> bool" where
  "rec_fits continued c \<longleftrightarrow> length (emit (rec_frame continued c)) \<le> 2048 - length (ring_list (clk_ring c))"

definition rec_done :: "bool \<Rightarrow> clk \<Rightarrow> clk" where
  "rec_done continued c =
    (if rec_fits continued c
     then c\<lparr>clk_ring := snd (ring_pushAll (emit (rec_frame continued c)) (clk_ring c)),
            diagOvfPioc := diagOvfPioc c + ucast (clk_ovfPioc c), diagOvfRam := diagOvfRam c + ucast (clk_ovfRam c),
            clk_ovfPioc := 0, clk_ovfRam := 0, burstNeedTerminal := continued\<rparr>
     else c\<lparr>clk_ovfRam := clk_ovfRam c + 1\<rparr>)\<lparr>burstOpen := False, burstN := 0\<rparr>"

lemma emit_record_len: "length payload \<le> 768 \<Longrightarrow> length (emit (FRecord t d on fl payload)) \<le> ENC_SIZE"
  using ff_code_size [of "header_bytes TYPE_MDIO t d on fl (of_nat (length payload)) @ payload"]
    div_le_mono [of "12 + length payload" 780 254]
  by (simp add: emit_record ENC_SIZE_def BURST_MAX_def ffMaxEncoded_def del: emit.simps)

lemma emitRecord_run:
  assumes "length (burstBuf c) = 768" "unat (burstN c) \<le> 768" "ring_wf (clk_ring c)"
    "ring_len (clk_ring c) = 2048" "burstOpen c \<or> burstNeedTerminal c \<and> \<not> continued"
  shows "emitRecord continued c = Some (rec_done continued c)"
proof -
  let ?p = "open_bytes c" and ?f = "rec_frame continued c"
  let ?raw = "header_bytes TYPE_MDIO (burstT0 c) (sat16 (burstLast c - burstT0 c)) (burstOnset c)
      (rec_flags continued c) (burstN c) @ ?p"
  have len: "length ?p = unat (burstN c)" using assms(1,2) by (simp add: open_bytes_def)
  have n: "of_nat (length ?p) = burstN c" unfolding len by simp
  have em: "emit ?f = ff_code ?raw @ [0xFF]"
    unfolding rec_frame_def emit_record n by simp
  have small: "length (emit ?f) \<le> ENC_SIZE"
    unfolding rec_frame_def using len assms(2) by (intro emit_record_len) simp
  have fit: "ffMaxEncoded (length ?raw) + 1 \<le> length (replicate ENC_SIZE (0 :: u8))"
    using len assms(2) div_le_mono [of "12 + unat (burstN c)" 780 254]
    by (simp add: ffMaxEncoded_def ENC_SIZE_def BURST_MAX_def)
  have fr: "frameRecord ?raw (replicate ENC_SIZE 0) = Some (length (emit ?f), emit ?f @ drop (length (emit ?f)) (replicate ENC_SIZE 0))"
    unfolding frameRecord_bytes [OF fit] em by simp
  have m: "unat (of_nat (length (emit ?f)) :: u16) = length (emit ?f)"
    using small by (simp add: unat_of_nat ENC_SIZE_def BURST_MAX_def)
  have fits: "clk_ringSpace c \<ge> of_nat (length (emit ?f)) \<longleftrightarrow> rec_fits continued c"
    unfolding word_le_nat_alt m clk_ring_free [OF assms(3,4)] rec_fits_def ..
  have "length (emit ?f) < 2 ^ 32" using small by (simp add: ENC_SIZE_def BURST_MAX_def)
  note pa = ring_pushAll_list(1) [OF disjI1 [OF assms(3)] this]
  have push: "clk_ringPush (emit ?f) c = c\<lparr>clk_ring := snd (ring_pushAll (emit ?f) (clk_ring c))\<rparr>"
    if "rec_fits continued c"
    using that pa assms(4) by (simp add: clk_ringPush_def case_prod_beta rec_fits_def)
  have hdr: "[0x01, ucast (burstT0 c), ucast (drop_bit 8 (burstT0 c)), ucast (drop_bit 16 (burstT0 c)),
       ucast (drop_bit 24 (burstT0 c)), ucast (sat16 (burstLast c - burstT0 c)),
       ucast (drop_bit 8 (sat16 (burstLast c - burstT0 c))), ucast (burstOnset c),
       ucast (drop_bit 8 (burstOnset c)), rec_flags continued c, ucast (burstN c),
       ucast (drop_bit 8 (burstN c))] @ take (unat (burstN c)) (burstBuf c) = ?raw"
    by (simp add: header_bytes_def TYPE_MDIO_def open_bytes_def)
  have act: "\<not> (\<not> burstOpen c \<and> \<not> (burstNeedTerminal c \<and> \<not> continued))" "\<not> unat (burstN c) > length (burstBuf c)"
    using assms(1,2,5) by auto
  show ?thesis
  proof (cases "rec_fits continued c")
    case True
    have t: "take (length (emit ?f)) (emit ?f @ xs) = emit ?f" for xs by simp
    show ?thesis
      unfolding emitRecord_def if_not_P [OF act(1)] if_not_P [OF act(2)] Let_def hdr fr bind.bind_lunit prod.case
        m t push [OF True] fits if_P [OF True] rec_done_def
      by simp
  next
    case False
    show ?thesis
      unfolding emitRecord_def if_not_P [OF act(1)] if_not_P [OF act(2)] Let_def hdr fr bind.bind_lunit prod.case
        fits if_not_P [OF False] rec_done_def
      by simp
  qed
qed

lemma rec_done_ring:
  assumes "ring_wf (clk_ring c)" "ring_len (clk_ring c) = 2048" "unat (burstN c) \<le> 768" "length (burstBuf c) = 768"
  shows "ring_list (clk_ring (rec_done continued c))
      = ring_list (clk_ring c) @ (if rec_fits continued c then emit (rec_frame continued c) else [])"
    and "ring_wf (clk_ring (rec_done continued c))" and "ring_len (clk_ring (rec_done continued c)) = 2048"
proof -
  let ?f = "rec_frame continued c"
  have "length (emit ?f) \<le> ENC_SIZE"
    unfolding rec_frame_def using assms(3,4) by (intro emit_record_len) (simp add: open_bytes_def)
  then have small: "length (emit ?f) < 2 ^ 32" by (simp add: ENC_SIZE_def BURST_MAX_def)
  note pa = ring_pushAll_list [OF disjI1 [OF assms(1)] small]
  show "ring_list (clk_ring (rec_done continued c))
      = ring_list (clk_ring c) @ (if rec_fits continued c then emit ?f else [])"
    using pa(1,2) assms(2) by (simp add: rec_done_def rec_fits_def del: ring_list_length)
  show "ring_wf (clk_ring (rec_done continued c))" "ring_len (clk_ring (rec_done continued c)) = 2048"
    using pa(3) [OF assms(1)] assms(1,2) by (simp_all add: rec_done_def ring_pushAll_def ring_copyIn_def Let_def)
qed

subsection \<open>Accounting for the bytes\<close>

fun payload_of :: "frame \<Rightarrow> u8 list" where
  "payload_of (FRecord t d on fl p) = p"
| "payload_of f = []"

fun flags_of :: "frame \<Rightarrow> u8" where
  "flags_of (FRecord t d on fl p) = fl"
| "flags_of f = 0"

text \<open>
  A step produces \<open>recs\<close>, records with a mark for those that were staged. \<open>flags_ok\<close>: the two loss bits
  of each say whether a PIOC overrun or a dropped record is owed when it is cut, and staging it pays
  both; a dropped record is owed from then on.
\<close>

fun flags_ok :: "u16 \<times> u16 \<Rightarrow> (frame \<times> bool) list \<Rightarrow> u16 \<times> u16 \<Rightarrow> bool" where
  "flags_ok s [] s' \<longleftrightarrow> s = s'"
| "flags_ok (p, r) ((f, staged) # recs) s' \<longleftrightarrow>
    flags_of f AND 3 = (if p \<noteq> 0 then 1 else 0) OR (if r \<noteq> 0 then 2 else 0)
    \<and> flags_ok (if staged then (0, 0) else (p, r + 1)) recs s'"

definition need_after :: "bool \<Rightarrow> (frame \<times> bool) list \<Rightarrow> bool" where
  "need_after n recs = foldl (\<lambda>n (f, staged). if staged then flags_of f AND 4 \<noteq> 0 else n) n recs"

definition acct :: "clk \<Rightarrow> u8 list \<Rightarrow> (frame \<times> bool) list \<Rightarrow> clk \<Rightarrow> bool" where
  "acct c xs recs c' \<longleftrightarrow>
     open_bytes c @ xs = concat (map (payload_of \<circ> fst) recs) @ open_bytes c'
     \<and> ring_list (clk_ring c') = ring_list (clk_ring c) @ concat (map (emit \<circ> fst) (filter snd recs))
     \<and> list_all (\<lambda>(f, _). (\<exists>t d on fl p. f = FRecord t d on fl p \<and> length p \<le> 768)) recs
     \<and> flags_ok (clk_ovfPioc c, clk_ovfRam c) recs (clk_ovfPioc c', clk_ovfRam c')
     \<and> burstNeedTerminal c' = need_after (burstNeedTerminal c) recs"

lemma flags_ok_append:
  "flags_ok s r1 s1 \<Longrightarrow> flags_ok s1 r2 s2 \<Longrightarrow> flags_ok s (r1 @ r2) s2"
proof (induction r1 arbitrary: s)
  case (Cons x r1)
  obtain p r f d where "s = (p, r)" "x = (f, d)" by fastforce
  then show ?case using Cons by simp
qed simp

lemma acct_trans: "acct c xs r1 c1 \<Longrightarrow> acct c1 ys r2 c2 \<Longrightarrow> acct c (xs @ ys) (r1 @ r2) c2"
  unfolding acct_def need_after_def
  by (elim conjE, intro conjI) (simp_all add: flags_ok_append, metis append_assoc)

lemma acct_none:
  assumes "open_bytes c' = open_bytes c @ xs" "clk_ring c' = clk_ring c" "clk_ovfPioc c' = clk_ovfPioc c"
    "clk_ovfRam c' = clk_ovfRam c" "burstNeedTerminal c' = burstNeedTerminal c"
  shows "acct c xs [] c'"
  using assms by (simp add: acct_def need_after_def)

lemma rec_flags_bits:
  "rec_flags continued c AND 3 = (if clk_ovfPioc c \<noteq> 0 then 1 else 0) OR (if clk_ovfRam c \<noteq> 0 then 2 else 0)"
  "rec_flags continued c AND 4 \<noteq> 0 \<longleftrightarrow> continued"
  "rec_flags continued c AND 0x38 = push_bit 3 (tailBits c AND 7)"
proof -
  have hi: "push_bit 3 (b AND 7) AND (3 :: u8) = 0" "push_bit 3 (b AND 7) AND (4 :: u8) = 0"
    "push_bit 3 (b AND 7) AND (0x38 :: u8) = push_bit 3 (b AND 7)" for b :: u8
    by (rule bit_word_eqI, auto simp: bit_simps less_Suc_eq numeral_eq_Suc)+
  show "rec_flags continued c AND 3 = (if clk_ovfPioc c \<noteq> 0 then 1 else 0) OR (if clk_ovfRam c \<noteq> 0 then 2 else 0)"
    "rec_flags continued c AND 4 \<noteq> 0 \<longleftrightarrow> continued"
    "rec_flags continued c AND 0x38 = push_bit 3 (tailBits c AND 7)"
    using hi by (auto simp: rec_flags_def bit.conj_disj_distrib2)
qed

lemma rec_done_acct:
  assumes "ring_wf (clk_ring c)" "ring_len (clk_ring c) = 2048" "unat (burstN c) \<le> 768" "length (burstBuf c) = 768"
  shows "acct c [] [(rec_frame continued c, rec_fits continued c)] (rec_done continued c)"
  unfolding acct_def
proof (intro conjI)
  show "ring_list (clk_ring (rec_done continued c)) = ring_list (clk_ring c)
      @ concat (map (emit \<circ> fst) (filter snd [(rec_frame continued c, rec_fits continued c)]))"
    using rec_done_ring(1) [OF assms, of continued] by simp
  show "flags_ok (clk_ovfPioc c, clk_ovfRam c) [(rec_frame continued c, rec_fits continued c)]
      (clk_ovfPioc (rec_done continued c), clk_ovfRam (rec_done continued c))"
    using rec_flags_bits(1) [of continued c] by (simp add: rec_done_def rec_frame_def)
  show "burstNeedTerminal (rec_done continued c)
      = need_after (burstNeedTerminal c) [(rec_frame continued c, rec_fits continued c)]"
    using rec_flags_bits(2) [of continued c] by (simp add: rec_done_def rec_frame_def need_after_def)
qed (use assms(3,4) in \<open>simp_all add: rec_frame_def open_bytes_def rec_done_def\<close>)

subsection \<open>The drain of the PIOC FIFO\<close>

definition whole :: "(frame \<times> bool) list \<Rightarrow> bool" where
  "whole recs \<longleftrightarrow> list_all (\<lambda>(f, _). flags_of f AND 0x38 = 0) recs"

lemma whole_append [simp]: "whole (a @ b) \<longleftrightarrow> whole a \<and> whole b" "whole []"
  by (simp_all add: whole_def)

definition same_regs :: "clk \<Rightarrow> clk \<Rightarrow> bool" where
  "same_regs c c' \<longleftrightarrow> clk_DR c' = clk_DR c \<and> resets c' = resets c \<and> clk_sniffLastMs c' = clk_sniffLastMs c
     \<and> partialSeenMs c' = partialSeenMs c \<and> partialSeenBits c' = partialSeenBits c"

lemma same_regs_trans: "same_regs a b \<Longrightarrow> same_regs b c \<Longrightarrow> same_regs a c"
  by (simp add: same_regs_def)

lemma rec_done_fields [simp]:
  "clk_DR (rec_done k c) = clk_DR c" "resets (rec_done k c) = resets c"
  "clk_sniffLastMs (rec_done k c) = clk_sniffLastMs c" "clk_sniffTail (rec_done k c) = clk_sniffTail c"
  "partialSeenMs (rec_done k c) = partialSeenMs c" "partialSeenBits (rec_done k c) = partialSeenBits c"
  "tailBits (rec_done k c) = tailBits c" "burstBuf (rec_done k c) = burstBuf c"
  "burstN (rec_done k c) = 0" "\<not> burstOpen (rec_done k c)" "clk_modeHbMs (rec_done k c) = clk_modeHbMs c"
  by (simp_all add: rec_done_def)

lemma rec_done_ok:
  assumes "ring_wf (clk_ring c)" "ring_len (clk_ring c) = 2048" "unat (burstN c) \<le> 768" "length (burstBuf c) = 768"
    "length (clk_DR c) = 64" "tailBits c = 0"
  shows "clk_ok (rec_done continued c)"
  using rec_done_ring(2,3) [OF assms(1-4), of continued] assms by (simp add: clk_ok_def)

lemma clk_byte_spec:
  assumes "clk_ok c"
  defines "b \<equiv> clk_DR c ! (0x20 + unat (clk_sniffTail c AND (CLK_SLOTS - 1)))"
  shows "\<exists>recs c'. clk_byte us c = Some c' \<and> clk_ok c' \<and> acct c [b] recs c' \<and> whole recs
    \<and> same_regs c c' \<and> clk_sniffTail c' = clk_sniffTail c + 1"
proof -
  let ?c0 = "c\<lparr>clk_sniffTail := clk_sniffTail c + 1\<rparr>"
  define c1 where "c1 = clk_open us ?c0"
  let ?n = "unat (burstN c1)"
  have c1: "burstOpen c1" "?n < 768" "length (burstBuf c1) = 768" "open_bytes c1 = open_bytes c"
    "clk_ring c1 = clk_ring c" "clk_ovfPioc c1 = clk_ovfPioc c" "clk_ovfRam c1 = clk_ovfRam c"
    "burstNeedTerminal c1 = burstNeedTerminal c" "same_regs c c1" "tailBits c1 = 0"
    "clk_sniffTail c1 = clk_sniffTail c + 1" "clk_DR c1 = clk_DR c"
    using assms(1)
    by (auto simp: c1_def clk_open_def clk_micros_def clk_ok_def open_bytes_def same_regs_def Let_def)
  let ?c2 = "c1\<lparr>burstBuf := (burstBuf c1)[?n := b], burstN := burstN c1 + 1\<rparr>"
  have n1: "unat (burstN c1 + 1) = Suc ?n"
    using c1(2) by (simp add: unat_word_ariths)
  have app: "clk_append b c1 = Some ?c2"
    using c1(2,3) by (simp add: clk_append_def put_def BURST_MAX_def word_less_nat_alt)
  have ob2: "open_bytes ?c2 = open_bytes c @ [b]"
    unfolding c1(4) [symmetric] using c1(2,3) n1 by (simp add: open_bytes_def take_Suc_conv_app_nth)
  define c3 where "c3 = clk_onset us ?c2"
  obtain x y where shape: "c3 = ?c2\<lparr>us_reads := x, burstOnset := y\<rparr>"
  proof (cases "burstN ?c2 = ONSET_N")
    case True
    then show ?thesis using that by (simp add: c3_def clk_onset_def clk_micros_def Let_def)
  next
    case False
    then show ?thesis using that [of "burstOnset ?c2" "us_reads ?c2"] by (simp add: c3_def clk_onset_def)
  qed
  have c3: "burstOpen c3" "unat (burstN c3) = Suc ?n" "length (burstBuf c3) = 768" "open_bytes c3 = open_bytes c @ [b]"
    "clk_ring c3 = clk_ring c" "clk_ovfPioc c3 = clk_ovfPioc c" "clk_ovfRam c3 = clk_ovfRam c"
    "burstNeedTerminal c3 = burstNeedTerminal c" "same_regs c c3" "tailBits c3 = 0"
    "clk_sniffTail c3 = clk_sniffTail c + 1" "clk_DR c3 = clk_DR c"
    unfolding shape using c1 n1 ob2 by (simp_all add: same_regs_def open_bytes_def)
  have run: "clk_byte us c = clk_split us c3"
    by (simp add: clk_byte_def Let_def app c3_def flip: b_def c1_def)
  have wf: "ring_wf (clk_ring c)" "ring_len (clk_ring c) = 2048" "length (clk_DR c) = 64"
    using assms(1) by (simp_all add: clk_ok_def)
  have a3: "acct c [b] [] c3" using c3 by (intro acct_none) simp_all
  show ?thesis
  proof (cases "Suc ?n = 768")
    case True
    let ?c4 = "c3\<lparr>us_reads := us_reads c3 + 1, burstLast := us (us_reads c3)\<rparr>"
    have pre: "length (burstBuf ?c4) = 768" "unat (burstN ?c4) \<le> 768" "ring_wf (clk_ring ?c4)" "ring_len (clk_ring ?c4) = 2048"
      using c3 wf True by simp_all
    have "clk_split us c3 = Some (rec_done True ?c4)"
      using True c3(1,2) emitRecord_run [OF pre, of True]
      by (simp add: clk_split_def clk_micros_def Let_def BURST_MAX_def word_le_nat_alt)
    moreover have "clk_ok (rec_done True ?c4)"
      using c3 wf True by (intro rec_done_ok) simp_all
    moreover have "acct c [b] [(rec_frame True ?c4, rec_fits True ?c4)] (rec_done True ?c4)"
    proof -
      have "acct c [b] [] ?c4" using c3 by (intro acct_none) (simp_all add: open_bytes_def)
      from acct_trans [OF this rec_done_acct [OF pre(3,4,2,1), of True]] show ?thesis by simp
    qed
    moreover have "whole [(rec_frame True ?c4, rec_fits True ?c4)]"
      using rec_flags_bits(3) [of True ?c4] c3(10) by (simp add: whole_def rec_frame_def)
    moreover have "same_regs c (rec_done True ?c4)" "clk_sniffTail (rec_done True ?c4) = clk_sniffTail c + 1"
      using c3(9,11) by (simp_all add: same_regs_def)
    ultimately show ?thesis using run by metis
  next
    case False
    then have lt: "Suc ?n < 768" using c1(2) by simp
    then have "clk_split us c3 = Some c3"
      using c3(2) by (simp add: clk_split_def BURST_MAX_def word_le_nat_alt)
    moreover have "clk_ok c3" using c3 wf lt by (simp add: clk_ok_def)
    ultimately show ?thesis using run a3 c3(9,11) by (metis whole_append(2))
  qed
qed

text \<open>The FIFO: \<open>w\<close> is every byte produced since the PIOC program started, byte \<open>p\<close> in slot \<open>p mod 16\<close>.\<close>

definition clk_fifo :: "u8 list \<Rightarrow> clk \<Rightarrow> bool" where
  "clk_fifo w c \<longleftrightarrow> length (clk_DR c) = 64 \<and> clk_DR c ! CLK_HEAD = of_nat (length w)
     \<and> (\<forall>p < length w. length w \<le> p + 16 \<longrightarrow> clk_DR c ! (0x20 + p mod 16) = w ! p)"

lemma clk_slot: "unat ((of_nat p :: u8) AND (CLK_SLOTS - 1)) = p mod 16"
proof -
  have m: "CLK_SLOTS - 1 = mask 4" by (simp add: CLK_SLOTS_def mask_eq_exp_minus_1)
  have "unat ((of_nat p :: u8) AND mask 4) = take_bit 4 (unat (of_nat p :: u8))"
    by (simp only: take_bit_eq_mask [symmetric] unsigned_take_bit_eq)
  then show ?thesis unfolding m by (simp add: take_bit_eq_mod unat_of_nat mod_mod_cancel)
qed

lemma clk_drain_spec:
  assumes "clk_ok c" "clk_fifo w c" "clk_sniffTail c = of_nat C" "C + n = length w" "n \<le> 16"
  shows "\<exists>recs c'. clk_drain us (of_nat (length w)) c = Some c' \<and> clk_ok c' \<and> acct c (drop C w) recs c' \<and> whole recs
    \<and> same_regs c c' \<and> clk_sniffTail c' = of_nat (length w)"
  using assms
proof (induction n arbitrary: C c)
  case 0
  then have "clk_drain us (of_nat (length w)) c = Some c" by (simp add: clk_drain.simps [of us _ c])
  then show ?case
    using 0 by (intro exI [of _ "[]"] exI [of _ c]) (simp add: acct_none same_regs_def)
next
  case (Suc n)
  have ne: "clk_sniffTail c \<noteq> of_nat (length w)"
  proof
    assume "clk_sniffTail c = of_nat (length w)"
    then have "(of_nat C :: u8) = of_nat C + of_nat (Suc n)" using Suc.prems(3,4) by (metis of_nat_add)
    then have "(of_nat (Suc n) :: u8) = 0" by (metis add_cancel_right_right)
    then have "unat (of_nat (Suc n) :: u8) = 0" by simp
    then show False using Suc.prems(5) by (simp add: unat_of_nat del: of_nat_Suc)
  qed
  have val: "clk_DR c ! (0x20 + unat (clk_sniffTail c AND (CLK_SLOTS - 1))) = w ! C"
    using Suc.prems(2-5) by (simp add: clk_slot clk_fifo_def)
  obtain r1 c1 where b: "clk_byte us c = Some c1" "clk_ok c1" "acct c [w ! C] r1 c1" "whole r1" "same_regs c c1"
    "clk_sniffTail c1 = clk_sniffTail c + 1"
    using clk_byte_spec [OF Suc.prems(1), of us] unfolding val by blast
  have "clk_fifo w c1" "clk_sniffTail c1 = of_nat (Suc C)" "Suc C + n = length w" "n \<le> 16"
    using Suc.prems b(5,6) by (simp_all add: clk_fifo_def same_regs_def)
  from Suc.IH [OF b(2) this] obtain r2 c2 where d: "clk_drain us (of_nat (length w)) c1 = Some c2" "clk_ok c2"
    "acct c1 (drop (Suc C) w) r2 c2" "whole r2" "same_regs c1 c2" "clk_sniffTail c2 = of_nat (length w)"
    by blast
  have "[w ! C] @ drop (Suc C) w = drop C w"
    using Suc.prems(4) by (simp add: Cons_nth_drop_Suc)
  then have "acct c (drop C w) (r1 @ r2) c2" using acct_trans [OF b(3) d(3)] by simp
  moreover have "clk_drain us (of_nat (length w)) c = Some c2"
    using ne b(1) d(1) by (simp add: clk_drain.simps [of us _ c])
  ultimately show ?case
    using b(4) d same_regs_trans [OF b(5) d(5)] by (metis whole_append(1))
qed

end
