(* ===== verification/ClockedService.thy ===== *)
theory ClockedService
  imports ClockedBurst
begin

text \<open>
  One service call of the clocked datapath as a whole: PIOC FIFO, partial byte, burst, RAM ring, USB
  stream, and what the host reads at the other end.
\<close>

subsection \<open>The partial byte\<close>

text \<open>
  The PIOC shifts bits into an accumulator seeded with 1; \<open>acc_of\<close> is its value after the bits \<open>bs\<close>,
  first bit first.
\<close>

definition acc_of :: "bool list \<Rightarrow> u8" where
  "acc_of bs = of_nat (foldl (\<lambda>a b. 2 * a + of_bool b) 1 bs)"

lemma acc_fold: "foldl (\<lambda>a b. 2 * a + of_bool b) m bs = m * 2 ^ length bs + horner_sum of_bool 2 (rev bs)" for m :: nat
  by (induction bs arbitrary: m) (simp_all add: algebra_simps horner_sum_append)

lemma horner_bits_lt: "horner_sum of_bool (2 :: nat) bs < 2 ^ length bs"
  by (induction bs) (auto simp: algebra_simps)

lemma sentinel_position:
  assumes "2 ^ k \<le> unat v" "unat v < 2 ^ Suc k"
  shows "sentinel_loop v j = j + of_nat k"
  using assms
proof (induction k arbitrary: v j)
  case 0
  then have "unat v = 1" by simp
  then have "drop_bit 1 v = 0" by (simp add: drop_bit_eq_div unat_div word_unat_eq_iff)
  then show ?case by (simp add: sentinel_loop.simps [of v])
next
  case (Suc k)
  have u: "unat (drop_bit 1 v) = unat v div 2" by (simp add: drop_bit_eq_div unat_div)
  have "2 ^ k \<le> unat (drop_bit 1 v)" "unat (drop_bit 1 v) < 2 ^ Suc k" using Suc.prems unfolding u by simp_all
  moreover from this(1) have "drop_bit 1 v \<noteq> 0" by (metis le_zero_eq power_eq_0_iff unat_0 zero_neq_numeral)
  ultimately show ?case using Suc.IH by (simp add: sentinel_loop.simps [of v] Let_def)
qed

lemma sentinel_bound: "unat (sentinel_loop v 0) \<le> 7"
proof (cases "v = 0")
  case True
  then show ?thesis by (simp add: sentinel_loop.simps [of 0])
next
  case False
  have "1 \<le> unat v" using False by (simp add: unat_gt_0 Suc_le_eq)
  from ex_power_ivl1 [OF order_refl this] obtain k where b: "2 ^ k \<le> unat v" "unat v < 2 ^ Suc k" by auto
  have "(2 :: nat) ^ k < 2 ^ 8" using b(1) unat_u8_lt [of v] by simp
  then have "k < 8" by (rule power_less_imp_less_exp [rotated]) simp
  then show ?thesis using sentinel_position [OF b, of 0] by (simp add: unat_of_nat)
qed

lemma acc_of_value:
  assumes "length bs \<le> 7"
  shows "unat (acc_of bs) = 2 ^ length bs + horner_sum of_bool 2 (rev bs)"
proof -
  have "(2 :: nat) ^ Suc (length bs) \<le> 2 ^ 8" using assms by (intro power_increasing) simp_all
  then have "2 ^ length bs + horner_sum of_bool 2 (rev bs) < (2 :: nat) ^ 8"
    using horner_bits_lt [of "rev bs"] by simp
  then show ?thesis unfolding acc_of_def acc_fold by (simp only: unat_of_nat) simp
qed

lemma acc_of_sentinel:
  assumes "length bs \<le> 7"
  shows "sentinel_loop (acc_of bs) 0 = of_nat (length bs)"
proof -
  have "2 ^ length bs \<le> unat (acc_of bs)" "unat (acc_of bs) < 2 ^ Suc (length bs)"
    using acc_of_value [OF assms] horner_bits_lt [of "rev bs"] by simp_all
  then show ?thesis using sentinel_position by simp
qed

lemma flush_acc_of:
  assumes "length bs \<le> 7" "i < 8"
  shows "bit (flush_byte (acc_of bs) (of_nat (length bs))) (7 - i) \<longleftrightarrow> i < length bs \<and> bs ! i"
proof -
  let ?k = "length bs"
  have k: "unat (of_nat ?k :: u8) = ?k" using assms(1) by (simp add: unat_of_nat)
  have mask: "(push_bit ?k 1 - 1 :: u32) = mask ?k" by (simp add: mask_eq_exp_minus_1 push_bit_eq_mult)
  have acc: "bit (acc_of bs) j \<longleftrightarrow> rev bs ! j" if "j < ?k" for j
  proof -
    have "bit (acc_of bs) j \<longleftrightarrow> bit (unat (acc_of bs)) j" by (simp add: bit_unsigned_iff)
    also have "\<dots> \<longleftrightarrow> bit (take_bit ?k (unat (acc_of bs))) j" using that by (simp add: bit_take_bit_iff)
    also have "take_bit ?k (unat (acc_of bs)) = horner_sum of_bool 2 (rev bs)"
      using acc_of_value [OF assms(1)] horner_bits_lt [of "rev bs"] by (simp add: take_bit_eq_mod)
    also have "bit (horner_sum of_bool (2 :: nat) (rev bs)) j \<longleftrightarrow> rev bs ! j"
      using that by (simp add: bit_horner_sum_bit_iff)
    finally show ?thesis .
  qed
  have "bit (flush_byte (acc_of bs) (of_nat ?k)) (7 - i)
      \<longleftrightarrow> 8 - ?k \<le> 7 - i \<and> 7 - i - (8 - ?k) < ?k \<and> bit (acc_of bs) (7 - i - (8 - ?k))"
    using assms unfolding flush_byte_def k mask
    by (auto simp: bit_simps)
  also have "\<dots> \<longleftrightarrow> i < ?k \<and> bs ! i"
  proof (cases "i < ?k")
    case True
    then have "7 - i - (8 - ?k) = ?k - 1 - i" "?k - 1 - i < ?k" "8 - ?k \<le> 7 - i" using assms by auto
    then show ?thesis using True acc [of "?k - 1 - i"] by (simp add: rev_nth)
  next
    case False
    then show ?thesis using assms by auto
  qed
  finally show ?thesis .
qed

subsection \<open>Stage 1\<close>

definition owed :: "nat \<Rightarrow> clk \<Rightarrow> clk" where
  "owed g c = (if g > 16 then c\<lparr>clk_ovfPioc := clk_ovfPioc c + 1\<rparr> else c)"

lemma clk_stage1_spec:
  assumes "clk_ok c" "clk_fifo w c" "clk_sniffTail c = of_nat C" "C \<le> length w" "length w - C < 256"
  defines "g \<equiv> length w - C"
  shows "\<exists>recs c'. clk_stage1 us nowMs c = Some c' \<and> clk_ok c'
    \<and> acct (owed g c) (drop (length w - min g 16) w) recs c' \<and> whole recs
    \<and> clk_DR c' = clk_DR c \<and> resets c' = resets c \<and> clk_sniffTail c' = of_nat (length w)"
proof -
  have h: "clk_DR c ! CLK_HEAD = of_nat (length w)" using assms(2) by (simp add: clk_fifo_def)
  have gap: "(of_nat (length w) :: u8) - clk_sniffTail c = of_nat g"
    using assms(3,4) by (simp add: g_def of_nat_diff)
  have cond: "(of_nat g :: u8) > CLK_SLOTS \<longleftrightarrow> g > 16"
    using assms(5) by (simp add: word_less_nat_alt unat_of_nat CLK_SLOTS_def g_def)
  define c0 where "c0 = clk_overrun (of_nat (length w)) c"
  let ?C = "length w - min g 16"
  have c0_eq: "c0 = (if g > 16 then c\<lparr>clk_ovfPioc := clk_ovfPioc c + 1, clk_sniffTail := of_nat (length w) - CLK_SLOTS\<rparr> else c)"
    unfolding c0_def clk_overrun_def gap cond ..
  have c0: "c0 = (owed g c)\<lparr>clk_sniffTail := of_nat ?C\<rparr>"
  proof (cases "g > 16")
    case True
    then have "16 \<le> length w" by (simp add: g_def)
    then have "(of_nat (length w) :: u8) - CLK_SLOTS = of_nat (length w - 16)"
      by (simp add: CLK_SLOTS_def of_nat_diff)
    then show ?thesis using True by (simp add: c0_eq owed_def)
  next
    case False
    then have "?C = C" using assms(4) by (simp add: g_def)
    then show ?thesis using False assms(3) by (simp add: c0_eq owed_def)
  qed
  have pre: "clk_ok c0" "clk_fifo w c0" "clk_sniffTail c0 = of_nat ?C" "?C + min g 16 = length w" "min g 16 \<le> 16"
    using assms(1,2) by (auto simp: c0 owed_def clk_ok_def clk_fifo_def g_def)
  from clk_drain_spec [OF pre, of us] obtain recs c1 where d: "clk_drain us (of_nat (length w)) c0 = Some c1"
    "clk_ok c1" "acct c0 (drop ?C w) recs c1" "whole recs" "same_regs c0 c1" "clk_sniffTail c1 = of_nat (length w)"
    by blast
  have acct0: "acct (owed g c) (drop ?C w) recs c1"
    using d(3) by (simp add: acct_def c0 open_bytes_def)
  let ?got = "clk_sniffTail c0 \<noteq> of_nat (length w)"
  let ?c2 = "if ?got then c1\<lparr>us_reads := us_reads c1 + 1, burstLast := us (us_reads c1), clk_sniffLastMs := nowMs\<rparr> else c1"
  have "clk_stage1 us nowMs c = Some ?c2"
    by (simp add: clk_stage1_def Let_def h d(1) clk_micros_def flip: c0_def)
  moreover have "clk_ok ?c2" using d(2) by (simp add: clk_ok_def)
  moreover have "acct (owed g c) (drop ?C w) recs ?c2" using acct0 by (simp add: acct_def open_bytes_def)
  moreover have "clk_DR ?c2 = clk_DR c" "resets ?c2 = resets c" "clk_sniffTail ?c2 = of_nat (length w)"
    using d(5,6) by (simp_all add: same_regs_def c0 owed_def)
  ultimately show ?thesis using d(4) by blast
qed

subsection \<open>The end of a burst\<close>

lemma clk_close_spec:
  fixes acc kbits :: u8
  assumes "clk_ok c" "unat kbits \<le> 7"
  defines "tail \<equiv> (if kbits \<noteq> 0 then [flush_byte acc kbits] else [])"
  shows "\<exists>f d c'. clk_close P us acc kbits c = Some c' \<and> clk_ok c' \<and> acct c tail [(f, d)] c'
    \<and> flags_of f AND 0x38 = push_bit 3 kbits \<and> clk_DR c' = clk_DR c
    \<and> (if kbits \<noteq> 0 then resets c' = resets c + 1 \<and> clk_sniffTail c' = 0
       else resets c' = resets c \<and> clk_sniffTail c' = clk_sniffTail c)
    \<and> \<not> burstOpen c' \<and> (d \<longrightarrow> \<not> burstNeedTerminal c')"
proof -
  have ok: "length (burstBuf c) = 768" "unat (burstN c) < 768" "ring_wf (clk_ring c)" "ring_len (clk_ring c) = 2048"
    "length (clk_DR c) = 64" "tailBits c = 0" "\<not> burstOpen c \<longrightarrow> burstN c = 0"
    using assms(1) by (simp_all add: clk_ok_def)
  have n1: "unat (burstN c + 1) = Suc (unat (burstN c))" using ok(2) by (simp add: unat_word_ariths)
  define c1 where "c1 = (if kbits \<noteq> 0
    then c\<lparr>burstBuf := (burstBuf c)[unat (burstN c) := flush_byte acc kbits], burstN := burstN c + 1, tailBits := kbits\<rparr>
    else c)"
  have step1: "(if kbits \<noteq> 0 \<and> burstN c < BURST_MAX
      then map_option (\<lambda>buf. c\<lparr>burstBuf := buf, burstN := burstN c + 1, tailBits := kbits\<rparr>)
             (put (burstBuf c) (unat (burstN c)) (flush_byte acc kbits))
      else Some c) = Some c1"
    using ok(1,2) by (simp add: c1_def put_def BURST_MAX_def word_less_nat_alt)
  have c1: "length (burstBuf c1) = 768" "unat (burstN c1) \<le> 768" "open_bytes c1 = open_bytes c @ tail"
    "tailBits c1 = kbits" "clk_ring c1 = clk_ring c" "clk_ovfPioc c1 = clk_ovfPioc c" "clk_ovfRam c1 = clk_ovfRam c"
    "burstNeedTerminal c1 = burstNeedTerminal c" "clk_DR c1 = clk_DR c" "resets c1 = resets c"
    "clk_sniffTail c1 = clk_sniffTail c"
    using ok n1 by (simp_all add: c1_def tail_def open_bytes_def take_Suc_conv_app_nth)
  define c2 where "c2 = (if burstOpen c1 then c1 else let (t, c) = clk_micros us c1
      in c\<lparr>burstOpen := True, burstLast := t, burstT0 := t, burstOnset := 0\<rparr>)"
  have c2: "length (burstBuf c2) = 768" "unat (burstN c2) \<le> 768" "open_bytes c2 = open_bytes c @ tail"
    "tailBits c2 = kbits" "clk_ring c2 = clk_ring c" "clk_ovfPioc c2 = clk_ovfPioc c" "clk_ovfRam c2 = clk_ovfRam c"
    "burstNeedTerminal c2 = burstNeedTerminal c" "clk_DR c2 = clk_DR c" "resets c2 = resets c"
    "clk_sniffTail c2 = clk_sniffTail c" "burstOpen c2"
    using c1 by (simp_all add: c2_def clk_micros_def open_bytes_def)
  have wf2: "ring_wf (clk_ring c2)" "ring_len (clk_ring c2) = 2048" using c2(5) ok(3,4) by simp_all
  have em: "emitRecord False c2 = Some (rec_done False c2)"
    using emitRecord_run [OF c2(1,2) wf2] c2(12) by blast
  let ?c3 = "(rec_done False c2)\<lparr>tailBits := 0\<rparr>"
  define c4 where "c4 = (if kbits \<noteq> 0 then (restartPioc P ?c3)\<lparr>clk_sniffTail := 0, partialSeenBits := 0\<rparr> else ?c3)"
  have run: "clk_close P us acc kbits c = Some c4"
    unfolding clk_close_def step1 bind.bind_lunit Let_def
    by (simp add: em c4_def flip: c2_def [unfolded Let_def])
  note rd = rec_done_ring [OF wf2 c2(2,1), of False]
  have "clk_ok c4"
    using rd(2,3) c2(1,9) ok(5) by (simp add: c4_def restartPioc_def clk_ok_def Let_def)
  moreover have "acct c tail [(rec_frame False c2, rec_fits False c2)] c4"
  proof -
    have "acct c tail [] c2" using c2 by (intro acct_none) simp_all
    from acct_trans [OF this rec_done_acct [OF wf2 c2(2,1), of False]]
    have "acct c tail [(rec_frame False c2, rec_fits False c2)] (rec_done False c2)" by simp
    then show ?thesis by (simp add: acct_def c4_def restartPioc_def Let_def open_bytes_def)
  qed
  moreover have "kbits AND 7 = kbits"
  proof -
    have "unat (take_bit 3 kbits) = unat kbits"
      using assms(2) by (simp only: unsigned_take_bit_eq) (simp add: take_bit_eq_mod)
    then have "take_bit 3 kbits = kbits" by (simp add: word_unat_eq_iff)
    moreover have "(7 :: u8) = mask 3" by (simp add: mask_eq_exp_minus_1)
    ultimately show ?thesis by (simp only: take_bit_eq_mask)
  qed
  then have "flags_of (rec_frame False c2) AND 0x38 = push_bit 3 kbits"
    using rec_flags_bits(3) [of False c2] c2(4) by (simp add: rec_frame_def)
  moreover have "clk_DR c4 = clk_DR c" "\<not> burstOpen c4" "rec_fits False c2 \<longrightarrow> \<not> burstNeedTerminal c4"
    using c2 by (simp_all add: c4_def restartPioc_def Let_def) (simp add: rec_done_def)
  moreover have "if kbits \<noteq> 0 then resets c4 = resets c + 1 \<and> clk_sniffTail c4 = 0
       else resets c4 = resets c \<and> clk_sniffTail c4 = clk_sniffTail c"
    using c2 by (simp add: c4_def restartPioc_def Let_def)
  ultimately show ?thesis using run by blast
qed

definition flushed :: "u8 \<Rightarrow> u8 \<Rightarrow> clk \<Rightarrow> u8 list \<Rightarrow> (frame \<times> bool) list \<Rightarrow> clk \<Rightarrow> bool" where
  "flushed acc kbits c tail recs c' \<longleftrightarrow>
     (tail = [] \<and> whole recs \<and> resets c' = resets c \<and> clk_sniffTail c' = clk_sniffTail c)
     \<or> (kbits \<noteq> 0 \<and> tail = [flush_byte acc kbits] \<and> resets c' = resets c + 1 \<and> clk_sniffTail c' = 0
        \<and> recs \<noteq> [] \<and> whole (butlast recs) \<and> flags_of (fst (last recs)) AND 0x38 = push_bit 3 kbits)"

lemma clk_finalize_spec:
  assumes "clk_ok c" "unat kbits \<le> 7"
  shows "\<exists>recs tail c'. clk_finalize P us nowMs acc kbits c = Some c' \<and> clk_ok c' \<and> acct c tail recs c'
    \<and> flushed acc kbits c tail recs c' \<and> clk_DR c' = clk_DR c"
proof -
  let ?c1 = "if burstOpen c then c\<lparr>us_reads := us_reads c + 1\<rparr> else c"
  have c1: "clk_ok ?c1" "acct ?c1 = acct c" "clk_DR ?c1 = clk_DR c" "resets ?c1 = resets c"
    "clk_sniffTail ?c1 = clk_sniffTail c" "burstOpen ?c1 = burstOpen c"
    using assms(1) by (auto simp: clk_ok_def acct_def open_bytes_def fun_eq_iff)
  have cases: "clk_finalize P us nowMs acc kbits c = Some c \<or> clk_finalize P us nowMs acc kbits c = Some ?c1
    \<or> clk_finalize P us nowMs acc kbits c = clk_close P us acc kbits ?c1
    \<or> burstOpen c \<and> clk_finalize P us nowMs acc kbits c = emitRecord False ?c1"
    by (simp add: clk_finalize_def clk_micros_def Let_def)
  have none: "acct c [] [] c" "acct c [] [] ?c1" by (intro acct_none; simp add: open_bytes_def)+
  from cases consider (a) "clk_finalize P us nowMs acc kbits c = Some c"
    | (b) "clk_finalize P us nowMs acc kbits c = Some ?c1"
    | (d) "clk_finalize P us nowMs acc kbits c = clk_close P us acc kbits ?c1"
    | (e) "burstOpen c" "clk_finalize P us nowMs acc kbits c = emitRecord False ?c1"
    by blast
  then show ?thesis
  proof cases
    case a
    moreover have "flushed acc kbits c [] [] c" by (simp add: flushed_def)
    ultimately show ?thesis using assms(1) none(1) by blast
  next
    case b
    moreover have "flushed acc kbits c [] [] ?c1" by (simp add: flushed_def)
    ultimately show ?thesis using c1(1,3) none(2) by blast
  next
    case d
    from clk_close_spec [OF c1(1) assms(2), of P us acc] obtain f s c' where
      r: "clk_close P us acc kbits ?c1 = Some c'" "clk_ok c'"
      "acct c (if kbits \<noteq> 0 then [flush_byte acc kbits] else []) [(f, s)] c'"
      "flags_of f AND 0x38 = push_bit 3 kbits" "clk_DR c' = clk_DR c"
      "if kbits \<noteq> 0 then resets c' = resets c + 1 \<and> clk_sniffTail c' = 0
       else resets c' = resets c \<and> clk_sniffTail c' = clk_sniffTail c"
      unfolding c1(2-5) by blast
    have "flushed acc kbits c (if kbits \<noteq> 0 then [flush_byte acc kbits] else []) [(f, s)] c'"
      using r(4,6) by (simp add: flushed_def whole_def)
    then show ?thesis using d r by metis
  next
    case e
    have ok: "length (burstBuf ?c1) = 768" "unat (burstN ?c1) \<le> 768" "ring_wf (clk_ring ?c1)"
      "ring_len (clk_ring ?c1) = 2048" "length (clk_DR ?c1) = 64" "tailBits ?c1 = 0"
      using c1(1) unfolding clk_ok_def by linarith+
    have run: "emitRecord False ?c1 = Some (rec_done False ?c1)"
      using emitRecord_run [OF ok(1-4)] e(1) c1(6) by blast
    have "whole [(rec_frame False ?c1, rec_fits False ?c1)]"
      using rec_flags_bits(3) [of False ?c1] ok(6) by (simp add: whole_def rec_frame_def)
    then have "flushed acc kbits c [] [(rec_frame False ?c1, rec_fits False ?c1)] (rec_done False ?c1)"
      using c1(4,5) by (simp add: flushed_def)
    moreover have "acct c [] [(rec_frame False ?c1, rec_fits False ?c1)] (rec_done False ?c1)"
      using rec_done_acct [OF ok(3,4,2,1), of False] unfolding c1(2) .
    moreover have "clk_DR (rec_done False ?c1) = clk_DR c" using c1(3) by simp
    ultimately show ?thesis using e(2) run rec_done_ok [OF ok(3,4,2,1,5,6), of False] by metis
  qed
qed

subsection \<open>Stage 2\<close>

lemma clk_copy_spec:
  assumes "sdk_ok K" "irq_ok K" "draining R K s0 dst outs (length src + room) u"
  shows "\<exists>u'. clk_copy K dst (length outs) src u = Some u' \<and> draining R K s0 dst (outs @ src) room u'"
  using assms(3)
proof (induction src arbitrary: outs u)
  case (Cons b src)
  obtain u1 where u1: "(if length outs mod CLK_PUMP_EVERY = 0 then pump K u else Some u) = Some u1"
    "draining R K s0 dst outs (Suc (length src + room)) u1"
  proof (cases "length outs mod CLK_PUMP_EVERY = 0")
    case True
    then show ?thesis using that draining_pump [OF assms(1,2) Cons.prems] by auto
  next
    case False
    then show ?thesis using that [of u] Cons.prems by simp
  qed
  from draining_poke [OF u1(2), of b] obtain u2 where u2: "tx_poke (dst + length outs) b u1 = Some u2"
    "draining R K s0 dst (outs @ [b]) (length src + room) u2" by blast
  from Cons.IH [OF u2(2)] obtain u3 where "clk_copy K dst (length (outs @ [b])) src u2 = Some u3"
    "draining R K s0 dst ((outs @ [b]) @ src) room u3" by blast
  then show ?case using u1(1) u2(1) by simp
qed simp

lemma clk_stage2_spec:
  assumes "sdk_ok K" "irq_ok K" "rx_inv R K u" "ring_wf (clk_ring c)" "ring_len (clk_ring c) = 2048"
  shows "\<exists>r u'. clk_stage2 K c u = Some (c\<lparr>clk_ring := r\<rparr>, u') \<and> rx_inv R K u' \<and> ring_wf r \<and> ring_len r = 2048
    \<and> usb_stream u' @ ring_list r = usb_stream u @ ring_list (clk_ring c)"
proof -
  define b0 where "b0 = (ucast (usb_writeSpace u) :: u16)"
  define budget where "budget = (if b0 > DRAIN_MAX then DRAIN_MAX else b0)"
  define n0 where "n0 = (if clk_ringCount c > budget then budget else clk_ringCount c)"
  define srcCap where "srcCap = (ucast (ring_readContig (clk_ring c)) :: u16)"
  define n1 where "n1 = (if n0 > srcCap then srcCap else n0)"
  obtain dst cap where tx: "usb_txReserve u = (dst, cap)" by fastforce
  define n where "n = (if ucast n1 > cap then ucast cap else n1)"
  let ?src = "take (unat n) (drop (ring_readPtr (clk_ring c)) (r_buf (clk_ring c)))"
  have eq: "clk_stage2 K c u = (if budget = 0 \<or> n0 = 0 \<or> cap = 0 then Some (c, u)
    else do { u \<leftarrow> clk_copy K dst 0 ?src u;
              Some (c\<lparr>clk_ring := ring_readCommit (ucast n) (clk_ring c)\<rparr>, usb_txCommit (ucast n) u) })"
    unfolding clk_stage2_def Let_def tx prod.case b0_def [symmetric] budget_def [symmetric] n0_def [symmetric]
      srcCap_def [symmetric] n1_def [symmetric] n_def [symmetric] ..
  show ?thesis
  proof (cases "budget = 0 \<or> n0 = 0 \<or> cap = 0")
    case True
    then show ?thesis
      using eq assms(3-5) by (intro exI [of _ "clk_ring c"] exI [of _ u]) simp
  next
    case False
    have "unat (ring_size (clk_ring c)) \<le> 2048" using assms(4,5) by (simp add: ring_wf_def ring_fits_def)
    moreover have "ring_readContig (clk_ring c) \<le> ring_size (clk_ring c)"
      by (auto simp: ring_readContig_def Let_def not_less)
    ultimately have "unat (ring_readContig (clk_ring c)) < 65536" by (simp add: word_le_nat_alt)
    then have sc: "unat srcCap = unat (ring_readContig (clk_ring c))"
      by (simp add: srcCap_def unsigned_ucast_eq take_bit_nat_eq_self)
    have n_src: "unat n1 \<le> unat srcCap" by (auto simp: n1_def word_less_nat_alt)
    have n_cap: "unat n \<le> unat cap \<and> unat n \<le> unat n1"
    proof (cases "ucast n1 > cap")
      case True
      then have "unat cap < unat n1" by (simp add: word_less_nat_alt)
      then have "unat (ucast cap :: u16) = unat cap"
        using unat_u16_lt [of n1] by (simp add: unsigned_ucast_eq take_bit_nat_eq_self)
      then show ?thesis using True \<open>unat cap < unat n1\<close> by (simp add: n_def)
    next
      case False
      then show ?thesis by (simp add: n_def word_less_nat_alt)
    qed
    then have le: "unat n \<le> unat (ring_readContig (clk_ring c))" using n_src sc by simp
    note rc = ring_read_contig [OF assms(4) le]
    have len: "length ?src = unat n" using rc by simp
    have cn: "(ucast n :: u32) = of_nat (unat n)" by (metis of_nat_unat_ucast)
    have "draining R K u dst [] (unat cap) u" using draining_start [OF assms(3)] tx by simp
    then have "draining R K u dst [] (length ?src + (unat cap - unat n)) u" using len n_cap by simp
    from clk_copy_spec [OF assms(1,2) this] obtain u' where u': "clk_copy K dst 0 ?src u = Some u'"
      "draining R K u dst ?src (unat cap - unat n) u'" by auto
    note cm = draining_commit [OF u'(2)]
    have "unat (ucast n :: u32) \<le> unat (ring_size (clk_ring c))" using rc(2) by simp
    note rr = ring_readCommit_list [OF this]
    let ?r = "ring_readCommit (ucast n) (clk_ring c)" and ?u = "usb_txCommit (ucast n) u'"
    have cl: "of_nat (length ?src) = (ucast n :: u32)" unfolding len cn ..
    have st: "usb_stream ?u = usb_stream u @ take (unat n) (ring_list (clk_ring c))"
      using cm(2) [unfolded cl, unfolded rc(1)] by (simp only: usb_stream_def append_assoc)
    have "unat (ucast n :: u32) = unat n" by simp
    then have "ring_list ?r = drop (unat n) (ring_list (clk_ring c))" using rr(1) by metis
    then have f1: "usb_stream ?u @ ring_list ?r = usb_stream u @ ring_list (clk_ring c)" using st by simp
    have f2: "clk_stage2 K c u = Some (c\<lparr>clk_ring := ?r\<rparr>, ?u)"
      unfolding eq if_not_P [OF False] u'(1) by simp
    have f3: "rx_inv R K ?u" using cm(1) unfolding cl .
    have f4: "ring_wf ?r" by (rule rr(3) [OF assms(4)])
    have f5: "ring_len ?r = 2048" using assms(5) by simp
    show ?thesis by (rule exI [of _ ?r], rule exI [of _ ?u]) (intro conjI f1 f2 f3 f4 f5)
  qed
qed

subsection \<open>The mode marker\<close>

lemma clk_marker_ok: "printable CLK_MARKER" "CLK_MARKER \<noteq> []" "hd CLK_MARKER = 0x5B" "length CLK_MARKER = 21"
  by (simp_all add: CLK_MARKER_def printable_def)

lemma clk_marker_emit: "emit (FMeta (Some CLK_MARKER)) = 0xFE # CLK_MARKER @ [0xFE, 0xFF]"
  using clk_marker_ok by (simp add: emit_meta del: emit.simps)

text \<open>A block staged whole or not at all.\<close>

lemma clk_stage_block:
  assumes "ring_wf (clk_ring c)" "ring_len (clk_ring c) = 2048" "length e < 2 ^ 32"
  shows "\<exists>r. (if unat (clk_ringSpace c) \<ge> length e then clk_ringPush e c else c) = c\<lparr>clk_ring := r\<rparr>
    \<and> ring_wf r \<and> ring_len r = 2048 \<and> (ring_list r = ring_list (clk_ring c) @ e \<or> ring_list r = ring_list (clk_ring c))"
proof (cases "unat (clk_ringSpace c) \<ge> length e")
  case True
  note pa = ring_pushAll_list [OF disjI1 [OF assms(1)] assms(3)]
  have fits: "fst (ring_pushAll e (clk_ring c))" using pa(1) True clk_ring_free [OF assms(1,2)] assms(2) by simp
  then have "clk_ringPush e c = c\<lparr>clk_ring := snd (ring_pushAll e (clk_ring c))\<rparr>"
    by (simp add: clk_ringPush_def case_prod_beta)
  moreover have "ring_len (snd (ring_pushAll e (clk_ring c))) = 2048"
    using assms(2) by (simp add: ring_pushAll_def ring_copyIn_def Let_def)
  ultimately show ?thesis
    unfolding if_P [OF True] using pa(2,3) assms(1) fits by (intro exI [of _ "snd (ring_pushAll e (clk_ring c))"]) simp
next
  case False
  then show ?thesis using assms by (intro exI [of _ "clk_ring c"]) simp
qed

lemma clk_emitModeMarker_spec:
  assumes "ring_wf (clk_ring c)" "ring_len (clk_ring c) = 2048"
  shows "\<exists>mode r. clk_emitModeMarker c = Some (c\<lparr>clk_ring := r\<rparr>) \<and> ring_wf r \<and> ring_len r = 2048
    \<and> ring_list r = ring_list (clk_ring c) @ concat (map emit mode) \<and> mode \<in> {[], [FMeta (Some CLK_MARKER)]}"
proof -
  let ?e = "emit (FMeta (Some CLK_MARKER))"
  have len: "length ?e = length CLK_MARKER + 3" unfolding clk_marker_emit by simp
  have fit: "length CLK_MARKER + 3 \<le> length (replicate 40 (0 :: u8))" using clk_marker_ok(4) by simp
  have fm: "frameMeta (Some CLK_MARKER) (replicate 40 0)
      = Some (length ?e, ?e @ drop (length ?e) (replicate 40 0))"
    unfolding frameMeta_bytes [OF clk_marker_ok(1-3) fit] len clk_marker_emit by simp
  have run: "clk_emitModeMarker c = Some (if unat (clk_ringSpace c) \<ge> length ?e then clk_ringPush ?e c else c)"
    unfolding clk_emitModeMarker_def fm bind.bind_lunit prod.case using len by simp
  have "length ?e < 2 ^ 32" using len clk_marker_ok(4) by simp
  from clk_stage_block [OF assms this] obtain r where
    "(if unat (clk_ringSpace c) \<ge> length ?e then clk_ringPush ?e c else c) = c\<lparr>clk_ring := r\<rparr>" "ring_wf r" "ring_len r = 2048"
    "ring_list r = ring_list (clk_ring c) @ ?e \<or> ring_list r = ring_list (clk_ring c)" by blast
  then show ?thesis
    unfolding run
    by (intro exI [of _ "if ring_list r = ring_list (clk_ring c) then [] else [FMeta (Some CLK_MARKER)]"] exI [of _ r])
      (auto simp del: emit.simps)
qed

lemma clocked_service_facts:
  assumes "sdk_ok K" and "irq_ok K" and "rx_inv R K u" and "clk_ok c" and "clk_fifo w c"
    and "clk_sniffTail c = of_nat C" and "C \<le> length w" and "length w - C < 256"
  shows "\<exists>mode recs tail c' u'. clk_service K P us nowMs c u = Some (c', u') \<and> rx_inv R K u' \<and> clk_ok c'
    \<and> mode \<in> {[], [FMeta (Some CLK_MARKER)]}
    \<and> usb_stream u' @ ring_list (clk_ring c')
        = usb_stream u @ ring_list (clk_ring c) @ concat (map emit (mode @ map fst (filter snd recs)))
    \<and> open_bytes c @ drop (length w - min (length w - C) 16) w @ tail
        = concat (map (payload_of \<circ> fst) recs) @ open_bytes c'
    \<and> list_all (\<lambda>(f, _). \<exists>t d on fl p. f = FRecord t d on fl p \<and> length p \<le> 768) recs
    \<and> flags_ok (clk_ovfPioc c + (if length w - C > 16 then 1 else 0), clk_ovfRam c) recs
        (clk_ovfPioc c', clk_ovfRam c')
    \<and> burstNeedTerminal c' = need_after (burstNeedTerminal c) recs \<and> clk_DR c' = clk_DR c
    \<and> (tail = [] \<and> whole recs \<and> resets c' = resets c \<and> clk_sniffTail c' = of_nat (length w)
       \<or> (\<exists>kbits. kbits = sentinel_loop (clk_DR c ! CLK_ACC) 0 \<and> kbits \<noteq> 0
          \<and> tail = [flush_byte (clk_DR c ! CLK_ACC) kbits] \<and> resets c' = resets c + 1 \<and> clk_sniffTail c' = 0
          \<and> recs \<noteq> [] \<and> whole (butlast recs) \<and> flags_of (fst (last recs)) AND 0x38 = push_bit 3 kbits))"
proof -
  let ?g = "length w - C" and ?acc = "clk_DR c ! CLK_ACC"
  let ?kb = "sentinel_loop ?acc 0" and ?xs = "drop (length w - min (length w - C) 16) w"
  have wf: "ring_wf (clk_ring c)" "ring_len (clk_ring c) = 2048" using assms(4) by (simp_all add: clk_ok_def)
  obtain mode r hb where m: "(if passed nowMs (clk_modeHbMs c)
      then map_option (\<lambda>c. c\<lparr>clk_modeHbMs := nowMs + 1000\<rparr>) (clk_emitModeMarker c) else Some c)
      = Some (c\<lparr>clk_ring := r, clk_modeHbMs := hb\<rparr>)" "ring_wf r" "ring_len r = 2048"
    "ring_list r = ring_list (clk_ring c) @ concat (map emit mode)" "mode \<in> {[], [FMeta (Some CLK_MARKER)]}"
  proof (cases "passed nowMs (clk_modeHbMs c)")
    case True
    from clk_emitModeMarker_spec [OF wf] obtain mode r where
      e: "clk_emitModeMarker c = Some (c\<lparr>clk_ring := r\<rparr>)" "ring_wf r" "ring_len r = 2048"
      "ring_list r = ring_list (clk_ring c) @ concat (map emit mode)" "mode \<in> {[], [FMeta (Some CLK_MARKER)]}"
      by blast
    have "map_option (\<lambda>c. c\<lparr>clk_modeHbMs := nowMs + 1000\<rparr>) (clk_emitModeMarker c)
        = Some (c\<lparr>clk_ring := r, clk_modeHbMs := nowMs + 1000\<rparr>)"
      by (simp add: e(1))
    then show ?thesis using that e(2-5) True by presburger
  next
    case False
    have "c = c\<lparr>clk_ring := clk_ring c, clk_modeHbMs := clk_modeHbMs c\<rparr>" by simp
    then show ?thesis using that [where r = "clk_ring c" and hb = "clk_modeHbMs c" and mode = "[]"] wf False by simp
  qed
  let ?c0 = "c\<lparr>clk_ring := r, clk_modeHbMs := hb\<rparr>"
  have pre: "clk_ok ?c0" "clk_fifo w ?c0" "clk_sniffTail ?c0 = of_nat C"
    using assms(4-6) m(2,3) by (simp_all add: clk_ok_def clk_fifo_def)
  from clk_stage1_spec [OF pre assms(7,8), of us nowMs] obtain r1 c1 where s1:
    "clk_stage1 us nowMs ?c0 = Some c1" "clk_ok c1" "acct (owed ?g ?c0) ?xs r1 c1" "whole r1"
    "clk_DR c1 = clk_DR c" "resets c1 = resets c" "clk_sniffTail c1 = of_nat (length w)"
    by auto
  define c2 where "c2 = clk_partial nowMs ?kb c1"
  have c2: "clk_ok c2" "acct (owed ?g ?c0) ?xs r1 c2" "clk_DR c2 = clk_DR c" "resets c2 = resets c"
    "clk_sniffTail c2 = of_nat (length w)"
    using s1 by (simp_all add: c2_def clk_partial_def clk_ok_def acct_def open_bytes_def)
  from clk_finalize_spec [OF c2(1) sentinel_bound, of P us nowMs ?acc ?acc] obtain r2 tail c3 where f:
    "clk_finalize P us nowMs ?acc ?kb c2 = Some c3" "clk_ok c3" "acct c2 tail r2 c3"
    "flushed ?acc ?kb c2 tail r2 c3" "clk_DR c3 = clk_DR c"
    using c2(3) by auto
  have a: "acct (owed ?g ?c0) (?xs @ tail) (r1 @ r2) c3" by (rule acct_trans [OF c2(2) f(3)])
  have wf3: "ring_wf (clk_ring c3)" "ring_len (clk_ring c3) = 2048" using f(2) by (simp_all add: clk_ok_def)
  from clk_stage2_spec [OF assms(1-3) wf3] obtain r3 u' where s2:
    "clk_stage2 K c3 u = Some (c3\<lparr>clk_ring := r3\<rparr>, u')" "rx_inv R K u'" "ring_wf r3" "ring_len r3 = 2048"
    "usb_stream u' @ ring_list r3 = usb_stream u @ ring_list (clk_ring c3)"
    by blast
  let ?c' = "c3\<lparr>clk_ring := r3\<rparr>"
  have run: "clk_service K P us nowMs c u = Some (?c', u')"
    unfolding clk_service_def m(1) bind.bind_lunit s1(1) Let_def s1(5) c2_def [symmetric] f(1) s2(1) ..
  have o: "open_bytes (owed ?g ?c0) = open_bytes c" "clk_ring (owed ?g ?c0) = r"
    "clk_ovfPioc (owed ?g ?c0) = clk_ovfPioc c + (if ?g > 16 then 1 else 0)" "clk_ovfRam (owed ?g ?c0) = clk_ovfRam c"
    "burstNeedTerminal (owed ?g ?c0) = burstNeedTerminal c"
    by (simp_all add: owed_def open_bytes_def)
  note a' = a [unfolded acct_def o]
  have g1: "usb_stream u' @ ring_list (clk_ring ?c')
      = usb_stream u @ ring_list (clk_ring c) @ concat (map emit (mode @ map fst (filter snd (r1 @ r2))))"
    using a' s2(5) m(4) by simp
  have g2: "open_bytes c @ ?xs @ tail = concat (map (payload_of \<circ> fst) (r1 @ r2)) @ open_bytes ?c'"
    using a' by (simp add: open_bytes_def)
  have g3: "clk_ok ?c'" using f(2) s2(3,4) by (simp add: clk_ok_def)
  have g4: "list_all (\<lambda>(f, _). \<exists>t d on fl p. f = FRecord t d on fl p \<and> length p \<le> 768) (r1 @ r2)"
    using a' by blast
  have g5: "flags_ok (clk_ovfPioc c + (if ?g > 16 then 1 else 0), clk_ovfRam c) (r1 @ r2) (clk_ovfPioc ?c', clk_ovfRam ?c')"
    "burstNeedTerminal ?c' = need_after (burstNeedTerminal c) (r1 @ r2)" "clk_DR ?c' = clk_DR c"
    using a' f(5) by simp_all
  have g6: "tail = [] \<and> whole (r1 @ r2) \<and> resets ?c' = resets c \<and> clk_sniffTail ?c' = of_nat (length w)
       \<or> (\<exists>kbits. kbits = ?kb \<and> kbits \<noteq> 0 \<and> tail = [flush_byte ?acc kbits] \<and> resets ?c' = resets c + 1
          \<and> clk_sniffTail ?c' = 0 \<and> r1 @ r2 \<noteq> [] \<and> whole (butlast (r1 @ r2))
          \<and> flags_of (fst (last (r1 @ r2))) AND 0x38 = push_bit 3 kbits)"
    using f(4) s1(4) c2(4,5) by (auto simp: flushed_def butlast_append)
  show ?thesis
    by (rule exI [of _ mode], rule exI [of _ "r1 @ r2"], rule exI [of _ tail], rule exI [of _ ?c'], rule exI [of _ u'])
      (intro conjI run s2(2) g3 m(5) g1 g2 g4 g5 g6)
qed

subsection \<open>Properties\<close>

text \<open>
  C19. One service call of the clocked datapath accounts for every byte. The bytes of the open burst,
  then the newest 16 at most of those the PIOC produced since the last call, then the partial byte if
  the line went idle, are the payloads of the records cut in this call followed by the new open burst.
  The USB stream and the RAM ring together grow by exactly the frames of the staged records, behind at
  most one mode block. The loss bits of every record say whether a PIOC overrun or a dropped record was
  owed to the host at that point, and they are cleared only by a record that was staged. Only a flushed
  partial byte has its bit count in the flags, and then the PIOC was restarted.
\<close>

theorem clocked_service_stream:
  assumes "sdk_ok K" and "irq_ok K" and "rx_inv R K u" and "clk_ok c" and "clk_fifo w c"
    and "clk_sniffTail c = of_nat C" and "C \<le> length w" and "length w - C < 256"
  shows "\<exists>mode recs tail c' u'. clk_service K P us nowMs c u = Some (c', u') \<and> rx_inv R K u' \<and> clk_ok c'
    \<and> mode \<in> {[], [FMeta (Some CLK_MARKER)]}
    \<and> usb_stream u' @ ring_list (clk_ring c')
        = usb_stream u @ ring_list (clk_ring c) @ concat (map emit (mode @ map fst (filter snd recs)))
    \<and> open_bytes c @ drop (length w - min (length w - C) 16) w @ tail
        = concat (map (payload_of \<circ> fst) recs) @ open_bytes c'
    \<and> list_all (\<lambda>(f, _). \<exists>t d on fl p. f = FRecord t d on fl p \<and> length p \<le> 768) recs
    \<and> flags_ok (clk_ovfPioc c + (if length w - C > 16 then 1 else 0), clk_ovfRam c) recs
        (clk_ovfPioc c', clk_ovfRam c')
    \<and> burstNeedTerminal c' = need_after (burstNeedTerminal c) recs \<and> clk_DR c' = clk_DR c
    \<and> (tail = [] \<and> whole recs \<and> resets c' = resets c \<and> clk_sniffTail c' = of_nat (length w)
       \<or> (\<exists>kbits. kbits = sentinel_loop (clk_DR c ! CLK_ACC) 0 \<and> kbits \<noteq> 0
          \<and> tail = [flush_byte (clk_DR c ! CLK_ACC) kbits] \<and> resets c' = resets c + 1 \<and> clk_sniffTail c' = 0
          \<and> recs \<noteq> [] \<and> whole (butlast recs) \<and> flags_of (fst (last recs)) AND 0x38 = push_bit 3 kbits))"
  by (rule clocked_service_facts [OF assms])

lemma clk_static_ok: "clk_ok (clk_static (replicate 64 0))" "clk_fifo [] (clk_static (replicate 64 0))"
  "ring_list (clk_ring (clk_static (replicate 64 0))) = []"
  using ring_wf_static [of 11 "0 :: u8"]
  by (simp_all add: clk_static_def clk_ok_def clk_fifo_def CLK_RING_SZ_def BURST_MAX_def CLK_HEAD_def
      ring_list_def ring_size_def)

theorem clocked_service_stream_witness:
  "let u = (busReset wch usb_static)\<lparr>INT_FG := 0\<rparr>; c = clk_static (replicate 64 0);
       P = \<lparr>RB_MST_RESET = 2, RB_MST_IO_EN0 = 4, RB_MST_IO_EN1 = 8, RB_MST_CLK_GATE = 1\<rparr> in
   \<exists>(recs :: (frame \<times> bool) list) tail c' u'. clk_service wch P (\<lambda>_. 0) 5 c u = Some (c', u') \<and> clk_ok c'
     \<and> open_bytes c @ tail = concat (map (payload_of \<circ> fst) recs) @ open_bytes c'"
proof -
  let ?u = "(busReset wch usb_static)\<lparr>INT_FG := 0\<rparr>" and ?c = "clk_static (replicate 64 0)"
  have inv: "rx_inv False wch ?u" by (rule reset_rx_inv(1) [OF wch_ok usb_static_ok])
  have tail: "clk_sniffTail ?c = of_nat 0" by (simp add: clk_static_def)
  have zero: "0 \<le> length ([] :: u8 list)" "length ([] :: u8 list) - 0 < 256" by simp_all
  show ?thesis
    using clocked_service_stream [OF wch_ok wch_irq_ok inv clk_static_ok(1,2) tail zero,
        of "\<lparr>RB_MST_RESET = 2, RB_MST_IO_EN0 = 4, RB_MST_IO_EN1 = 8, RB_MST_CLK_GATE = 1\<rparr>" "\<lambda>_. 0" 5]
    unfolding Let_def drop_Nil append_Nil by (elim exE conjE) (intro exI conjI, assumption+)
qed

text \<open>
  C36. A byte that the clock left unfinished is recovered to the bit. The PIOC shifts up to seven bits
  into an accumulator seeded with 1; the position of that 1 is the number of bits, and the byte the
  service flushes holds exactly them, first bit highest, zeros below.
\<close>

theorem partial_bits_recovered:
  assumes "length bs \<le> 7" and "i < 8"
  shows "sentinel_loop (acc_of bs) 0 = of_nat (length bs)
    \<and> (bit (flush_byte (acc_of bs) (sentinel_loop (acc_of bs) 0)) (7 - i) \<longleftrightarrow> i < length bs \<and> bs ! i)"
  using acc_of_sentinel [OF assms(1)] flush_acc_of [OF assms] by simp

theorem partial_bits_recovered_witness:
  "sentinel_loop 0b1101 0 = 3 \<and> bit (flush_byte 0b1101 3) 7 \<and> \<not> bit (flush_byte 0b1101 3) 6"
proof -
  have "acc_of [True, False, True] = 0b1101" by (simp add: acc_of_def)
  note acc = this
  have k: "sentinel_loop 0b1101 0 = 3" using partial_bits_recovered [of "[True, False, True]" 0] by (simp add: acc)
  have "bit (flush_byte 0b1101 3) 7" using partial_bits_recovered [of "[True, False, True]" 0] by (simp add: acc k)
  moreover have "\<not> bit (flush_byte 0b1101 3) 6"
    using partial_bits_recovered [of "[True, False, True]" 1] by (simp add: acc k)
  ultimately show ?thesis using k by (intro conjI)
qed

end
