(* ===== verification/ClockedRun.thy ===== *)
theory ClockedRun
  imports ClockedService
begin

text \<open>
  Whole runs of the clocked datapath: the PIOC fills its FIFO, the main loop serves it, the host polls
  the USB endpoints, and at the far end the host takes the stream apart again.
\<close>

subsection \<open>The environment\<close>

text \<open>The PIOC stores one byte and publishes the new count.\<close>

definition clk_push :: "u8 list \<Rightarrow> u8 \<Rightarrow> clk \<Rightarrow> clk" where
  "clk_push w b c = c\<lparr>clk_DR := (clk_DR c)[0x20 + length w mod 16 := b, CLK_HEAD := of_nat (length w + 1)]\<rparr>"

fun clk_feed :: "u8 list \<Rightarrow> u8 list \<Rightarrow> clk \<Rightarrow> clk" where
  "clk_feed w [] c = c"
| "clk_feed w (b # bs) c = clk_feed (w @ [b]) bs (clk_push w b c)"

lemma clk_push_fifo:
  assumes "clk_fifo w c"
  shows "clk_fifo (w @ [b]) (clk_push w b c)"
proof -
  have len: "length (clk_DR c) = 64" using assms by (simp add: clk_fifo_def)
  have head: "CLK_HEAD \<noteq> 0x20 + n mod 16" for n :: nat
  proof -
    have "n mod 16 < 16" by simp
    then show ?thesis unfolding CLK_HEAD_def by linarith
  qed
  have "(clk_DR c)[0x20 + length w mod 16 := b, CLK_HEAD := of_nat (length w + 1)] ! (0x20 + p mod 16) = (w @ [b]) ! p"
    if p: "p < length w + 1" "length w + 1 \<le> p + 16" for p
  proof (cases "p = length w")
    case True
    have "length w mod 16 < 16" by simp
    then show ?thesis using len head [of "length w"] True by (simp add: nth_list_update)
  next
    case False
    then have lt: "p < length w" using p(1) by simp
    have "p mod 16 \<noteq> length w mod 16"
    proof
      assume "p mod 16 = length w mod 16"
      then have "16 dvd length w - p" using lt by (metis mod_eq_dvd_iff_nat less_imp_le)
      moreover have "0 < length w - p" "length w - p < 16" using lt p(2) by simp_all
      ultimately show False by (meson dvd_imp_le not_le)
    qed
    then show ?thesis using lt p(2) assms head [of p] by (simp add: clk_fifo_def nth_append nth_list_update)
  qed
  then show ?thesis using len by (simp add: clk_fifo_def clk_push_def CLK_HEAD_def)
qed

text \<open>Everything but the registers is as before.\<close>

definition regs_only :: "clk \<Rightarrow> clk \<Rightarrow> bool" where
  "regs_only c c' \<longleftrightarrow> c' = c\<lparr>clk_DR := clk_DR c'\<rparr> \<and> length (clk_DR c') = length (clk_DR c)"

lemma regs_only_upd: "regs_only c c' \<Longrightarrow> length d = length (clk_DR c') \<Longrightarrow> regs_only c (c'\<lparr>clk_DR := d\<rparr>)"
  unfolding regs_only_def by (elim conjE, erule ssubst) simp

lemma regs_only_same:
  assumes "regs_only c c'"
  shows "clk_ok c' \<longleftrightarrow> clk_ok c" "open_bytes c' = open_bytes c" "clk_ring c' = clk_ring c"
    "clk_ovfPioc c' = clk_ovfPioc c" "clk_ovfRam c' = clk_ovfRam c" "clk_sniffTail c' = clk_sniffTail c"
    "resets c' = resets c" "burstNeedTerminal c' = burstNeedTerminal c"
proof -
  obtain d where c': "c' = c\<lparr>clk_DR := d\<rparr>" "length d = length (clk_DR c)"
    using assms unfolding regs_only_def by metis
  show "clk_ok c' \<longleftrightarrow> clk_ok c" "open_bytes c' = open_bytes c" "clk_ring c' = clk_ring c"
    "clk_ovfPioc c' = clk_ovfPioc c" "clk_ovfRam c' = clk_ovfRam c" "clk_sniffTail c' = clk_sniffTail c"
    "resets c' = resets c" "burstNeedTerminal c' = burstNeedTerminal c"
    unfolding c'(1) using c'(2) by (simp_all add: clk_ok_def open_bytes_def)
qed

lemma clk_feed_spec:
  "clk_fifo w c \<Longrightarrow> clk_fifo (w @ bs) (clk_feed w bs c) \<and> regs_only c (clk_feed w bs c)"
proof (induction bs arbitrary: w c)
  case (Cons b bs)
  have "regs_only c (clk_push w b c)" by (simp add: regs_only_def clk_push_def)
  moreover have "regs_only (clk_push w b c) (clk_feed (w @ [b]) bs (clk_push w b c))"
    "clk_fifo (w @ b # bs) (clk_feed (w @ [b]) bs (clk_push w b c))"
    using Cons.IH [OF clk_push_fifo [OF Cons.prems, of b]] by simp_all
  ultimately show ?case unfolding regs_only_def clk_feed.simps by (metis clk.surjective clk.update_convs(1))
qed (simp add: regs_only_def)

subsection \<open>Runs\<close>

text \<open>
  One period: the bytes the PIOC completes, its accumulator when the main loop looks, the time, and the
  bus traffic until the next period. A reset of the PIOC restarts its program: the head is zero again.
\<close>

record period =
  p_bytes :: "u8 list"
  p_acc :: u8
  p_now :: u32
  p_bus :: "bus_op list"

fun clk_run ::
  "sdk \<Rightarrow> pioc_sdk \<Rightarrow> (nat \<Rightarrow> u32) \<Rightarrow> period list \<Rightarrow> u8 list \<Rightarrow> clk \<Rightarrow> usb \<Rightarrow> (clk \<times> usb) option" where
  "clk_run K P us [] w c u = Some (c, u)"
| "clk_run K P us (p # ps) w c u =
    (let c = clk_feed w (p_bytes p) c; c = c\<lparr>clk_DR := (clk_DR c)[CLK_ACC := p_acc p]\<rparr> in
     do {
       (c', u) \<leftarrow> clk_service K P us (p_now p) c u;
       (acc, rd, u) \<leftarrow> bus_run K (p_bus p) u;
       if resets c' = resets c then clk_run K P us ps (w @ p_bytes p) c' u
       else clk_run K P us ps [] (c'\<lparr>clk_DR := (clk_DR c')[CLK_HEAD := 0]\<rparr>) u })"

text \<open>What a period may add behind its bytes: nothing, or the flushed partial byte.\<close>

definition partial_ok :: "period \<Rightarrow> u8 list \<Rightarrow> bool" where
  "partial_ok p t \<longleftrightarrow> t = [] \<or> sentinel_loop (p_acc p) 0 \<noteq> 0 \<and> t = [flush_byte (p_acc p) (sentinel_loop (p_acc p) 0)]"

definition period_ok :: "sdk \<Rightarrow> period \<Rightarrow> bool" where
  "period_ok K p \<longleftrightarrow> length (p_bytes p) < 256 \<and> list_all (bus_idle_op False K) (p_bus p)"

fun is_record :: "frame \<Rightarrow> bool" where
  "is_record (FRecord t d on fl p) = True"
| "is_record f = False"

definition stream_ok :: "frame list \<Rightarrow> (frame \<times> bool) list \<Rightarrow> bool" where
  "stream_ok fs recs \<longleftrightarrow> filter is_record fs = map fst (filter snd recs)
     \<and> (\<forall>f \<in> set fs. is_record f \<or> f = FMeta (Some CLK_MARKER))
     \<and> list_all (\<lambda>(f, _). \<exists>t d on fl p. f = FRecord t d on fl p \<and> length p \<le> 768) recs"

lemma stream_ok_append: "stream_ok f1 r1 \<Longrightarrow> stream_ok f2 r2 \<Longrightarrow> stream_ok (f1 @ f2) (r1 @ r2)"
  by (auto simp: stream_ok_def)

lemma stream_ok_service:
  assumes "list_all (\<lambda>(f, _). \<exists>t d on fl p. f = FRecord t d on fl p \<and> length p \<le> 768) recs"
    "mode \<in> {[], [FMeta (Some CLK_MARKER)]}"
  shows "stream_ok (mode @ map fst (filter snd recs)) recs"
proof -
  have "\<forall>f \<in> set (map fst (filter snd recs)). is_record f"
    using assms(1) by (fastforce simp: list_all_iff)
  moreover from this have "filter is_record (map fst (filter snd recs)) = map fst (filter snd recs)"
    by (simp only: filter_True)
  moreover have "filter is_record mode = []" "\<forall>f \<in> set mode. f = FMeta (Some CLK_MARKER)"
    using assms(2) by auto
  ultimately have "filter is_record (mode @ map fst (filter snd recs)) = map fst (filter snd recs)"
    "\<forall>f \<in> set (mode @ map fst (filter snd recs)). is_record f \<or> f = FMeta (Some CLK_MARKER)"
    by (simp_all only: filter_append append_Nil set_append) blast
  then show ?thesis using assms(1) unfolding stream_ok_def by (intro conjI)
qed

definition no_loss :: "(frame \<times> bool) list \<Rightarrow> bool" where
  "no_loss recs \<longleftrightarrow> list_all (\<lambda>(f, staged). staged \<and> flags_of f AND 3 = 0) recs"

lemma flags_no_loss:
  assumes "flags_ok (0, 0) recs s" "list_all snd recs"
  shows "no_loss recs \<and> s = (0, 0)"
  using assms
proof (induction recs)
  case (Cons x recs)
  obtain f d where "x = (f, d)" by fastforce
  then show ?case using Cons by (simp add: no_loss_def)
qed (simp add: no_loss_def)

lemma append_join: "a @ b = r @ m \<Longrightarrow> m @ d = s @ e \<Longrightarrow> a @ b @ d = (r @ s) @ e"
  by (metis append_assoc)

lemma clk_run_spec:
  assumes "sdk_ok K" "irq_ok K"
    and "rx_inv False K u" "clk_ok c" "clk_fifo w c" "clk_sniffTail c = of_nat (length w)" "list_all (period_ok K) ps"
  shows "\<exists>fs recs tails c' u'. clk_run K P us ps w c u = Some (c', u') \<and> rx_inv False K u' \<and> clk_ok c'
    \<and> usb_stream u' @ ring_list (clk_ring c') = usb_stream u @ ring_list (clk_ring c) @ concat (map emit fs)
    \<and> stream_ok fs recs \<and> list_all2 partial_ok ps tails
    \<and> open_bytes c @ concat (map2 (\<lambda>p t. drop (length (p_bytes p) - 16) (p_bytes p) @ t) ps tails)
        = concat (map (payload_of \<circ> fst) recs) @ open_bytes c'
    \<and> (clk_ovfPioc c = 0 \<and> clk_ovfRam c = 0 \<and> list_all (\<lambda>p. length (p_bytes p) \<le> 16) ps \<and> list_all snd recs
        \<longrightarrow> no_loss recs \<and> clk_ovfPioc c' = 0 \<and> clk_ovfRam c' = 0)"
  using assms(3-7)
proof (induction ps arbitrary: w c u)
  case Nil
  then show ?case
    by (intro exI [of _ "[]"] exI [of _ c] exI [of _ u]) (simp add: stream_ok_def no_loss_def)
next
  case (Cons p ps)
  let ?bs = "p_bytes p"
  let ?c1 = "clk_feed w ?bs c"
  let ?c2 = "?c1\<lparr>clk_DR := (clk_DR ?c1)[CLK_ACC := p_acc p]\<rparr>"
  let ?w = "w @ ?bs"
  have feed: "clk_fifo ?w ?c1" "regs_only c ?c1" using clk_feed_spec [OF Cons.prems(3)] by simp_all
  have acc_slot: "CLK_ACC \<noteq> 0x20 + n mod 16" "CLK_ACC \<noteq> CLK_HEAD" for n :: nat
  proof -
    have "n mod 16 < 16" by simp
    then show "CLK_ACC \<noteq> 0x20 + n mod 16" unfolding CLK_ACC_def by linarith
  qed (simp add: CLK_ACC_def CLK_HEAD_def)
  have fifo2: "clk_fifo ?w ?c2"
    using feed(1) acc_slot by (simp add: clk_fifo_def nth_list_update)
  have len: "length (clk_DR ?c1) = 64" using feed(1) by (simp add: clk_fifo_def)
  have acc2: "clk_DR ?c2 ! CLK_ACC = p_acc p" using len by (simp add: CLK_ACC_def)
  have "regs_only c ?c2" using feed(2) by (rule regs_only_upd) simp
  note s2 = regs_only_same [OF this]
  have ok2: "clk_ok ?c2" using s2(1) Cons.prems(2) by blast
  have tail2: "clk_sniffTail ?c2 = of_nat (length w)" using s2(6) Cons.prems(4) by simp
  have g: "length w \<le> length ?w" "length ?w - length w < 256" "length ?w - length w = length ?bs"
    using Cons.prems(5) by (simp_all add: period_ok_def)
  obtain mode recs1 t1 c3 u1 where sv: "clk_service K P us (p_now p) ?c2 u = Some (c3, u1)" "rx_inv False K u1" "clk_ok c3"
    "mode \<in> {[], [FMeta (Some CLK_MARKER)]}"
    "usb_stream u1 @ ring_list (clk_ring c3)
        = usb_stream u @ ring_list (clk_ring c) @ concat (map emit (mode @ map fst (filter snd recs1)))"
    "open_bytes c @ drop (length ?w - min (length ?bs) 16) ?w @ t1 = concat (map (payload_of \<circ> fst) recs1) @ open_bytes c3"
    "list_all (\<lambda>(f, _). \<exists>t d on fl p. f = FRecord t d on fl p \<and> length p \<le> 768) recs1"
    "flags_ok (clk_ovfPioc c + (if length ?bs > 16 then 1 else 0), clk_ovfRam c) recs1 (clk_ovfPioc c3, clk_ovfRam c3)"
    "clk_DR c3 = clk_DR ?c2"
    "t1 = [] \<and> resets c3 = resets ?c2 \<and> clk_sniffTail c3 = of_nat (length ?w)
      \<or> sentinel_loop (p_acc p) 0 \<noteq> 0 \<and> t1 = [flush_byte (p_acc p) (sentinel_loop (p_acc p) 0)]
        \<and> resets c3 = resets ?c2 + 1 \<and> clk_sniffTail c3 = 0"
    using clocked_service_facts [OF assms(1,2) Cons.prems(1) ok2 fifo2 tail2 g(1,2), of P us "p_now p"]
    unfolding g(3) acc2 s2 by blast
  have "list_all (bus_idle_op False K) (p_bus p)" using Cons.prems(5) by (simp add: period_ok_def)
  from bus_run_stream [OF assms(1,2) sv(2) this] obtain acc rd u2 where
    b: "bus_run K (p_bus p) u1 = Some (acc, rd, u2)" "rx_inv False K u2" "usb_stream u2 = usb_stream u1" by blast
  have fresh: "drop (length ?w - min (length ?bs) 16) ?w = drop (length ?bs - 16) ?bs"
    by (simp add: min_def)
  have pt: "partial_ok p t1" using sv(10) by (auto simp: partial_ok_def)
  have st1: "stream_ok (mode @ map fst (filter snd recs1)) recs1" by (rule stream_ok_service [OF sv(7,4)])
  obtain w' c4 where next': "clk_run K P us (p # ps) w c u = clk_run K P us ps w' c4 u2"
    "clk_ok c4" "clk_fifo w' c4" "clk_sniffTail c4 = of_nat (length w')" "open_bytes c4 = open_bytes c3"
    "clk_ring c4 = clk_ring c3" "clk_ovfPioc c4 = clk_ovfPioc c3" "clk_ovfRam c4 = clk_ovfRam c3"
  proof (cases "resets c3 = resets ?c2")
    case True
    then have "clk_sniffTail c3 = of_nat (length ?w)" using sv(10) by auto
    moreover have "clk_fifo ?w c3" using fifo2 sv(9) by (simp add: clk_fifo_def)
    moreover have "clk_run K P us (p # ps) w c u = clk_run K P us ps ?w c3 u2"
      using True sv(1) b(1) by (simp add: Let_def)
    ultimately show ?thesis using that [of ?w c3] sv(3) by blast
  next
    case False
    let ?c4 = "c3\<lparr>clk_DR := (clk_DR c3)[CLK_HEAD := 0]\<rparr>"
    have "clk_sniffTail c3 = 0" using False sv(10) by auto
    moreover have "regs_only c3 ?c4" by (simp add: regs_only_def)
    note r4 = regs_only_same [OF this]
    moreover have "clk_fifo [] ?c4" using len sv(9) by (simp add: clk_fifo_def CLK_HEAD_def)
    moreover have "clk_run K P us (p # ps) w c u = clk_run K P us ps [] ?c4 u2"
      using False sv(1) b(1) by (simp add: Let_def)
    ultimately show ?thesis using that [of "[]" ?c4] sv(3) by simp
  qed
  have "list_all (period_ok K) ps" using Cons.prems(5) by simp
  from Cons.IH [OF b(2) next'(2-4) this] obtain fs recs tails c' u' where r:
    "clk_run K P us ps w' c4 u2 = Some (c', u')" "rx_inv False K u'" "clk_ok c'"
    "usb_stream u' @ ring_list (clk_ring c') = usb_stream u2 @ ring_list (clk_ring c4) @ concat (map emit fs)"
    "stream_ok fs recs" "list_all2 partial_ok ps tails"
    "open_bytes c4 @ concat (map2 (\<lambda>p t. drop (length (p_bytes p) - 16) (p_bytes p) @ t) ps tails)
        = concat (map (payload_of \<circ> fst) recs) @ open_bytes c'"
    "clk_ovfPioc c4 = 0 \<and> clk_ovfRam c4 = 0 \<and> list_all (\<lambda>p. length (p_bytes p) \<le> 16) ps \<and> list_all snd recs
        \<longrightarrow> no_loss recs \<and> clk_ovfPioc c' = 0 \<and> clk_ovfRam c' = 0"
    by blast
  let ?fs = "(mode @ map fst (filter snd recs1)) @ fs"
  have e1: "usb_stream u' @ ring_list (clk_ring c') = usb_stream u @ ring_list (clk_ring c) @ concat (map emit ?fs)"
    unfolding r(4) b(3) next'(6) map_append [of emit "mode @ map fst (filter snd recs1)"] concat_append
    using arg_cong [OF sv(5), of "\<lambda>x. x @ concat (map emit fs)"] by (simp only: append_assoc)
  have e2: "open_bytes c @ concat (map2 (\<lambda>p t. drop (length (p_bytes p) - 16) (p_bytes p) @ t) (p # ps) (t1 # tails))
      = concat (map (payload_of \<circ> fst) (recs1 @ recs)) @ open_bytes c'"
    using append_join [OF sv(6) [unfolded fresh append_assoc] r(7) [unfolded next'(5)]] by simp
  have e3: "clk_ovfPioc c = 0 \<and> clk_ovfRam c = 0 \<and> list_all (\<lambda>p. length (p_bytes p) \<le> 16) (p # ps) \<and> list_all snd (recs1 @ recs)
        \<longrightarrow> no_loss (recs1 @ recs) \<and> clk_ovfPioc c' = 0 \<and> clk_ovfRam c' = 0"
    using flags_no_loss [of recs1 "(clk_ovfPioc c3, clk_ovfRam c3)"] sv(8) r(8) next'(7,8)
    by (auto simp: no_loss_def)
  have e4: "list_all2 partial_ok (p # ps) (t1 # tails)" using pt r(6) by simp
  show ?case
    by (rule exI [of _ ?fs], rule exI [of _ "recs1 @ recs"], rule exI [of _ "t1 # tails"], rule exI [of _ c'],
        rule exI [of _ u'])
      (intro conjI next'(1) [THEN trans, OF r(1)] r(2,3) e1 stream_ok_append [OF st1 r(5)] e4 e2 e3)
qed

subsection \<open>The start of a capture\<close>

lemma clk_begin_spec:
  assumes "ring_wf (clk_ring c0)" "ring_len (clk_ring c0) = 2048" "length (burstBuf c0) = 768"
    "length (clk_DR c0) = 64"
  shows "\<exists>c mode. clk_begin P t0 c0 = Some c \<and> clk_ok c \<and> clk_DR c = clk_DR c0
    \<and> clk_sniffTail c = clk_DR c0 ! CLK_HEAD
    \<and> open_bytes c = [] \<and> clk_ovfPioc c = 0 \<and> clk_ovfRam c = 0
    \<and> ring_list (clk_ring c) = 0xFF # concat (map emit mode) \<and> mode \<in> {[], [FMeta (Some CLK_MARKER)]}"
proof -
  define c1 where "c1 = (let c = loadRingBlob P c0 in c\<lparr>clk_sniffTail := clk_DR c ! CLK_HEAD, clk_sniffLastMs := t0,
      partialSeenMs := t0, partialSeenBits := 0, clk_ring := ring_clear (clk_ring c), clk_ovfRam := 0, clk_ovfPioc := 0,
      burstOpen := False, burstN := 0, burstNeedTerminal := False, tailBits := 0\<rparr>)"
  have c1: "clk_ring c1 = ring_clear (clk_ring c0)" "burstBuf c1 = burstBuf c0" "clk_DR c1 = clk_DR c0"
    "clk_sniffTail c1 = clk_DR c0 ! CLK_HEAD" "burstN c1 = 0" "\<not> burstOpen c1" "tailBits c1 = 0"
    "clk_ovfPioc c1 = 0" "clk_ovfRam c1 = 0"
    by (simp_all add: c1_def loadRingBlob_def Let_def)
  have wf1: "ring_wf (clk_ring c1)" "ring_len (clk_ring c1) = 2048" using assms(1,2) by (simp_all add: c1)
  have l1: "ring_list (clk_ring c1) = []" by (simp add: c1)
  have "length [0xFF :: u8] < 2 ^ 32" by simp
  note pa = ring_pushAll_list [OF disjI1 [OF wf1(1)] this]
  define r2 where "r2 = snd (ring_pushAll [0xFF] (clk_ring c1))"
  have "length (ring_list (clk_ring c1)) = 0" using l1 by (metis list.size(3))
  then have fits: "fst (ring_pushAll [0xFF] (clk_ring c1))" using pa(1) wf1(2) by simp
  then have push: "clk_ringPush [0xFF] c1 = c1\<lparr>clk_ring := r2\<rparr>"
    by (simp add: clk_ringPush_def case_prod_beta r2_def)
  have r2: "ring_list r2 = [0xFF]" "ring_wf r2" "ring_len r2 = 2048"
    using pa(2) fits l1 pa(3) [OF wf1(1)] wf1(2)
    by (simp_all add: r2_def ring_pushAll_def ring_copyIn_def Let_def del: ring_list_length)
  from clk_emitModeMarker_spec [of "c1\<lparr>clk_ring := r2\<rparr>"] obtain mode r3 where
    m: "clk_emitModeMarker (c1\<lparr>clk_ring := r2\<rparr>) = Some (c1\<lparr>clk_ring := r3\<rparr>)" "ring_wf r3" "ring_len r3 = 2048"
    "ring_list r3 = [0xFF] @ concat (map emit mode)" "mode \<in> {[], [FMeta (Some CLK_MARKER)]}"
    using r2 by auto
  let ?c = "c1\<lparr>clk_ring := r3, clk_modeHbMs := t0 + 1000\<rparr>"
  have run: "clk_begin P t0 c0 = map_option (\<lambda>c. c\<lparr>clk_modeHbMs := t0 + 1000\<rparr>) (clk_emitModeMarker (clk_ringPush [0xFF] c1))"
    by (simp add: clk_begin_def c1_def Let_def)
  have "clk_begin P t0 c0 = Some ?c" unfolding run push m(1) by simp
  moreover have "clk_ok ?c" using m(2,3) c1 assms(3,4) by (simp add: clk_ok_def)
  moreover have "clk_DR ?c = clk_DR c0" "clk_sniffTail ?c = clk_DR c0 ! CLK_HEAD" "open_bytes ?c = []" "clk_ovfPioc ?c = 0" "clk_ovfRam ?c = 0"
    using c1 by (simp_all add: open_bytes_def)
  moreover have "ring_list (clk_ring ?c) = 0xFF # concat (map emit mode)" using m(4) by simp
  ultimately show ?thesis using m(5) by blast
qed

subsection \<open>The host\<close>

fun host_payload :: "event \<Rightarrow> u8 list" where
  "host_payload (ERecord (Some b)) = b_payload b"
| "host_payload e = []"

lemma frame_payload: "is_record f \<or> f = FMeta (Some CLK_MARKER) \<Longrightarrow>
    concat (map host_payload (frame_events f)) = (if is_record f then payload_of f else [])"
  by (cases f) auto

lemma host_payloads:
  assumes "stream_ok fs recs" "list_all snd recs"
  shows "concat (map host_payload (concat (map frame_events fs))) = concat (map (payload_of \<circ> fst) recs)"
proof -
  have "concat (map host_payload (concat (map frame_events fs))) = concat (map payload_of (filter is_record fs))"
    if "\<forall>f \<in> set fs. is_record f \<or> f = FMeta (Some CLK_MARKER)" for fs
    using that by (induction fs) (simp_all add: frame_payload)
  moreover have "filter snd recs = recs" using assms(2) by (simp add: list_all_iff filter_id_conv)
  ultimately show ?thesis using assms(1) by (simp add: stream_ok_def comp_def)
qed

lemma stream_frames_ok: "stream_ok fs recs \<Longrightarrow> \<forall>f \<in> set fs. frame_ok f"
proof
  fix f assume a: "stream_ok fs recs" "f \<in> set fs"
  show "frame_ok f"
  proof (cases "is_record f")
    case True
    then have "f \<in> set (filter is_record fs)" using a(2) by simp
    then have "f \<in> set (map fst (filter snd recs))" using a(1) unfolding stream_ok_def by simp
    then have "\<exists>t d on fl p. f = FRecord t d on fl p \<and> length p \<le> 768"
      using a(1) by (fastforce simp: stream_ok_def list_all_iff)
    then show ?thesis by auto
  next
    case False
    then show ?thesis using a by (cases f) (auto simp: stream_ok_def)
  qed
qed

subsection \<open>Properties\<close>



end
