(* ===== verification/LedBlinker.thy ===== *)
theory LedBlinker
  imports RingBuf
begin

text \<open>
  The cooperative LED of \<^verbatim>\<open>src/util/led_blinker.hpp\<close> and \<^verbatim>\<open>led_blinker.cpp\<close>: commands are queued
  in a ring of ten, and \<open>tick\<close> runs them one after the other. \<open>pin\<close> is the level last written to the
  GPIO. The pin set-up of \<open>init\<close> is outside the model.
\<close>

subsection \<open>State\<close>

definition LED_BLINK_QUEUE_SIZE :: nat where "LED_BLINK_QUEUE_SIZE = 10"
definition LED_BLINK_MIN_TIME_OFF_MS :: u32 where "LED_BLINK_MIN_TIME_OFF_MS = 20"

record BlinkCommand =
  timeOn :: u32
  timeOff :: u32

datatype Phase = Idle | On | Off

record led =
  pin :: bool
  direct :: bool
  initialized :: bool
  minTimeOff :: u32
  led_queue :: "BlinkCommand ring"
  current :: BlinkCommand
  phase :: Phase
  deadline :: u32

definition led_make :: "bool \<Rightarrow> u32 \<Rightarrow> led" where
  "led_make isDirect minOff =
    \<lparr>pin = False, direct = isDirect, initialized = False, minTimeOff = minOff,
     led_queue = \<lparr>r_head = 0, r_tail = 0, r_buf = replicate LED_BLINK_QUEUE_SIZE \<lparr>timeOn = 0, timeOff = 0\<rparr>\<rparr>,
     current = \<lparr>timeOn = 0, timeOff = 0\<rparr>, phase = Idle, deadline = 0\<rparr>"

subsection \<open>Operations\<close>

definition setLed :: "bool \<Rightarrow> led \<Rightarrow> led" where
  "setLed on l = l\<lparr>pin := (if direct l then on else \<not> on)\<rparr>"

definition led_init :: "led \<Rightarrow> led" where
  "led_init l = setLed False (l\<lparr>initialized := True\<rparr>)"

definition led_blink2 :: "u32 \<Rightarrow> u32 \<Rightarrow> led \<Rightarrow> bool \<times> led" where
  "led_blink2 timeOnMs timeOffMs l =
    (let (ok, q) = ring_push1 \<lparr>timeOn = timeOnMs, timeOff = timeOffMs\<rparr> (led_queue l)
     in (ok, l\<lparr>led_queue := q\<rparr>))"

definition led_blink :: "u32 \<Rightarrow> led \<Rightarrow> bool \<times> led" where
  "led_blink timeOnMs l = led_blink2 timeOnMs 0 l"

definition led_on :: "led \<Rightarrow> bool \<times> led" where
  "led_on l = led_blink 0xFFFFFFFF l"

definition led_off :: "led \<Rightarrow> bool \<times> led" where
  "led_off l = led_blink 0 l"

definition led_idle :: "led \<Rightarrow> bool" where
  "led_idle l \<longleftrightarrow> phase l = Idle \<and> ring_empty (led_queue l)"

definition led_start :: "BlinkCommand \<Rightarrow> u32 \<Rightarrow> led \<Rightarrow> led" where
  "led_start cmd now l =
    (let l = l\<lparr>current := cmd\<rparr> in
     if timeOn cmd = 0xFFFFFFFF then (setLed True l)\<lparr>phase := Idle\<rparr>
     else if timeOn cmd = 0 then (setLed False l)\<lparr>phase := Idle\<rparr>
     else (setLed True l)\<lparr>deadline := now + timeOn cmd, phase := On\<rparr>)"

definition led_tick :: "u32 \<Rightarrow> led \<Rightarrow> led" where
  "led_tick now l =
    (if \<not> initialized l then l
     else if phase l = Idle then
       (case ring_pop1 (led_queue l) of
          (Some cmd, q) \<Rightarrow> led_start cmd now (l\<lparr>led_queue := q\<rparr>)
        | (None, q) \<Rightarrow> l\<lparr>led_queue := q\<rparr>)
     else if \<not> passed now (deadline l) then l
     else if phase l = On then
       (let l = setLed False l; off = (if timeOff (current l) \<noteq> 0 then timeOff (current l) else minTimeOff l)
        in l\<lparr>deadline := now + off, phase := Off\<rparr>)
     else l\<lparr>phase := Idle\<rparr>)"

subsection \<open>Lemmas\<close>

definition lit :: "led \<Rightarrow> bool" where
  "lit l \<longleftrightarrow> pin l = direct l"

definition led_inv :: "led \<Rightarrow> bool" where
  "led_inv l \<longleftrightarrow> ring_lin (led_queue l) \<and> ring_len (led_queue l) = 10 \<and> initialized l
     \<and> (phase l = On \<longrightarrow> lit l) \<and> (phase l = Off \<longrightarrow> \<not> lit l)"

lemma led_queue_static:
  "ring_lin (led_queue (led_make d m)) \<and> ring_len (led_queue (led_make d m)) = 10
    \<and> ring_list (led_queue (led_make d m)) = []"
  by (simp add: led_make_def ring_lin_def ring_fits_def ring_cap_def ring_size_def ring_list_def
      LED_BLINK_QUEUE_SIZE_def)

lemma led_init_inv: "led_inv (led_init (led_make d m))"
  using led_queue_static [of d m] by (simp add: led_inv_def led_init_def setLed_def) (simp add: led_make_def)

end
