(* ===== verification/MainSniffer.thy ===== *)
theory MainSniffer
  imports ClockedRun LedBlinker ModeCmd
begin

text \<open>
  The product's main program, \<^verbatim>\<open>src/main_sniffer.cpp\<close> built with \<open>RUN_SNIFFER\<close>, and the output hook of
  \<^verbatim>\<open>src/common/board.cpp\<close>: both capture datapaths behind one PIOC, the runtime mode switch, and the main
  loop.

  The world moves at every reading of the millisecond clock: before the \<open>k\<close>-th reading the bus does
  \<open>b_env k\<close>, and the reading is \<open>b_ms k\<close>. The two datapaths share the PIOC, so its registers are in this
  state and are lent to the datapath that runs.
\<close>

subsection \<open>State\<close>

record board =
  b_K :: sdk
  b_P :: pioc_sdk
  b_fcpu :: u32
  b_kbps :: int
  b_us :: "nat \<Rightarrow> u32"
  b_ms :: "nat \<Rightarrow> u32"
  b_env :: "nat \<Rightarrow> bus_op list"

definition LED_FLASH_MS :: u32 where "LED_FLASH_MS = 50"
definition LED_PERIOD_MS :: u32 where "LED_PERIOD_MS = 1000"
definition CMD_SIZE :: nat where "CMD_SIZE = 24"

record sniffer =
  sn_mode :: CaptureMode
  sn_line :: "u8 list"
  sn_len :: u16
  sn_clk :: clk
  sn_rle :: rle
  sn_DR :: "u8 list"
  sn_CFG :: u8
  sn_led :: led
  sn_nextLed :: u32
  sn_usb :: usb
  sn_ticks :: nat

text \<open>The static objects; the registers are the hardware's.\<close>

definition sniffer_static :: "u8 list \<Rightarrow> sniffer" where
  "sniffer_static regs =
    \<lparr>sn_mode = Clocked, sn_line = replicate CMD_SIZE 0, sn_len = 0, sn_clk = clk_static regs,
     sn_rle = rle_static regs, sn_DR = regs, sn_CFG = 0, sn_led = led_make True LED_BLINK_MIN_TIME_OFF_MS,
     sn_nextLed = 0, sn_usb = usb_static, sn_ticks = 0\<rparr>"

subsection \<open>The clock, and output that pumps\<close>

text \<open>A reading of \<open>Time::millis()\<close>.\<close>

definition millis :: "board \<Rightarrow> nat \<times> usb \<Rightarrow> (u32 \<times> nat \<times> usb) option" where
  "millis B = (\<lambda>(k, u). do {
     (acc, rd, u) \<leftarrow> bus_run (b_K B) (b_env B k) u;
     Some (b_ms B k, k + 1, u) })"

text \<open>\<open>Board::usb.tick(Time::millis())\<close>.\<close>

definition tick_now :: "board \<Rightarrow> nat \<times> usb \<Rightarrow> (nat \<times> usb) option" where
  "tick_now B w = do {
     (now, k, u) \<leftarrow> millis B w;
     u \<leftarrow> usb_tick (b_K B) now u;
     Some (k, u) }"

text \<open>
  The bounded write loop that the mode switch and \<open>__wrap__write\<close> both use: \<open>guard\<close> counts the attempts
  in a row that stored nothing.
\<close>

function write_loop :: "board \<Rightarrow> nat \<Rightarrow> u8 list \<Rightarrow> nat \<Rightarrow> nat \<Rightarrow> nat \<times> usb \<Rightarrow> (nat \<times> nat \<times> nat \<times> usb) option" where
  "write_loop B limit bytes off guard w =
    (if off < length bytes \<and> guard < limit then
       (case usb_write (drop off bytes) (snd w) of
          (n, u) \<Rightarrow>
            (case tick_now B (fst w, u) of
               None \<Rightarrow> None
             | Some w \<Rightarrow> if n = 0 then write_loop B limit bytes off (guard + 1) w
                        else write_loop B limit bytes (off + unat n) 0 w))
     else Some (off, guard, w))"
  by pat_completeness auto
termination
  by (relation "measures [\<lambda>(B, limit, bytes, off, guard, w). length bytes - off,
                          \<lambda>(B, limit, bytes, off, guard, w). limit - guard]")
    (auto simp: unat_gt_0 intro!: diff_less_mono2)

declare write_loop.simps [simp del]

text \<open>\<open>__wrap__write\<close> claims that everything was written.\<close>

definition wrap_write :: "board \<Rightarrow> u8 list \<Rightarrow> nat \<times> usb \<Rightarrow> (nat \<times> nat \<times> usb) option" where
  "wrap_write B buf w = do {
     (sent, guard, w) \<leftarrow> write_loop B 200000 buf 0 0 w;
     Some (length buf, w) }"

subsection \<open>The mode switch\<close>

text \<open>The shared PIOC registers, lent to one datapath and taken back.\<close>

definition rle_side :: "sniffer \<Rightarrow> rle" where
  "rle_side s = (sn_rle s)\<lparr>DR := sn_DR s, SYS_CFG := sn_CFG s\<rparr>"

definition put_rle :: "rle \<Rightarrow> sniffer \<Rightarrow> sniffer" where
  "put_rle r s = s\<lparr>sn_rle := r, sn_CFG := SYS_CFG r\<rparr>"

definition clk_side :: "sniffer \<Rightarrow> clk" where
  "clk_side s = (sn_clk s)\<lparr>clk_DR := sn_DR s, clk_SYS_CFG := sn_CFG s\<rparr>"

definition put_clk :: "clk \<Rightarrow> sniffer \<Rightarrow> sniffer" where
  "put_clk c s = s\<lparr>sn_clk := c, sn_CFG := clk_SYS_CFG c\<rparr>"

definition stop_active :: "sniffer \<Rightarrow> sniffer" where
  "stop_active s =
    (if sn_mode s = Rle then put_rle (rle_stop (rle_side s)) s else put_clk (clk_stop (clk_side s)) s)"

definition begin_mode :: "board \<Rightarrow> CaptureMode \<Rightarrow> u32 \<Rightarrow> sniffer \<Rightarrow> sniffer option" where
  "begin_mode B m now s =
    (if m = Rle then do {
       (r, u) \<leftarrow> rle_begin (b_P B) (b_fcpu B) now (rle_side s) (sn_usb s);
       Some ((put_rle r s)\<lparr>sn_usb := u\<rparr>) }
     else do {
       c \<leftarrow> clk_begin (b_P B) now (clk_side s);
       Some (put_clk c s) })"

definition SEAM :: "u8 list" where
  "SEAM = [0xFF, 0xFD, 0xFF]"

definition put_world :: "nat \<times> usb \<Rightarrow> sniffer \<Rightarrow> sniffer" where
  "put_world w s = s\<lparr>sn_ticks := fst w, sn_usb := snd w\<rparr>"

definition sn_millis :: "board \<Rightarrow> sniffer \<Rightarrow> (u32 \<times> sniffer) option" where
  "sn_millis B s = do {
     (now, w) \<leftarrow> millis B (sn_ticks s, sn_usb s);
     Some (now, put_world w s) }"

definition unifiedSwitchTo :: "board \<Rightarrow> CaptureMode \<Rightarrow> sniffer \<Rightarrow> sniffer option" where
  "unifiedSwitchTo B m s =
    (let s = stop_active s in
     do {
       (off, guard, w) \<leftarrow> write_loop B 100000 SEAM 0 0 (sn_ticks s, sn_usb s);
       let s = (put_world w s)\<lparr>sn_mode := m\<rparr>;
       (now, s) \<leftarrow> sn_millis B s;
       begin_mode B m now s })"

text \<open>One received byte.\<close>

definition cmd_byte :: "board \<Rightarrow> u8 \<Rightarrow> sniffer \<Rightarrow> sniffer option" where
  "cmd_byte B b s =
    (if b = 0x0A \<or> b = 0x0D then
       (if sn_len s \<noteq> 0 then
          (let c = parse (map (char_of \<circ> unat) (take (unat (sn_len s)) (sn_line s))) in
           do {
             s \<leftarrow> (if valid c \<and> mode c \<noteq> sn_mode s then unifiedSwitchTo B (mode c) s else Some s);
             Some (s\<lparr>sn_len := 0\<rparr>) })
        else Some s)
     else if unat (sn_len s) < CMD_SIZE then do {
       line \<leftarrow> put (sn_line s) (unat (sn_len s)) b;
       Some (s\<lparr>sn_line := line, sn_len := sn_len s + 1\<rparr>) }
     else Some (s\<lparr>sn_len := 0\<rparr>))"

text \<open>\<open>while (available() && read(&b, 1) == 1)\<close>; the bus may refill the receive ring during a switch.\<close>

partial_function (option) unifiedPollCommand :: "board \<Rightarrow> sniffer \<Rightarrow> sniffer option" where
  "unifiedPollCommand B s =
    (if usb_available (sn_usb s) = 0 then Some s
     else
      let (xs, u) = usb_read 1 (sn_usb s); s = s\<lparr>sn_usb := u\<rparr>
      in case xs of
           [] \<Rightarrow> Some s
         | b # _ \<Rightarrow> Option.bind (cmd_byte B b s) (unifiedPollCommand B))"

subsection \<open>The main loop\<close>

definition service_active :: "board \<Rightarrow> u32 \<Rightarrow> sniffer \<Rightarrow> sniffer option" where
  "service_active B now s =
    (if sn_mode s = Rle then do {
       (r, u) \<leftarrow> rle_service (b_K B) (b_fcpu B) (b_kbps B) now (rle_side s) (sn_usb s);
       Some ((put_rle r s)\<lparr>sn_usb := u\<rparr>) }
     else do {
       (c, u) \<leftarrow> clk_service (b_K B) (b_P B) (b_us B) now (clk_side s) (sn_usb s);
       Some ((put_clk c s)\<lparr>sn_usb := u\<rparr>) })"

definition heartbeat :: "u32 \<Rightarrow> sniffer \<Rightarrow> sniffer" where
  "heartbeat now s =
    (if passed now (sn_nextLed s)
     then s\<lparr>sn_led := snd (led_blink LED_FLASH_MS (sn_led s)), sn_nextLed := now + LED_PERIOD_MS\<rparr> else s)"

definition main_round :: "board \<Rightarrow> sniffer \<Rightarrow> sniffer option" where
  "main_round B s = do {
     (now, s) \<leftarrow> sn_millis B s;
     u \<leftarrow> usb_tick (b_K B) now (sn_usb s);
     s \<leftarrow> service_active B now (s\<lparr>sn_usb := u\<rparr>);
     s \<leftarrow> unifiedPollCommand B s;
     let s = heartbeat now s;
     if initialized (sn_led s) then do {
       (t, s) \<leftarrow> sn_millis B s;
       Some (s\<lparr>sn_led := led_tick t (sn_led s)\<rparr>) }
     else Some s }"

text \<open>\<open>main\<close> from the end of \<open>Board::init\<close> to the loop.\<close>

definition main_start :: "board \<Rightarrow> sniffer \<Rightarrow> sniffer option" where
  "main_start B s = do {
     (now, s) \<leftarrow> sn_millis B s;
     s \<leftarrow> begin_mode B (sn_mode s) now s;
     (t, s) \<leftarrow> sn_millis B s;
     Some (s\<lparr>sn_nextLed := t\<rparr>) }"

subsection \<open>Steps of the system\<close>

text \<open>
  The program's own rounds, the timer flag, the drain interrupt between rounds, and whatever the PIOC
  does to its registers.
\<close>

inductive sn_step :: "board \<Rightarrow> sniffer \<Rightarrow> sniffer \<Rightarrow> bool" for B where
  Round: "main_round B s = Some s' \<Longrightarrow> sn_step B s s'"
| Timer: "tim3_on (sn_rle s) \<Longrightarrow> sn_step B s (s\<lparr>sn_rle := (sn_rle s)\<lparr>tim3_flag := True\<rparr>\<rparr>)"
| Irq: "sn_step B s (put_rle (TIM3_IRQHandler (rle_side s)) s)"
| Pioc: "length d = 64 \<Longrightarrow> sn_step B s (s\<lparr>sn_DR := d\<rparr>)"

inductive sn_run :: "board \<Rightarrow> sniffer \<Rightarrow> sniffer \<Rightarrow> bool" for B where
  sn_refl: "sn_run B s s"
| sn_next: "sn_run B s t \<Longrightarrow> sn_step B t u \<Longrightarrow> sn_run B s u"

inductive_cases sn_stepE: "sn_step B s s'"

end
