(* ===== verification/MainRun.thy ===== *)
theory MainRun
  imports MainSniffer
begin

text \<open>
  The world around the main program and its invariant: what the host and the bus may do while the program
  runs, what a reading of the clock, a service call and the pumping writes do to the stream and to the
  received bytes, the invariant of the main loop's state, and the mode switch.
\<close>

subsection \<open>The world\<close>

text \<open>
  What the host and the bus may do at a reading of the clock: all of the bus operations but the control
  requests that break the bulk endpoints. \<open>resets\<close> says whether the bus is ever reset.
\<close>

fun world_op :: "sdk \<Rightarrow> bus_op \<Rightarrow> bool" where
  "world_op K (Call op) = False"
| "world_op K op = main_loop_op True K op"

definition board_ok :: "board \<Rightarrow> bool" where
  "board_ok B \<longleftrightarrow> sdk_ok (b_K B) \<and> irq_ok (b_K B) \<and> (\<forall>k. list_all (world_op (b_K B)) (b_env B k))"

definition resets :: "board \<Rightarrow> bool" where
  "resets B \<longleftrightarrow> (\<exists>k. HostReset \<in> set (b_env B k))"

abbreviation usb_inv :: "board \<Rightarrow> usb \<Rightarrow> bool" where
  "usb_inv B \<equiv> rx_inv (resets B) (b_K B)"

abbreviation sent_on :: "board \<Rightarrow> usb \<Rightarrow> u8 list \<Rightarrow> usb \<Rightarrow> bool" where
  "sent_on B \<equiv> sent (resets B)"

text \<open>
  A host that sends no bulk data: it may poll the device, do control transfers, suspend and reset the bus.
  Within one session it opens no port and resets nothing either.
\<close>

fun poll_op :: "bus_op \<Rightarrow> bool" where
  "poll_op (HostOut st pkt) = False"
| "poll_op op = True"

definition host_silent :: "board \<Rightarrow> bool" where
  "host_silent B \<longleftrightarrow> (\<forall>k. list_all poll_op (b_env B k))"

definition one_session :: "board \<Rightarrow> bool" where
  "one_session B \<longleftrightarrow> (\<forall>k. list_all (same_session (b_K B)) (b_env B k))"

definition rx_len :: "sdk \<Rightarrow> usb \<Rightarrow> nat" where
  "rx_len K u = length (rx_bytes K u)"

text \<open>
  Nothing was received and nothing read: no byte more is waiting, and within one session they are the
  same bytes.
\<close>

definition rx_idle :: "sdk \<Rightarrow> bool \<Rightarrow> usb \<Rightarrow> usb \<Rightarrow> bool" where
  "rx_idle K x u u' \<longleftrightarrow> rx_len K u' \<le> rx_len K u \<and> (settled K u \<and> x \<longrightarrow> settled K u' \<and> rx_bytes K u' = rx_bytes K u)"

definition rx_same :: "board \<Rightarrow> usb \<Rightarrow> usb \<Rightarrow> bool" where
  "rx_same B u u' \<longleftrightarrow> (host_silent B \<longrightarrow> rx_idle (b_K B) (one_session B) u u')"

lemma rx_idle_bytes: "rx_bytes K u' = rx_bytes K u \<Longrightarrow> settled K u' = settled K u \<Longrightarrow> rx_idle K x u u'"
  by (simp add: rx_idle_def rx_len_def)

lemma rx_same_refl [simp]: "rx_same B u u"
  by (simp add: rx_same_def rx_idle_def)

lemma rx_same_trans [trans]: "rx_same B u v \<Longrightarrow> rx_same B v w \<Longrightarrow> rx_same B u w"
  by (auto simp: rx_same_def rx_idle_def)

lemma rx_same_len: "rx_same B u u' \<Longrightarrow> host_silent B \<Longrightarrow> rx_len (b_K B) u' \<le> rx_len (b_K B) u"
  by (simp add: rx_same_def rx_idle_def)

lemma rx_moves_idle: "rx_moves R K x s [] [] t \<Longrightarrow> rx_idle K x s t"
  using list_emb_length [of "(=)" "rx_bytes K t" "rx_bytes K s"] by (auto simp: rx_moves_def rx_idle_def rx_len_def)

lemma rx_moves_same_board: "rx_moves R (b_K B) True u [] [] u' \<Longrightarrow> rx_same B u u'"
  using rx_moves_idle [of R "b_K B" True u u'] by (simp add: rx_same_def rx_idle_def)

lemma silent_run:
  assumes "list_all poll_op ops" "bus_run K ops u = Some (acc, rd, u')" "list_all (world_op K) ops"
  shows "acc = [] \<and> rd = []"
  using assms
proof (induction ops arbitrary: u acc rd)
  case (Cons op ops)
  then show ?case by (cases op) (auto split: Option.bind_splits)
qed simp

lemma world_main: "world_op K op \<Longrightarrow> op \<noteq> HostReset \<or> R \<Longrightarrow> bus_idle_op R K op"
  by (cases op) auto

lemma world_idle:
  assumes "board_ok B"
  shows "list_all (bus_idle_op (resets B) (b_K B)) (b_env B k)"
proof -
  have "bus_idle_op (resets B) (b_K B) op" if "op \<in> set (b_env B k)" for op
    using that assms world_main [of "b_K B" op "resets B"] by (auto simp: board_ok_def resets_def list_all_iff)
  then show ?thesis by (simp add: list_all_iff)
qed

lemma one_session_no_reset: "one_session B \<Longrightarrow> \<not> resets B"
  by (fastforce simp: one_session_def resets_def list_all_iff)

lemma millis_spec:
  assumes "board_ok B" "usb_inv B u"
  shows "\<exists>u'. millis B (k, u) = Some (b_ms B k, k + 1, u') \<and> usb_inv B u' \<and> sent_on B u [] u' \<and> rx_same B u u'"
proof -
  have K: "sdk_ok (b_K B)" "irq_ok (b_K B)" "list_all (world_op (b_K B)) (b_env B k)"
    using assms(1) by (auto simp: board_ok_def)
  note idle = world_idle [OF assms(1), of k]
  obtain acc rd u' where r: "bus_run (b_K B) (b_env B k) u = Some (acc, rd, u')" "usb_inv B u'" "sent_on B u [] u'"
    using bus_run_sent [OF K(1,2) assms(2) idle] by blast
  have "list_all (main_loop_op (resets B) (b_K B)) (b_env B k)"
    using idle bus_idle_main unfolding list_all_iff by blast
  then have m: "rx_moves (resets B) (b_K B) (list_all (same_session (b_K B)) (b_env B k)) u acc rd u'"
    using bus_run_rx [OF K(1,2) assms(2), of "b_env B k"] r(1) by auto
  have "rx_same B u u'"
    using silent_run [OF _ r(1) K(3)] m rx_moves_idle
    by (fastforce simp: rx_same_def host_silent_def one_session_def rx_idle_def)
  then show ?thesis using r by (simp add: millis_def)
qed

lemma usb_tick_stream:
  assumes "board_ok B" "usb_inv B u"
  shows "\<exists>u'. usb_tick (b_K B) now u = Some u' \<and> usb_inv B u' \<and> sent_on B u [] u' \<and> rx_same B u u'"
proof -
  have K: "sdk_ok (b_K B)" "irq_ok (b_K B)" using assms(1) by (auto simp: board_ok_def)
  obtain u' where u': "usb_tick (b_K B) now u = Some u'" "rx_moves (resets B) (b_K B) True u [] [] u'"
    using call_rx [OF K assms(2), of "UsbTick now" True] by auto
  have "usb_inv B u'" using u'(2) by (simp add: rx_moves_def)
  then show ?thesis using u'(1) usb_tick_sent [OF assms(2) u'(1)] rx_moves_same_board [OF u'(2)] by simp
qed

lemma tick_now_spec:
  assumes "board_ok B" "usb_inv B (snd w)"
  shows "\<exists>w'. tick_now B w = Some w' \<and> usb_inv B (snd w') \<and> sent_on B (snd w) [] (snd w')
    \<and> rx_same B (snd w) (snd w')"
proof -
  obtain k u where w: "w = (k, u)" by fastforce
  obtain u1 where m: "millis B (k, u) = Some (b_ms B k, k + 1, u1)" "usb_inv B u1" "sent_on B u [] u1"
    "rx_same B u u1"
    using millis_spec [OF assms(1)] assms(2) w by fastforce
  obtain u2 where t: "usb_tick (b_K B) (b_ms B k) u1 = Some u2" "usb_inv B u2" "sent_on B u1 [] u2"
    "rx_same B u1 u2"
    using usb_tick_stream [OF assms(1) m(2)] by blast
  have "tick_now B w = Some (k + 1, u2)" by (simp add: tick_now_def w m(1) t(1))
  then show ?thesis using t(2) sent_trans [OF m(3) t(3)] rx_same_trans [OF m(4) t(4)] w by simp
qed

lemma usb_write_rx_len: "usb_write xs u = (n, u') \<Longrightarrow> rx_idle K x u u'"
  by (auto simp: usb_write_def intro!: rx_idle_bytes split: prod.splits)

lemma write_loop_spec:
  assumes "board_ok B" "usb_inv B (snd w)" "off \<le> length bytes" "length bytes < 2 ^ 32" "guard \<le> limit"
  shows "\<exists>off' guard' w'. write_loop B limit bytes off guard w = Some (off', guard', w')
    \<and> usb_inv B (snd w') \<and> off \<le> off' \<and> off' \<le> length bytes
    \<and> sent_on B (snd w) (take (off' - off) (drop off bytes)) (snd w')
    \<and> (off' = length bytes \<or> guard' = limit)
    \<and> (guard < limit \<and> length bytes - off \<le> unat (usb_writeSpace (snd w)) \<longrightarrow> off' = length bytes)
    \<and> rx_same B (snd w) (snd w')"
  using assms(1-3,5,4)
proof (induction B limit bytes off guard w rule: write_loop.induct)
  case (1 B limit bytes off guard w)
  show ?case
  proof (cases "off < length bytes \<and> guard < limit")
    case False
    then have "write_loop B limit bytes off guard w = Some (off, guard, w)"
      unfolding write_loop.simps [of B limit bytes off guard w] if_not_P [OF False] by simp
    then show ?thesis using "1.prems" False by auto
  next
    case True
    obtain n u where wr: "usb_write (drop off bytes) (snd w) = (n, u)" by fastforce
    have "length (drop off bytes) < 2 ^ 32" using "1.prems"(5) by simp
    note s = usb_write_stream [OF "1.prems"(2) wr this]
    have wr_len: "rx_same B (snd w) u" using usb_write_rx_len [OF wr] by (simp add: rx_same_def)
    have wr_out: "sent_on B (snd w) (take (unat n) (drop off bytes)) u" by (rule sent_eq) (rule s(1))
    obtain w1 where t: "tick_now B (fst w, u) = Some w1" "usb_inv B (snd w1)" "sent_on B u [] (snd w1)"
      "rx_same B u (snd w1)"
      using tick_now_spec [OF "1.prems"(1), of "(fst w, u)"] s(2) by auto
    have n_le: "unat n \<le> length bytes - off" using s(3) by simp
    show ?thesis
    proof (cases "n = 0")
      case n0: True
      have g: "Suc guard \<le> limit" using True by simp
      from "1.IH"(1) [OF True wr [symmetric] t(1) n0 "1.prems"(1) t(2) "1.prems"(3) _ "1.prems"(5)] g
      obtain off' guard' w' where r: "write_loop B limit bytes off (guard + 1) w1 = Some (off', guard', w')"
        "usb_inv B (snd w')" "off \<le> off'" "off' \<le> length bytes"
        "sent_on B (snd w1) (take (off' - off) (drop off bytes)) (snd w')"
        "off' = length bytes \<or> guard' = limit"
        "rx_same B (snd w1) (snd w')"
        by auto
      have "write_loop B limit bytes off guard w = Some (off', guard', w')"
        using True wr t(1) n0 r(1) by (simp add: write_loop.simps [of B limit bytes off guard w])
      moreover have "sent_on B (snd w) (take (off' - off) (drop off bytes)) (snd w')"
        using sent_trans [OF sent_trans [OF wr_out t(3)] r(5)] n0 by simp
      moreover have "unat (usb_writeSpace (snd w)) = 0" using s(3) n0 True by (simp add: min_def split: if_splits)
      moreover have "rx_same B (snd w) (snd w')" using rx_same_trans [OF rx_same_trans [OF wr_len t(4)] r(7)] .
      ultimately show ?thesis using r(2-4,6) True by simp
    next
      case n1: False
      let ?off = "off + unat n"
      have le: "?off \<le> length bytes" using n_le True by linarith
      from "1.IH"(2) [OF True wr [symmetric] t(1) n1 "1.prems"(1) t(2) le _ "1.prems"(5)]
      obtain off' guard' w' where r: "write_loop B limit bytes ?off 0 w1 = Some (off', guard', w')"
        "usb_inv B (snd w')" "?off \<le> off'" "off' \<le> length bytes"
        "sent_on B (snd w1) (take (off' - ?off) (drop ?off bytes)) (snd w')"
        "off' = length bytes \<or> guard' = limit"
        "rx_same B (snd w1) (snd w')"
        by auto
      have run: "write_loop B limit bytes off guard w = Some (off', guard', w')"
        using True wr t(1) n1 r(1) by (simp add: write_loop.simps [of B limit bytes off guard w])
      have "take (unat n) (drop off bytes) @ take (off' - ?off) (drop ?off bytes) = take (off' - off) (drop off bytes)"
      proof -
        have "off' - off = unat n + (off' - ?off)" using r(3) by simp
        then show ?thesis by (simp add: take_add add.commute)
      qed
      then have st: "sent_on B (snd w) (take (off' - off) (drop off bytes)) (snd w')"
        using sent_trans [OF sent_trans [OF wr_out t(3)] r(5)] by simp
      have full: "off' = length bytes" if "length bytes - off \<le> unat (usb_writeSpace (snd w))"
      proof -
        have "unat n = length bytes - off" using s(3) that by simp
        then show ?thesis using r(3,4) True by simp
      qed
      have same: "rx_same B (snd w) (snd w')" using rx_same_trans [OF rx_same_trans [OF wr_len t(4)] r(7)] .
      show ?thesis
        by (rule exI [of _ off'], rule exI [of _ guard'], rule exI [of _ w'])
          (use run r st full same in simp)
    qed
  qed
qed

subsection \<open>The invariant\<close>

definition sn_inv :: "board \<Rightarrow> sniffer \<Rightarrow> bool" where
  "sn_inv B s \<longleftrightarrow> usb_inv B (sn_usb s) \<and> clk_ok (clk_side s) \<and> rle_wf (rle_side s) \<and> length (sn_DR s) = 64
     \<and> length (sn_line s) = CMD_SIZE \<and> unat (sn_len s) \<le> CMD_SIZE
     \<and> drain_armed (sn_rle s) = (sn_mode s = Rle) \<and> tim3_on (sn_rle s) = (sn_mode s = Rle)"

text \<open>What the run-length side must be for each mode.\<close>

lemma put_simps [simp]:
  "sn_usb (put_rle r s) = sn_usb s" "sn_clk (put_rle r s) = sn_clk s" "sn_rle (put_rle r s) = r"
  "sn_DR (put_rle r s) = sn_DR s" "sn_mode (put_rle r s) = sn_mode s" "sn_line (put_rle r s) = sn_line s"
  "sn_len (put_rle r s) = sn_len s" "sn_led (put_rle r s) = sn_led s" "sn_ticks (put_rle r s) = sn_ticks s"
  "sn_usb (put_clk c s) = sn_usb s" "sn_clk (put_clk c s) = c" "sn_rle (put_clk c s) = sn_rle s"
  "sn_DR (put_clk c s) = sn_DR s" "sn_mode (put_clk c s) = sn_mode s" "sn_line (put_clk c s) = sn_line s"
  "sn_len (put_clk c s) = sn_len s" "sn_led (put_clk c s) = sn_led s" "sn_ticks (put_clk c s) = sn_ticks s"
  "sn_usb (put_world w s) = snd w" "sn_ticks (put_world w s) = fst w" "sn_clk (put_world w s) = sn_clk s"
  "sn_rle (put_world w s) = sn_rle s" "sn_DR (put_world w s) = sn_DR s" "sn_mode (put_world w s) = sn_mode s"
  "sn_line (put_world w s) = sn_line s" "sn_len (put_world w s) = sn_len s" "sn_led (put_world w s) = sn_led s"
  by (simp_all add: put_rle_def put_clk_def put_world_def)

lemma side_ok [simp]:
  "clk_ok (clk_side s) \<longleftrightarrow> clk_ok ((sn_clk s)\<lparr>clk_DR := sn_DR s\<rparr>)"
  "rle_wf (rle_side s) \<longleftrightarrow> length (rle_ring (sn_rle s)) = 2048 \<and> length (sn_DR s) = 64"
  by (simp_all add: clk_side_def clk_ok_def rle_side_def rle_wf_def)

text \<open>Any register contents are the end of some history.\<close>

lemma fifo_exists:
  assumes "length (clk_DR c) = 64"
  shows "\<exists>w C. clk_fifo w c \<and> clk_sniffTail c = of_nat C \<and> C \<le> length w \<and> length w - C < 256"
proof -
  define C where "C = unat (clk_sniffTail c)"
  define g where "g = unat (clk_DR c ! CLK_HEAD - clk_sniffTail c)"
  define w where "w = map (\<lambda>p. clk_DR c ! (0x20 + p mod 16)) [0..<C + g]"
  have "(of_nat (length w) :: u8) = clk_DR c ! CLK_HEAD" by (simp add: w_def C_def g_def)
  moreover have "g < 256" by (simp add: g_def unat_u8_lt)
  ultimately show ?thesis
    using assms by (intro exI [of _ w] exI [of _ C]) (simp add: clk_fifo_def, simp add: w_def C_def)
qed

lemma clk_service_ok:
  assumes "board_ok B" "usb_inv B u" "clk_ok c"
  shows "\<exists>c' u'. clk_service (b_K B) P us now c u = Some (c', u') \<and> clk_ok c' \<and> clk_DR c' = clk_DR c \<and> usb_inv B u'"
proof -
  have K: "sdk_ok (b_K B)" "irq_ok (b_K B)" using assms(1) by (auto simp: board_ok_def)
  obtain w C where f: "clk_fifo w c" "clk_sniffTail c = of_nat C" "C \<le> length w" "length w - C < 256"
    using fifo_exists [of c] assms(3) by (auto simp: clk_ok_def)
  show ?thesis using clocked_service_facts [OF K assms(2,3) f, of P us now] by blast
qed

definition rle_same :: "rle \<Rightarrow> rle \<Rightarrow> bool" where
  "rle_same r r' \<longleftrightarrow> drain_armed r' = drain_armed r \<and> tim3_on r' = tim3_on r \<and> rle_ring r' = rle_ring r \<and> DR r' = DR r
     \<and> rle_sniffTail r' = rle_sniffTail r \<and> rle_sniffSlot r' = rle_sniffSlot r \<and> rle_ovfPioc r' = rle_ovfPioc r"

lemma rle_same_trans: "rle_same a b \<Longrightarrow> rle_same b c \<Longrightarrow> rle_same a c"
  by (simp add: rle_same_def)

lemma service_drain_same: "service_drain K k r u = Some (r', saw, u') \<Longrightarrow> rle_same r r'"
  by (auto simp: service_drain_def drain_upto_def rle_same_def Let_def split: Option.bind_splits if_splits prod.splits)

lemma service_loss_same: "service_loss r u = (r', u') \<Longrightarrow> rle_same r r'"
  by (auto simp: service_loss_def rle_same_def Let_def split: if_splits prod.splits)

lemma service_idle_same: "service_idle now saw r u = (r', u') \<Longrightarrow> rle_same r r'"
  by (auto simp: service_idle_def rle_same_def Let_def split: if_splits prod.splits)

lemma service_heartbeat_same: "service_heartbeat fcpu now r u = Some (r', u') \<Longrightarrow> rle_same r r'"
  by (auto simp: service_heartbeat_def rle_same_def split: if_splits)

lemma rle_service_same:
  assumes "rle_service K fcpu kbps now r u = Some (r', u')"
  shows "rle_same r r'"
proof -
  let ?r = "r\<lparr>loopCalls := loopCalls r + 1\<rparr>"
  obtain r1 saw u1 where d: "service_drain K (CAP_IDLE_K kbps) ?r u = Some (r1, saw, u1)"
    using assms by (auto simp: rle_service_def Let_def split: Option.bind_splits)
  define r2 where "r2 = (if ucast (usb_writeSpace u1) < txMinFree r1 then r1\<lparr>txMinFree := ucast (usb_writeSpace u1)\<rparr> else r1)"
  obtain r3 u3 where l: "service_loss r2 u1 = (r3, u3)" by fastforce
  obtain r4 u4 where i: "service_idle now saw r3 u3 = (r4, u4)" by fastforce
  have h: "service_heartbeat fcpu now r4 u4 = Some (r', u')"
    using assms unfolding rle_service_def Let_def d bind.bind_lunit prod.case r2_def [symmetric] l i by simp
  have "rle_same r ?r" "rle_same r1 r2" by (simp_all add: rle_same_def r2_def)
  then show ?thesis
    using service_drain_same [OF d] service_loss_same [OF l] service_idle_same [OF i] service_heartbeat_same [OF h]
    by (meson rle_same_trans)
qed

lemma rle_service_ok:
  assumes "board_ok B" "usb_inv B u"
  shows "\<exists>r' u'. rle_service (b_K B) fcpu kbps now r u = Some (r', u') \<and> usb_inv B u'"
proof -
  have K: "sdk_ok (b_K B)" "irq_ok (b_K B)" using assms(1) by (auto simp: board_ok_def)
  show ?thesis using rle_service_facts [OF K assms(2), of fcpu kbps now r] by blast
qed

lemma emitModeMarker_rx_len:
  assumes "rle_emitModeMarker fcpu u = Some u'"
  shows "rx_idle K x u u'"
proof -
  have "\<exists>xs. u' = u \<or> u' = snd (usb_write xs u)"
    using assms by (auto simp: rle_emitModeMarker_def Let_def split: Option.bind_splits if_splits)
  then show ?thesis using usb_write_rx_len [OF prod.collapse [symmetric]] by (auto simp: rx_idle_def)
qed

lemma emitModeMarker_mark:
  assumes "rx_inv R K u"
  shows "\<exists>u' mark. rle_emitModeMarker fcpu u = Some u' \<and> rx_inv R K u' \<and> usb_stream u' = usb_stream u @ mark
    \<and> mark \<in> {[], mode_block fcpu}"
proof -
  obtain u' where u': "rle_emitModeMarker fcpu u = Some u'" "rx_inv R K u'"
    "usb_stream u' = usb_stream u @ (if length (mode_block fcpu) \<le> unat (usb_writeSpace u) then mode_block fcpu else [])"
    using emitModeMarker_spec [OF assms, of fcpu] by blast
  then show ?thesis
    by (intro exI [of _ u'] exI [of _ "if length (mode_block fcpu) \<le> unat (usb_writeSpace u) then mode_block fcpu else []"])
      simp
qed

text \<open>The active datapath holds nothing of an earlier capture.\<close>

definition fresh :: "sniffer \<Rightarrow> bool" where
  "fresh s \<longleftrightarrow>
    (if sn_mode s = Rle then rle_list (sn_rle s) = [] \<and> capRun (sn_rle s) = 0 \<and> \<not> capPiped (sn_rle s)
     else open_bytes (sn_clk s) = [] \<and> (\<exists>rest. ring_list (clk_ring (sn_clk s)) = 0xFF # rest))"

lemma begin_mode_spec:
  assumes "board_ok B" "sn_inv B (s\<lparr>sn_mode := m0\<rparr>)" "\<not> drain_armed (sn_rle s)" "\<not> tim3_on (sn_rle s)" "sn_mode s = m"
  shows "\<exists>s' mark. begin_mode B m now s = Some s' \<and> sn_inv B s' \<and> sn_mode s' = m \<and> sn_line s' = sn_line s
    \<and> sn_len s' = sn_len s \<and> sent_on B (sn_usb s) mark (sn_usb s')
    \<and> mark \<in> {[], mode_block (b_fcpu B)} \<and> rx_same B (sn_usb s) (sn_usb s')
    \<and> fresh s'"
proof -
  have inv: "usb_inv B (sn_usb s)" "clk_ok ((sn_clk s)\<lparr>clk_DR := sn_DR s\<rparr>)" "length (rle_ring (sn_rle s)) = 2048"
    "length (sn_DR s) = 64" "length (sn_line s) = CMD_SIZE" "unat (sn_len s) \<le> CMD_SIZE"
    using assms(2) by (simp_all add: sn_inv_def)
  show ?thesis
  proof (cases "m = Rle")
    case True
    obtain u' mark where mk: "rle_emitModeMarker (b_fcpu B) (sn_usb s) = Some u'" "usb_inv B u'"
      "sent_on B (sn_usb s) mark u'" "mark \<in> {[], mode_block (b_fcpu B)}"
      using emitModeMarker_mark [OF inv(1), of "b_fcpu B"] by (blast intro: sent_eq)
    obtain r where r: "rle_begin (b_P B) (b_fcpu B) now (rle_side s) (sn_usb s) = Some (r, u')"
      "drain_armed r" "tim3_on r" "rle_ring r = rle_ring (sn_rle s)" "rle_list r = []" "capRun r = 0" "\<not> capPiped r"
      by (simp add: rle_begin_def Let_def mk(1) startDrainTimer_def rle_loadBlob_def rle_side_def rle_list_def
          rle_ringCount_def)
    let ?s = "(put_rle r s)\<lparr>sn_usb := u'\<rparr>"
    have "begin_mode B m now s = Some ?s" using True r(1) by (simp add: begin_mode_def)
    moreover have "sn_inv B ?s" using inv mk(2) r(2-4) assms(5) True by (simp add: sn_inv_def)
    moreover have "rx_same B (sn_usb s) u'" using emitModeMarker_rx_len [OF mk(1)] by (simp add: rx_same_def)
    ultimately show ?thesis
      using mk(3,4) assms(5) True r(5-7) by (intro exI [of _ ?s] exI [of _ mark]) (simp add: fresh_def)
  next
    case False
    have pre: "ring_wf (clk_ring (clk_side s))" "ring_len (clk_ring (clk_side s)) = 2048"
      "length (burstBuf (clk_side s)) = 768" "length (clk_DR (clk_side s)) = 64"
      using inv(2,4) by (simp_all add: clk_ok_def clk_side_def)
    obtain c where c: "clk_begin (b_P B) now (clk_side s) = Some c" "clk_ok c" "clk_DR c = sn_DR s"
      "open_bytes c = []" "\<exists>rest. ring_list (clk_ring c) = 0xFF # rest"
      using clk_begin_spec [OF pre, of "b_P B" now] by (auto simp: clk_side_def)
    let ?s = "put_clk c s"
    have "begin_mode B m now s = Some ?s" using False c(1) by (simp add: begin_mode_def)
    moreover have "sn_inv B ?s"
      using inv c(2,3) assms(3-5) False by (simp add: sn_inv_def) (simp add: clk_ok_def)
    ultimately show ?thesis
      using assms(5) c(4,5) False by (intro exI [of _ ?s] exI [of _ "[]"]) (simp add: fresh_def)
  qed
qed

lemma stop_active_spec:
  assumes "sn_inv B s"
  shows "\<not> drain_armed (sn_rle (stop_active s))" "\<not> tim3_on (sn_rle (stop_active s))"
    "sn_usb (stop_active s) = sn_usb s" "sn_ticks (stop_active s) = sn_ticks s" "sn_mode (stop_active s) = sn_mode s"
    "sn_line (stop_active s) = sn_line s" "sn_len (stop_active s) = sn_len s"
    "sn_inv B ((stop_active s)\<lparr>sn_mode := Clocked\<rparr>)"
proof -
  have mode: "sn_mode s = Clocked" if "sn_mode s \<noteq> Rle" using that by (cases "sn_mode s") simp_all
  have clk: "clk_ok ((clk_stop (clk_side s))\<lparr>clk_DR := sn_DR s\<rparr>)"
    using assms by (auto simp: sn_inv_def clk_ok_def clk_stop_def)
  show "\<not> drain_armed (sn_rle (stop_active s))" "\<not> tim3_on (sn_rle (stop_active s))"
    using assms by (auto simp: stop_active_def rle_stop_def sn_inv_def)
  then show "sn_inv B ((stop_active s)\<lparr>sn_mode := Clocked\<rparr>)"
    using assms clk by (auto simp: sn_inv_def stop_active_def rle_stop_def rle_side_def rle_wf_def)
qed (simp_all add: stop_active_def)

lemma sn_millis_spec:
  assumes "board_ok B" "usb_inv B (sn_usb s)"
  shows "\<exists>now w. sn_millis B s = Some (now, put_world w s) \<and> usb_inv B (snd w)
    \<and> sent_on B (sn_usb s) [] (snd w)
    \<and> rx_same B (sn_usb s) (snd w)"
proof -
  obtain u' where "millis B (sn_ticks s, sn_usb s) = Some (b_ms B (sn_ticks s), sn_ticks s + 1, u')"
    "usb_inv B u'" "sent_on B (sn_usb s) [] u'"
    "rx_same B (sn_usb s) u'"
    using millis_spec [OF assms, of "sn_ticks s"] by blast
  then show ?thesis
    by (intro exI [of _ "b_ms B (sn_ticks s)"] exI [of _ "(sn_ticks s + 1, u')"]) (simp add: sn_millis_def)
qed

lemma sn_inv_world: "sn_inv B s \<Longrightarrow> usb_inv B (snd w) \<Longrightarrow> sn_inv B (put_world w s)"
  by (simp add: sn_inv_def)

lemma switch_spec:
  assumes "board_ok B" "sn_inv B s"
  shows "\<exists>s' n mark. unifiedSwitchTo B m s = Some s' \<and> sn_inv B s' \<and> sn_mode s' = m
    \<and> sn_line s' = sn_line s \<and> sn_len s' = sn_len s
    \<and> sent_on B (sn_usb s) (take n SEAM @ mark) (sn_usb s') \<and> n \<le> 3
    \<and> mark \<in> {[], mode_block (b_fcpu B)} \<and> (3 \<le> unat (usb_writeSpace (sn_usb s)) \<longrightarrow> n = 3)
    \<and> rx_same B (sn_usb s) (sn_usb s') \<and> fresh s'"
proof -
  let ?s = "stop_active s"
  note st = stop_active_spec [OF assms(2)]
  have rx: "usb_inv B (snd (sn_ticks ?s, sn_usb ?s))" using assms(2) st(3) by (simp add: sn_inv_def)
  have sm: "length SEAM = 3" by (simp add: SEAM_def)
  have len: "0 \<le> length SEAM" "length SEAM < 2 ^ 32" "(0 :: nat) \<le> 100000" by (simp_all add: sm)
  from write_loop_spec [OF assms(1) rx len] obtain n g w where
    wl: "write_loop B 100000 SEAM 0 0 (sn_ticks ?s, sn_usb ?s) = Some (n, g, w)" "usb_inv B (snd w)" "n \<le> 3"
    "sent_on B (sn_usb s) (take n SEAM) (snd w)"
    "3 \<le> unat (usb_writeSpace (sn_usb s)) \<longrightarrow> n = 3"
    "rx_same B (sn_usb s) (snd w)"
    by (auto simp: sm st(3))
  let ?t = "(put_world w ?s)\<lparr>sn_mode := m\<rparr>"
  have "usb_inv B (sn_usb ?t)" using wl(2) by simp
  from sn_millis_spec [OF assms(1) this] obtain now w2 where
    m2: "sn_millis B ?t = Some (now, put_world w2 ?t)" "usb_inv B (snd w2)" "sent_on B (snd w) [] (snd w2)"
    "rx_same B (snd w) (snd w2)"
    by auto
  let ?u = "put_world w2 ?t"
  have inv: "sn_inv B (?u\<lparr>sn_mode := Clocked\<rparr>)"
    using st(8) m2(2) by (simp add: sn_inv_def)
  have dis: "\<not> drain_armed (sn_rle ?u)" "\<not> tim3_on (sn_rle ?u)" "sn_mode ?u = m"
    using st(1,2) by (simp_all add: put_world_def)
  from begin_mode_spec [OF assms(1) inv dis, of now] obtain s' mark where
    b: "begin_mode B m now ?u = Some s'" "sn_inv B s'" "sn_mode s' = m" "sn_line s' = sn_line s" "sn_len s' = sn_len s"
    "sent_on B (snd w2) mark (sn_usb s')" "mark \<in> {[], mode_block (b_fcpu B)}"
    "rx_same B (snd w2) (sn_usb s')" "fresh s'"
    using st(6,7) by auto
  have run: "unifiedSwitchTo B m s = Some s'"
    by (simp only: unifiedSwitchTo_def Let_def wl(1) bind.bind_lunit prod.case m2(1) b(1))
  have stream: "sent_on B (sn_usb s) (take n SEAM @ mark) (sn_usb s')"
    using sent_trans [OF sent_trans [OF wl(4) m2(3)] b(6)] by simp
  have rl: "rx_same B (sn_usb s) (sn_usb s')"
    using rx_same_trans [OF rx_same_trans [OF wl(6) m2(4)] b(8)] .
  show ?thesis
    by (rule exI [of _ s'], rule exI [of _ n], rule exI [of _ mark]) (intro conjI run b(2-5) stream wl(3) b(7) wl(5) rl b(9))
qed

end
