(* ===== verification/MainLoop.thy ===== *)
theory MainLoop
  imports MainRun
begin

text \<open>
  The command line and the main loop of the product: every round keeps the invariant, the poll of the
  command line returns, and what the line accumulator hands to the parser.
\<close>

subsection \<open>One command byte\<close>

lemma cmd_byte_spec:
  assumes "board_ok B" "sn_inv B s"
  shows "\<exists>s'. cmd_byte B b s = Some s' \<and> sn_inv B s'
    \<and> rx_same B (sn_usb s) (sn_usb s')"
proof -
  have line: "length (sn_line s) = CMD_SIZE" using assms(2) by (simp add: sn_inv_def)
  consider (empty) "b = 0x0A \<or> b = 0x0D" "sn_len s = 0"
    | (line) "b = 0x0A \<or> b = 0x0D" "sn_len s \<noteq> 0"
    | (char) "\<not> (b = 0x0A \<or> b = 0x0D)" "unat (sn_len s) < CMD_SIZE"
    | (long) "\<not> (b = 0x0A \<or> b = 0x0D)" "\<not> unat (sn_len s) < CMD_SIZE"
    by blast
  then show ?thesis
  proof cases
    case empty
    then show ?thesis using assms(2) by (simp add: cmd_byte_def)
  next
    case line
    let ?c = "parse (map (char_of \<circ> unat) (take (unat (sn_len s)) (sn_line s)))"
    obtain t where t: "(if valid ?c \<and> mode ?c \<noteq> sn_mode s then unifiedSwitchTo B (mode ?c) s else Some s) = Some t"
      "sn_inv B t" "rx_same B (sn_usb s) (sn_usb t)"
    proof (cases "valid ?c \<and> mode ?c \<noteq> sn_mode s")
      case True
      then show ?thesis using that switch_spec [OF assms, of "mode ?c"] by auto
    next
      case False
      then show ?thesis using that [of s] assms(2) by auto
    qed
    have "cmd_byte B b s = Some (t\<lparr>sn_len := 0\<rparr>)"
      using line t(1) by (simp add: cmd_byte_def Let_def)
    then show ?thesis using t(2,3) by (simp add: sn_inv_def)
  next
    case char
    then have lt: "unat (sn_len s) < 24" by (simp add: CMD_SIZE_def)
    then have "unat (sn_len s + 1) = Suc (unat (sn_len s))" by (simp add: unat_word_ariths)
    moreover have "cmd_byte B b s = Some (s\<lparr>sn_line := (sn_line s)[unat (sn_len s) := b], sn_len := sn_len s + 1\<rparr>)"
      using char line by (simp add: cmd_byte_def put_def)
    ultimately show ?thesis using assms(2) lt by (simp add: sn_inv_def CMD_SIZE_def)
  next
    case long
    then show ?thesis using assms(2) by (simp add: cmd_byte_def sn_inv_def)
  qed
qed

subsection \<open>The poll\<close>

lemma read_one:
  assumes "usb_inv B u" "usb_available u \<noteq> 0"
  shows "\<exists>b u'. usb_read 1 u = ([b], u') \<and> usb_inv B u' \<and> Suc (rx_len (b_K B) u') = rx_len (b_K B) u"
proof -
  obtain xs u' where r: "usb_read 1 u = (xs, u')" by fastforce
  note u' = usb_read_rx [OF assms(1) r]
  have "length (ring_list (rx_ring u)) \<noteq> 0"
    using assms(2) by (simp add: usb_available_def unat_eq_0)
  moreover have "xs = take 1 (ring_list (rx_ring u))"
    using r ring_pop_list(1) [of 1 "rx_ring u"] by (simp add: usb_read_def case_prod_beta del: ring_list_length)
  ultimately obtain b where "xs = [b]" by (cases "ring_list (rx_ring u)") auto
  then show ?thesis using r u'(1) arg_cong [OF u'(3), of length] by (auto simp: rx_len_def)
qed

lemma poll_inv:
  assumes "unifiedPollCommand B s = Some s'" "board_ok B" "sn_inv B s"
  shows "sn_inv B s'"
proof -
  have "board_ok B \<longrightarrow> sn_inv B s \<longrightarrow> sn_inv B s'"
  proof (rule unifiedPollCommand.raw_induct [OF _ assms(1), where P = "\<lambda>B s s'. board_ok B \<longrightarrow> sn_inv B s \<longrightarrow> sn_inv B s'"],
      intro impI)
    fix poll :: "board \<Rightarrow> sniffer \<Rightarrow> sniffer option" and B s s'
    assume IH: "\<And>B s s'. poll B s = Some s' \<Longrightarrow> board_ok B \<longrightarrow> sn_inv B s \<longrightarrow> sn_inv B s'"
      and step: "(if usb_available (sn_usb s) = 0 then Some s
         else let (xs, u) = usb_read 1 (sn_usb s); s = s\<lparr>sn_usb := u\<rparr>
              in case xs of [] \<Rightarrow> Some s | b # _ \<Rightarrow> Option.bind (cmd_byte B b s) (poll B)) = Some s'"
      and ok: "board_ok B" "sn_inv B s"
    show "sn_inv B s'"
    proof (cases "usb_available (sn_usb s) = 0")
      case True
      then show ?thesis using step ok by simp
    next
      case False
      have "usb_inv B (sn_usb s)" using ok(2) by (simp add: sn_inv_def)
      from read_one [OF this False] obtain b u where r: "usb_read 1 (sn_usb s) = ([b], u)" "usb_inv B u"
        by blast
      have "sn_inv B (s\<lparr>sn_usb := u\<rparr>)" using ok(2) r(2) by (simp add: sn_inv_def)
      from cmd_byte_spec [OF ok(1) this, of b] obtain t where t: "cmd_byte B b (s\<lparr>sn_usb := u\<rparr>) = Some t" "sn_inv B t"
        by blast
      have "poll B t = Some s'" using step False r(1) t(1) by simp
      then show ?thesis using IH ok(1) t(2) by blast
    qed
  qed
  then show ?thesis using assms(2,3) by blast
qed

lemma poll_ends:
  assumes "board_ok B" "host_silent B" "sn_inv B s"
  shows "\<exists>s'. unifiedPollCommand B s = Some s' \<and> usb_available (sn_usb s') = 0"
  using assms(3)
proof (induction "rx_len (b_K B) (sn_usb s)" arbitrary: s rule: less_induct)
  case less
  show ?case
  proof (cases "usb_available (sn_usb s) = 0")
    case True
    then show ?thesis by (simp add: unifiedPollCommand.simps [of B s])
  next
    case False
    have "usb_inv B (sn_usb s)" using less.prems by (simp add: sn_inv_def)
    from read_one [OF this False] obtain b u where r: "usb_read 1 (sn_usb s) = ([b], u)" "usb_inv B u"
      "Suc (rx_len (b_K B) u) = rx_len (b_K B) (sn_usb s)"
      by blast
    have "sn_inv B (s\<lparr>sn_usb := u\<rparr>)" using less.prems r(2) by (simp add: sn_inv_def)
    from cmd_byte_spec [OF assms(1) this, of b] obtain t where t: "cmd_byte B b (s\<lparr>sn_usb := u\<rparr>) = Some t" "sn_inv B t"
      "rx_same B u (sn_usb t)"
      by auto
    then have "rx_len (b_K B) (sn_usb t) < rx_len (b_K B) (sn_usb s)" using rx_same_len [OF t(3) assms(2)] r(3) by simp
    from less.hyps [OF this t(2)] obtain s' where "unifiedPollCommand B t = Some s'" "usb_available (sn_usb s') = 0"
      by blast
    moreover have "unifiedPollCommand B s = unifiedPollCommand B t"
      using False r(1) t(1) by (simp add: unifiedPollCommand.simps [of B s])
    ultimately show ?thesis by simp
  qed
qed

subsection \<open>One round\<close>

lemma service_active_spec:
  assumes "board_ok B" "sn_inv B s"
  shows "\<exists>s'. service_active B now s = Some s' \<and> sn_inv B s'"
proof -
  have rx: "usb_inv B (sn_usb s)" using assms(2) by (simp add: sn_inv_def)
  show ?thesis
  proof (cases "sn_mode s = Rle")
    case True
    obtain r u where r: "rle_service (b_K B) (b_fcpu B) (b_kbps B) now (rle_side s) (sn_usb s) = Some (r, u)"
      "usb_inv B u"
      using rle_service_ok [OF assms(1) rx, of "b_fcpu B" "b_kbps B" now "rle_side s"] by blast
    have same: "drain_armed r = drain_armed (sn_rle s)" "tim3_on r = tim3_on (sn_rle s)" "rle_ring r = rle_ring (sn_rle s)"
      using rle_service_same [OF r(1)] by (simp_all add: rle_same_def rle_side_def)
    have "service_active B now s = Some ((put_rle r s)\<lparr>sn_usb := u\<rparr>)"
      using True r(1) by (simp add: service_active_def)
    moreover have "sn_inv B ((put_rle r s)\<lparr>sn_usb := u\<rparr>)"
      using assms(2) r(2) same by (simp add: sn_inv_def)
    ultimately show ?thesis by blast
  next
    case False
    have "clk_ok (clk_side s)" using assms(2) by (simp add: sn_inv_def)
    from clk_service_ok [OF assms(1) rx this, of "b_P B" "b_us B" now] obtain c u where
      c: "clk_service (b_K B) (b_P B) (b_us B) now (clk_side s) (sn_usb s) = Some (c, u)" "clk_ok c"
      "clk_DR c = sn_DR s" "usb_inv B u"
      by (auto simp: clk_side_def)
    have "service_active B now s = Some ((put_clk c s)\<lparr>sn_usb := u\<rparr>)"
      using False c(1) by (simp add: service_active_def)
    moreover have "c\<lparr>clk_DR := sn_DR s\<rparr> = c" using c(3) by (metis clk.surjective clk.update_convs(1) clk.select_convs(1))
    then have "sn_inv B ((put_clk c s)\<lparr>sn_usb := u\<rparr>)"
      using assms(2) c(2,4) by (simp add: sn_inv_def)
    ultimately show ?thesis by blast
  qed
qed

lemma sn_inv_led [simp]: "sn_inv B (s\<lparr>sn_led := l\<rparr>) = sn_inv B s" "sn_inv B (heartbeat now s) = sn_inv B s"
  "sn_inv B (s\<lparr>sn_nextLed := t\<rparr>) = sn_inv B s"
  by (simp_all add: sn_inv_def heartbeat_def clk_side_def rle_side_def)

text \<open>Everything of a round up to the poll, and everything after it.\<close>

lemma round_front:
  assumes "board_ok B" "sn_inv B s"
  shows "\<exists>now t. sn_inv B t \<and> main_round B s = do {
      s \<leftarrow> unifiedPollCommand B t;
      let s = heartbeat now s;
      if initialized (sn_led s) then do {
        (t, s) \<leftarrow> sn_millis B s;
        Some (s\<lparr>sn_led := led_tick t (sn_led s)\<rparr>) }
      else Some s }"
proof -
  have "usb_inv B (sn_usb s)" using assms(2) by (simp add: sn_inv_def)
  from sn_millis_spec [OF assms(1) this] obtain now w where
    m: "sn_millis B s = Some (now, put_world w s)" "usb_inv B (snd w)" by blast
  obtain u where u: "usb_tick (b_K B) now (snd w) = Some u" "usb_inv B u"
    using usb_tick_stream [OF assms(1) m(2)] by blast
  have "sn_inv B ((put_world w s)\<lparr>sn_usb := u\<rparr>)" using assms(2) u(2) by (simp add: sn_inv_def)
  from service_active_spec [OF assms(1) this, of now] obtain t where
    t: "service_active B now ((put_world w s)\<lparr>sn_usb := u\<rparr>) = Some t" "sn_inv B t" by blast
  have "usb_tick (b_K B) now (sn_usb (put_world w s)) = Some u" using u(1) by simp
  then show ?thesis
    unfolding main_round_def m(1) bind.bind_lunit prod.case using t by (intro exI [of _ now] exI [of _ t]) simp
qed

lemma round_back:
  assumes "board_ok B" "sn_inv B s"
  shows "\<exists>s'. (let s = heartbeat now s in
      if initialized (sn_led s) then do {
        (t, s) \<leftarrow> sn_millis B s;
        Some (s\<lparr>sn_led := led_tick t (sn_led s)\<rparr>) }
      else Some s) = Some s' \<and> sn_inv B s'"
proof -
  let ?h = "heartbeat now s"
  have inv: "sn_inv B ?h" using assms(2) by simp
  then have "usb_inv B (sn_usb ?h)" by (simp add: sn_inv_def)
  from sn_millis_spec [OF assms(1) this] obtain t w where
    m: "sn_millis B ?h = Some (t, put_world w ?h)" "usb_inv B (snd w)" by blast
  have "sn_inv B (put_world w ?h)" by (rule sn_inv_world [OF inv m(2)])
  then show ?thesis using inv m(1) by (cases "initialized (sn_led ?h)") (simp_all add: Let_def)
qed

lemma main_round_inv:
  assumes "board_ok B" "sn_inv B s" "main_round B s = Some s'"
  shows "sn_inv B s'"
proof -
  obtain now t where f: "sn_inv B t" "main_round B s = do {
      s \<leftarrow> unifiedPollCommand B t;
      let s = heartbeat now s;
      if initialized (sn_led s) then do {
        (t, s) \<leftarrow> sn_millis B s;
        Some (s\<lparr>sn_led := led_tick t (sn_led s)\<rparr>) }
      else Some s }"
    using round_front [OF assms(1,2)] by blast
  obtain v where v: "unifiedPollCommand B t = Some v"
    using assms(3) unfolding f(2) by (cases "unifiedPollCommand B t") simp_all
  show ?thesis
    using round_back [OF assms(1) poll_inv [OF v assms(1) f(1)], of now] assms(3) unfolding f(2) v by auto
qed

lemma main_round_ends:
  assumes "board_ok B" "host_silent B" "sn_inv B s"
  shows "\<exists>s'. main_round B s = Some s'"
proof -
  obtain now t where f: "sn_inv B t" "main_round B s = do {
      s \<leftarrow> unifiedPollCommand B t;
      let s = heartbeat now s;
      if initialized (sn_led s) then do {
        (t, s) \<leftarrow> sn_millis B s;
        Some (s\<lparr>sn_led := led_tick t (sn_led s)\<rparr>) }
      else Some s }"
    using round_front [OF assms(1,3)] by blast
  obtain v where v: "unifiedPollCommand B t = Some v" using poll_ends [OF assms(1,2) f(1)] by blast
  show ?thesis
    using round_back [OF assms(1) poll_inv [OF v assms(1) f(1)], of now] unfolding f(2) v by auto
qed

subsection \<open>The interrupt\<close>

lemma mask_store_length [simp]: "length (mask_store p xs buf) = length buf"
  by (induction xs arbitrary: p buf) simp_all

lemma drain_resync_same:
  assumes "drain_resync h r = (r', gap, slot)"
  shows "drain_armed r' = drain_armed r \<and> tim3_on r' = tim3_on r \<and> rle_ring r' = rle_ring r
    \<and> capRun r' = capRun r \<and> capPiped r' = capPiped r"
  using assms unfolding drain_resync_def Let_def by (auto split: if_splits)

lemma let_all: "(\<And>x. x = a \<Longrightarrow> P (f x)) \<Longrightarrow> P (Let a f)"
  by (simp add: Let_def)

lemma drain_copy_same:
  "drain_armed (drain_copy raw gap slot r) = drain_armed r \<and> tim3_on (drain_copy raw gap slot r) = tim3_on r
    \<and> length (rle_ring (drain_copy raw gap slot r)) = length (rle_ring r)
    \<and> capRun (drain_copy raw gap slot r) = capRun r \<and> capPiped (drain_copy raw gap slot r) = capPiped r"
  (is "?P (drain_copy raw gap slot r)")
  unfolding drain_copy_def by (rule let_all [where P = ?P])+ simp

lemma drainPioc_same:
  "drain_armed (drainPioc r) = drain_armed r \<and> tim3_on (drainPioc r) = tim3_on r
    \<and> length (rle_ring (drainPioc r)) = length (rle_ring r)
    \<and> capRun (drainPioc r) = capRun r \<and> capPiped (drainPioc r) = capPiped r"
proof -
  obtain r' gap slot where d: "drain_resync (DR r ! RING_HEAD) r = (r', gap, slot)"
    by (cases "drain_resync (DR r ! RING_HEAD) r") blast
  show ?thesis unfolding drainPioc_def Let_def d prod.case using drain_resync_same [OF d] by (simp add: drain_copy_same)
qed

lemma irq_inv:
  assumes "sn_inv B s"
  shows "sn_inv B (put_rle (TIM3_IRQHandler (rle_side s)) s)"
proof -
  let ?r = "TIM3_IRQHandler (rle_side s)"
  have "drain_armed ?r = drain_armed (sn_rle s)" "tim3_on ?r = tim3_on (sn_rle s)"
    "length (rle_ring ?r) = length (rle_ring (sn_rle s))"
    using drainPioc_same [of "(rle_side s)\<lparr>tim3_flag := False\<rparr>"]
    by (simp_all add: TIM3_IRQHandler_def Let_def) (simp_all add: rle_side_def)
  then show ?thesis using assms by (simp add: sn_inv_def)
qed

lemma sn_step_inv: "sn_step B s s' \<Longrightarrow> board_ok B \<Longrightarrow> sn_inv B s \<Longrightarrow> sn_inv B s'"
proof (induction rule: sn_step.induct)
  case (Round s s')
  then show ?case using main_round_inv by blast
next
  case (Irq s)
  then show ?case using irq_inv by blast
qed (simp_all add: sn_inv_def clk_ok_def clk_side_def)

lemma sn_run_inv: "sn_run B s t \<Longrightarrow> board_ok B \<Longrightarrow> sn_inv B s \<Longrightarrow> sn_inv B t"
  by (induction rule: sn_run.induct) (auto intro: sn_step_inv)

text \<open>Before \<open>main\<close> starts a datapath none is alive.\<close>

definition boot_ok :: "board \<Rightarrow> sniffer \<Rightarrow> bool" where
  "boot_ok B s \<longleftrightarrow> sn_inv B (s\<lparr>sn_mode := Clocked\<rparr>)"

lemma main_start_spec:
  assumes "board_ok B" "boot_ok B s"
  shows "\<exists>s'. main_start B s = Some s' \<and> sn_inv B s'"
proof -
  have c: "sn_inv B (s\<lparr>sn_mode := Clocked\<rparr>)" using assms(2) by (simp add: boot_ok_def)
  then have rx: "usb_inv B (sn_usb s)" and dis: "\<not> drain_armed (sn_rle s)" "\<not> tim3_on (sn_rle s)"
    by (simp_all add: sn_inv_def)
  from sn_millis_spec [OF assms(1) rx] obtain now w where
    m: "sn_millis B s = Some (now, put_world w s)" "usb_inv B (snd w)" by blast
  have inv: "sn_inv B ((put_world w s)\<lparr>sn_mode := Clocked\<rparr>)" using c m(2) by (simp add: sn_inv_def)
  have "\<not> drain_armed (sn_rle (put_world w s))" "\<not> tim3_on (sn_rle (put_world w s))" "sn_mode (put_world w s) = sn_mode s"
    using dis by simp_all
  from begin_mode_spec [OF assms(1) inv this, of now] obtain t where
    t: "begin_mode B (sn_mode s) now (put_world w s) = Some t" "sn_inv B t" by blast
  have "usb_inv B (sn_usb t)" using t(2) by (simp add: sn_inv_def)
  from sn_millis_spec [OF assms(1) this] obtain x w2 where
    m2: "sn_millis B t = Some (x, put_world w2 t)" "usb_inv B (snd w2)" by blast
  have "sn_inv B (put_world w2 t)" by (rule sn_inv_world [OF t(2) m2(2)])
  then show ?thesis by (simp add: main_start_def m(1) t(1) m2(1))
qed

subsection \<open>The line accumulator\<close>

fun cmd_bytes :: "board \<Rightarrow> u8 list \<Rightarrow> sniffer \<Rightarrow> sniffer option" where
  "cmd_bytes B [] s = Some s"
| "cmd_bytes B (b # bs) s = Option.bind (cmd_byte B b s) (cmd_bytes B bs)"

lemma cmd_bytes_line:
  assumes "length (sn_line s) = 24" "unat (sn_len s) \<le> 24" "0x0A \<notin> set xs" "0x0D \<notin> set xs"
    "take (unat (sn_len s)) (sn_line s) = drop (25 * (length pre div 25)) pre" "unat (sn_len s) = length pre mod 25"
  shows "\<exists>l n. cmd_bytes B xs s = Some (s\<lparr>sn_line := l, sn_len := n\<rparr>) \<and> length l = 24
    \<and> take (unat n) l = drop (25 * (length (pre @ xs) div 25)) (pre @ xs) \<and> unat n = length (pre @ xs) mod 25"
  using assms
proof (induction xs arbitrary: s pre)
  case Nil
  then show ?case by (intro exI [of _ "sn_line s"] exI [of _ "sn_len s"]) simp
next
  case (Cons x xs)
  have x: "\<not> (x = 0x0A \<or> x = 0x0D)" using Cons.prems(3,4) by auto
  let ?n = "unat (sn_len s)" and ?p = "pre @ [x]"
  have pre: "length pre = 25 * (length pre div 25) + ?n" using Cons.prems(6) by simp
  obtain t where t: "cmd_byte B x s = Some t" "t = s\<lparr>sn_line := sn_line t, sn_len := sn_len t\<rparr>"
    "length (sn_line t) = 24" "unat (sn_len t) \<le> 24"
    "take (unat (sn_len t)) (sn_line t) = drop (25 * (length ?p div 25)) ?p" "unat (sn_len t) = length ?p mod 25"
  proof (cases "?n < 24")
    case True
    let ?t = "s\<lparr>sn_line := (sn_line s)[?n := x], sn_len := sn_len s + 1\<rparr>"
    have n1: "unat (sn_len s + 1) = Suc ?n" using True by (simp add: unat_word_ariths)
    have len: "length ?p = 25 * (length pre div 25) + Suc ?n" using pre by simp
    have dm: "length ?p div 25 = length pre div 25" "length ?p mod 25 = Suc ?n"
      unfolding len using True by simp_all
    have "take (Suc ?n) ((sn_line s)[?n := x]) = take ?n (sn_line s) @ [x]"
      using True Cons.prems(1) by (simp add: take_Suc_conv_app_nth)
    moreover have "drop (25 * (length ?p div 25)) ?p = drop (25 * (length pre div 25)) pre @ [x]"
      unfolding dm(1) by simp
    ultimately have "take (unat (sn_len ?t)) (sn_line ?t) = drop (25 * (length ?p div 25)) ?p"
      using n1 Cons.prems(5) by simp
    moreover have "cmd_byte B x s = Some ?t"
      using x True Cons.prems(1) by (simp add: cmd_byte_def CMD_SIZE_def put_def)
    ultimately show ?thesis using that [of ?t] n1 dm(2) True Cons.prems(1) by simp
  next
    case False
    then have n: "?n = 24" using Cons.prems(2) by simp
    have len: "length ?p = 25 * (length pre div 25 + 1)" using pre n by simp
    have "cmd_byte B x s = Some (s\<lparr>sn_len := 0\<rparr>)" using x n by (simp add: cmd_byte_def CMD_SIZE_def)
    moreover obtain m where m: "length ?p = 25 * m" using len by blast
    moreover have "drop (25 * m) ?p = []" using m by (simp only: drop_all order_refl)
    ultimately have "cmd_byte B x s = Some (s\<lparr>sn_len := 0\<rparr>)" "length ?p mod 25 = 0"
      "drop (25 * (length ?p div 25)) ?p = []" by (simp_all only: mod_mult_self1_is_0 nonzero_mult_div_cancel_left num.distinct
        zero_neq_numeral not_False_eq_True simp_thms)
    then show ?thesis using that [of "s\<lparr>sn_len := 0\<rparr>"] Cons.prems(1) by simp
  qed
  have "0x0A \<notin> set xs" "0x0D \<notin> set xs" using Cons.prems(3,4) by auto
  from Cons.IH [OF t(3,4) this t(5,6)] obtain l n where r:
    "cmd_bytes B xs t = Some (t\<lparr>sn_line := l, sn_len := n\<rparr>)" "length l = 24"
    "take (unat n) l = drop (25 * (length (?p @ xs) div 25)) (?p @ xs)" "unat n = length (?p @ xs) mod 25"
    by blast
  have "t\<lparr>sn_line := l, sn_len := n\<rparr> = s\<lparr>sn_line := l, sn_len := n\<rparr>" by (subst t(2)) simp
  then have "cmd_bytes B (x # xs) s = Some (s\<lparr>sn_line := l, sn_len := n\<rparr>)" using t(1) r(1) by simp
  then show ?case using r(2-4) by (intro exI [of _ l] exI [of _ n]) simp
qed

subsection \<open>The properties\<close>

text \<open>
  The concrete board and start state of the witnesses: the host reads the device descriptor over and over,
  polls bulk IN and suspends the bus.
\<close>

definition wch_board :: board where
  "wch_board = \<lparr>b_K = wch, b_P = \<lparr>RB_MST_RESET = 2, RB_MST_IO_EN0 = 4, RB_MST_IO_EN1 = 8, RB_MST_CLK_GATE = 1\<rparr>,
     b_fcpu = 144000000, b_kbps = 1000, b_us = (\<lambda>k. of_nat k), b_ms = (\<lambda>k. of_nat k),
     b_env = (\<lambda>k. if even k then [HostSetup 0x30 [0x80, 0x06, 0, 0x01, 0, 0, 18, 0]]
                     else [HostEp0In 0x20, HostIn 0x23, HostSuspend 0x04])\<rparr>"

definition sniffer_boot :: sniffer where
  "sniffer_boot = (sniffer_static (replicate 64 0))\<lparr>sn_usb := (busReset wch usb_static)\<lparr>INT_FG := 0\<rparr>\<rparr>"

text \<open>The same board with a host that also resets the bus, again and again.\<close>

definition reset_board :: board where
  "reset_board = wch_board\<lparr>b_env := (\<lambda>k. HostReset # b_env wch_board k)\<rparr>"

lemma wch_board_K [simp]: "b_K wch_board = wch" "b_K reset_board = wch"
  by (simp_all add: wch_board_def reset_board_def)

lemma wch_board_ok: "board_ok wch_board" "host_silent wch_board" "board_ok reset_board" "host_silent reset_board"
  "one_session wch_board" "\<not> resets wch_board"
  using wch_ok wch_irq_ok
  by (simp_all add: board_ok_def host_silent_def one_session_def resets_def reset_board_def wch_board_def setup_ok_def
      over_reads_def halts_ep2_def opens_port_def class_pkt_def)

lemma boot_sn_inv:
  assumes "b_K B = wch"
  shows "sn_inv B sniffer_boot" "boot_ok B sniffer_boot"
proof -
  have inv: "rx_inv R wch ((busReset wch usb_static)\<lparr>INT_FG := 0\<rparr>)" for R
    by (rule reset_rx_inv(1) [OF wch_ok usb_static_ok])
  have "(clk_static (replicate 64 0))\<lparr>clk_DR := replicate 64 0, clk_SYS_CFG := 0\<rparr> = clk_static (replicate 64 0)"
    by (simp add: clk_static_def)
  moreover have "\<not> drain_armed (rle_static (replicate 64 0))" "\<not> tim3_on (rle_static (replicate 64 0))"
    "length (rle_ring (rle_static (replicate 64 0))) = 2048"
    by (simp_all add: rle_static_def RING_SZ_def)
  ultimately show ok: "sn_inv B sniffer_boot"
    using inv assms clk_static_ok(1) by (simp add: sn_inv_def sniffer_boot_def sniffer_static_def clk_side_def rle_side_def rle_wf_def)
  have "sniffer_boot\<lparr>sn_mode := Clocked\<rparr> = sniffer_boot" by (simp add: sniffer_boot_def sniffer_static_def)
  then show "boot_ok B sniffer_boot" using ok by (simp add: boot_ok_def)
qed

lemmas sniffer_boot_ok = boot_sn_inv [OF wch_board_K(1)]

text \<open>
  C3. One datapath at a time. From boot, whatever the host (bulk data, control transfers, suspends, bus
  resets), the PIOC, the timer flag and the drain interrupt do between the rounds of the main loop, the
  drain timer and the drain run exactly while the mode is run-length capture; in the clocked mode a late
  timer interrupt only acknowledges its flag and touches no capture state. The state stays well formed,
  and against a host that sends no bulk data every further round of the main loop returns. Of the host's
  requests two kinds are left out, because they break the bulk data: a GET_LINE_CODING of more than
  seven bytes and ENDPOINT_HALT on endpoint 0x02.
\<close>

theorem one_datapath:
  assumes "board_ok B" "boot_ok B s0" "main_start B s0 = Some s" "sn_run B s t"
  shows "sn_inv B t \<and> drain_armed (sn_rle t) = (sn_mode t = Rle) \<and> tim3_on (sn_rle t) = (sn_mode t = Rle)
    \<and> (sn_mode t = Clocked \<longrightarrow> TIM3_IRQHandler (rle_side t) = (rle_side t)\<lparr>tim3_flag := False\<rparr>)
    \<and> (host_silent B \<longrightarrow> (\<exists>t'. main_round B t = Some t'))"
proof -
  have inv: "sn_inv B t"
    using sn_run_inv [OF assms(4,1)] main_start_spec [OF assms(1,2)] assms(3) by auto
  then have d: "drain_armed (sn_rle t) = (sn_mode t = Rle)" "tim3_on (sn_rle t) = (sn_mode t = Rle)"
    by (simp_all add: sn_inv_def)
  moreover have "TIM3_IRQHandler (rle_side t) = (rle_side t)\<lparr>tim3_flag := False\<rparr>" if "sn_mode t = Clocked"
    using d(1) that by (cases "tim3_flag (rle_side t)") (simp_all add: TIM3_IRQHandler_def rle_side_def)
  ultimately show ?thesis using inv main_round_ends [OF assms(1) _ inv] by blast
qed

theorem one_datapath_witness:
  "\<exists>s. main_start reset_board sniffer_boot = Some s
    \<and> sn_inv reset_board (put_rle (TIM3_IRQHandler (rle_side s)) s)
    \<and> (\<exists>t. main_round reset_board (put_rle (TIM3_IRQHandler (rle_side s)) s) = Some t)"
proof -
  note boot = boot_sn_inv(2) [OF wch_board_K(2)]
  obtain s where s: "main_start reset_board sniffer_boot = Some s"
    using main_start_spec [OF wch_board_ok(3) boot] by blast
  have "sn_run reset_board s (put_rle (TIM3_IRQHandler (rle_side s)) s)"
    by (rule sn_next [OF sn_refl Irq])
  then show ?thesis
    using one_datapath [OF wch_board_ok(3) boot s] wch_board_ok(4) s by blast
qed



text \<open>
  The command poll ends. If the host sends no more data, whatever control transfers it does, the loop that
  reads the pending bytes, and switches mode between them, returns with nothing left to read.
\<close>

theorem poll_returns:
  assumes "board_ok B" "host_silent B" "sn_inv B s"
  shows "\<exists>s'. unifiedPollCommand B s = Some s' \<and> usb_available (sn_usb s') = 0"
  by (rule poll_ends [OF assms])

theorem poll_returns_witness:
  "\<exists>s. unifiedPollCommand wch_board sniffer_boot = Some s \<and> usb_available (sn_usb s) = 0"
  by (rule poll_returns [OF wch_board_ok(1,2) sniffer_boot_ok(1)])

text \<open>
  C11. What the command parser sees of a line. A line of at most 24 bytes reaches it whole. Of a longer
  line the 25th byte clears the buffer and the rest is collected again as if it were a new line, so the
  parser gets what follows the last multiple of 25 bytes, and a command there is carried out.
\<close>

theorem command_line_text:
  assumes "length (sn_line s) = CMD_SIZE" "sn_len s = 0" "0x0A \<notin> set xs" "0x0D \<notin> set xs"
    "eol = 0x0A \<or> eol = 0x0D"
  defines "tail \<equiv> drop (25 * (length xs div 25)) xs"
  shows "\<exists>l n. cmd_bytes B xs s = Some (s\<lparr>sn_line := l, sn_len := n\<rparr>)
    \<and> (let s = s\<lparr>sn_line := l, sn_len := n\<rparr>; c = parse (map (char_of \<circ> unat) tail) in
       cmd_byte B eol s =
         (if tail = [] then Some s
          else if valid c \<and> mode c \<noteq> sn_mode s
          then map_option (\<lambda>s. s\<lparr>sn_len := 0\<rparr>) (unifiedSwitchTo B (mode c) s)
          else Some (s\<lparr>sn_len := 0\<rparr>)))
    \<and> (length xs \<le> 24 \<longrightarrow> tail = xs)"
proof -
  have "length (sn_line s) = 24" "unat (sn_len s) \<le> 24" using assms(1,2) by (simp_all add: CMD_SIZE_def)
  from cmd_bytes_line [OF this assms(3,4), of "[]" B] obtain l n where
    r: "cmd_bytes B xs s = Some (s\<lparr>sn_line := l, sn_len := n\<rparr>)" "take (unat n) l = tail" "unat n = length xs mod 25"
    using assms(2) by (auto simp: tail_def)
  have len: "length tail = unat n" using r(3) by (simp add: tail_def minus_mult_div_eq_mod)
  then have z: "n = 0 \<longleftrightarrow> tail = []" by (metis length_0_conv unat_eq_zero)
  let ?s = "s\<lparr>sn_line := l, sn_len := n\<rparr>" and ?c = "parse (map (char_of \<circ> unat) tail)"
  have "cmd_byte B eol ?s = (if tail = [] then Some ?s
      else if valid ?c \<and> mode ?c \<noteq> sn_mode ?s
      then map_option (\<lambda>s. s\<lparr>sn_len := 0\<rparr>) (unifiedSwitchTo B (mode ?c) ?s)
      else Some (?s\<lparr>sn_len := 0\<rparr>))"
    unfolding cmd_byte_def if_P [OF assms(5)] using r(2) z
    by (simp add: Let_def map_conv_bind_option comp_def)
  moreover have "tail = xs" if "length xs \<le> 24" using that by (simp add: tail_def)
  ultimately show ?thesis using r(1) unfolding Let_def by blast
qed

theorem command_line_text_witness:
  "let xs = replicate 25 0x20 @ map of_char ''!mode rle'' in
   \<exists>l n s'. cmd_bytes wch_board xs sniffer_boot = Some (sniffer_boot\<lparr>sn_line := l, sn_len := n\<rparr>)
     \<and> cmd_byte wch_board 0x0A (sniffer_boot\<lparr>sn_line := l, sn_len := n\<rparr>)
       = map_option (\<lambda>s. s\<lparr>sn_len := 0\<rparr>)
           (unifiedSwitchTo wch_board Rle (sniffer_boot\<lparr>sn_line := l, sn_len := n\<rparr>))"
proof -
  let ?xs = "replicate 25 0x20 @ map of_char ''!mode rle'' :: u8 list"
  let ?t = "map of_char ''!mode rle'' :: u8 list"
  have s: "length (sn_line sniffer_boot) = CMD_SIZE" "sn_len sniffer_boot = 0" "sn_mode sniffer_boot = Clocked"
    by (simp_all add: sniffer_boot_def sniffer_static_def)
  have x: "0x0A \<notin> set ?xs" "0x0D \<notin> set ?xs" by code_simp+
  have t: "drop (25 * (length ?xs div 25)) ?xs = ?t" by code_simp
  have c: "valid (parse (map (char_of \<circ> unat) ?t))" "mode (parse (map (char_of \<circ> unat) ?t)) = Rle" "?t \<noteq> []"
    by code_simp+
  have e: "(0x0A :: u8) = 0x0A \<or> (0x0A :: u8) = 0x0D" by simp
  from command_line_text [OF s(1,2) x e, of wch_board, unfolded t] obtain l n where
    r: "cmd_bytes wch_board ?xs sniffer_boot = Some (sniffer_boot\<lparr>sn_line := l, sn_len := n\<rparr>)"
    "cmd_byte wch_board 0x0A (sniffer_boot\<lparr>sn_line := l, sn_len := n\<rparr>)
      = map_option (\<lambda>s. s\<lparr>sn_len := 0\<rparr>) (unifiedSwitchTo wch_board Rle (sniffer_boot\<lparr>sn_line := l, sn_len := n\<rparr>))"
    using c s(3) unfolding Let_def by auto
  then show ?thesis unfolding Let_def by blast
qed

end
