(* ===== verification/RleIrq.thy ===== *)
theory RleIrq
  imports MainLoop
begin

text \<open>
  The service of the run-length datapath with the drain interrupt at work. The two sides share the RAM
  ring, its two cursors and the drop counter, all volatile; the interrupt may fire between any two
  accesses of the service to them, and it runs to its end. The service is written out here with such a
  point at every place where it is about to touch a shared variable.
\<close>

subsection \<open>The squelch over calls\<close>

lemma squelch_byte_cong:
  assumes "sq_run p = sq_run q" "sq_piped p = sq_piped q"
  shows "fst (squelch_byte k b p) = fst (squelch_byte k b q)
    \<and> sq_run (snd (squelch_byte k b p)) = sq_run (snd (squelch_byte k b q))
    \<and> sq_piped (snd (squelch_byte k b p)) = sq_piped (snd (squelch_byte k b q))"
  using assms by (simp add: squelch_byte_def Let_def)

lemma squelch_cong:
  assumes "sq_run p = sq_run q" "sq_piped p = sq_piped q"
  shows "fst (squelch_list k bs p) = fst (squelch_list k bs q)
    \<and> sq_run (snd (squelch_list k bs p)) = sq_run (snd (squelch_list k bs q))
    \<and> sq_piped (snd (squelch_list k bs p)) = sq_piped (snd (squelch_list k bs q))"
  using assms
proof (induction bs arbitrary: p q)
  case (Cons b bs)
  note c = squelch_byte_cong [OF Cons.prems, of k b]
  note IH = Cons.IH [OF c [THEN conjunct2, THEN conjunct1] c [THEN conjunct2, THEN conjunct2]]
  show ?case using c IH by (simp add: case_prod_beta Let_def)
qed simp

lemma squelch_set: "set (fst (squelch_list k bs q)) \<subseteq> insert 0xFF (set bs)"
proof (induction bs arbitrary: q)
  case (Cons b bs)
  have "set (fst (squelch_byte k b q)) \<subseteq> {0xFF, b}" by (auto simp: squelch_byte_def Let_def split: if_splits)
  then show ?case using Cons.IH [of "snd (squelch_byte k b q)"] by (auto simp: case_prod_beta Let_def)
qed simp

abbreviation squelch_from :: "u32 \<Rightarrow> bool \<Rightarrow> squelch" where
  "squelch_from n p \<equiv> \<lparr>sq_run = n, sq_piped = p, sq_active = False, sq_saw = False\<rparr>"

subsection \<open>Timer ticks\<close>

text \<open>The PIOC's bytes of each timer period, and the interrupt at its end.\<close>

fun rle_ticks :: "u8 list list \<Rightarrow> u8 list \<Rightarrow> rle \<Rightarrow> rle" where
  "rle_ticks [] w r = r"
| "rle_ticks (bs # bss) w r =
    rle_ticks bss (w @ bs) (TIM3_IRQHandler ((blob_run w bs r)\<lparr>tim3_flag := True\<rparr>))"

text \<open>What a tick may keep of its period, and the bytes missing from it.\<close>

definition tick_kept :: "u8 list \<Rightarrow> u8 list \<Rightarrow> bool" where
  "tick_kept bs kp \<longleftrightarrow> (\<exists>n. kp = take n (drop (length bs - 30) bs))"

definition tick_missing :: "u8 list list \<Rightarrow> u8 list list \<Rightarrow> nat" where
  "tick_missing bss kept = sum_list (map2 (\<lambda>bs kp. min (length bs) 30 - length kp) bss kept)"

lemma tick_missing_append:
  "length xs = length ks \<Longrightarrow> tick_missing (xs @ bs) (ks @ ls) = tick_missing xs ks + tick_missing bs ls"
  by (simp add: tick_missing_def)

definition rle_at :: "u8 list \<Rightarrow> rle \<Rightarrow> bool" where
  "rle_at w r \<longleftrightarrow> rle_wf r \<and> pioc_fifo w r \<and> cursor_at (length w) r \<and> drain_armed r"

lemma blob_run_same:
  "drain_armed (blob_run w bs r) = drain_armed r \<and> capRun (blob_run w bs r) = capRun r
   \<and> capPiped (blob_run w bs r) = capPiped r \<and> lossSeen (blob_run w bs r) = lossSeen r
   \<and> rle_tail (blob_run w bs r) = rle_tail r"
  by (induction w bs r rule: blob_run.induct) (simp_all add: blob_push_def)

lemma tim3_flag_frame [simp]:
  "rle_wf (r\<lparr>tim3_flag := x\<rparr>) = rle_wf r" "pioc_fifo w (r\<lparr>tim3_flag := x\<rparr>) = pioc_fifo w r"
  "cursor_at C (r\<lparr>tim3_flag := x\<rparr>) = cursor_at C r" "rle_list (r\<lparr>tim3_flag := x\<rparr>) = rle_list r"
  by (simp_all add: rle_wf_def pioc_fifo_def cursor_at_def rle_list_def rle_ringCount_def)

lemma rle_tick_spec:
  assumes "rle_at w r" "length bs < 256"
  defines "r' \<equiv> TIM3_IRQHandler ((blob_run w bs r)\<lparr>tim3_flag := True\<rparr>)"
  shows "\<exists>kp. tick_kept bs kp \<and> rle_list r' = rle_list r @ kp \<and> rle_at (w @ bs) r'
    \<and> ramDrop r' = ramDrop r + of_nat (min (length bs) 30 - length kp)
    \<and> lossSeen r' = lossSeen r \<and> capRun r' = capRun r \<and> capPiped r' = capPiped r \<and> rle_tail r' = rle_tail r"
proof -
  let ?p = "(blob_run w bs r)\<lparr>tim3_flag := False\<rparr>"
  have b: "rle_wf r" "pioc_fifo w r" "cursor_at (length w) r" "drain_armed r" using assms(1) by (simp_all add: rle_at_def)
  note s = blob_run_spec [OF b(2,1,3), of bs] and m = blob_run_same [of w bs r]
  have p: "rle_wf ?p" "pioc_fifo (w @ bs) ?p" "cursor_at (length w) ?p" "rle_list ?p = rle_list r" "ramDrop ?p = ramDrop r"
    using s by simp_all
  have r': "r' = drainPioc ?p" using m b(4) by (simp add: r'_def TIM3_IRQHandler_def)
  have len: "length w \<le> length (w @ bs)" "length (w @ bs) - length w < 256" using assms(2) by simp_all
  note d = drainPioc_spec [OF p(1-3) len]
  define n where "n = min (min (length bs) 30) (2047 - unat (rle_ringCount ?p))"
  define kp where "kp = take n (drop (length bs - 30) bs)"
  have dropped: "drop (length (w @ bs) - min (length bs) 30) (w @ bs) = drop (length bs - 30) bs"
    by (cases "length bs \<le> 30") simp_all
  have klen: "length kp = n" by (simp add: kp_def n_def)
  have "rle_list r' = rle_list r @ kp" using d(1) dropped unfolding r' p(4) kp_def n_def by simp
  moreover have "ramDrop r' = ramDrop r + of_nat (min (length bs) 30 - length kp)"
    using d(5) unfolding r' p(5) klen n_def by simp
  moreover have "rle_at (w @ bs) r'"
    using d(2-4) drainPioc_same [of ?p] m b(4) unfolding r' rle_at_def by simp
  moreover have "lossSeen r' = lossSeen r" "rle_tail r' = rle_tail r" using d(7,8) m unfolding r' by simp_all
  moreover have "capRun r' = capRun r" "capPiped r' = capPiped r" using drainPioc_same [of ?p] m unfolding r' by simp_all
  moreover have "tick_kept bs kp" unfolding tick_kept_def kp_def by blast
  ultimately show ?thesis by blast
qed

lemma rle_ticks_spec:
  assumes "rle_at w r" "list_all (\<lambda>bs. length bs < 256) bss"
  shows "\<exists>kept. list_all2 tick_kept bss kept \<and> rle_list (rle_ticks bss w r) = rle_list r @ concat kept
    \<and> rle_at (w @ concat bss) (rle_ticks bss w r)
    \<and> ramDrop (rle_ticks bss w r) = ramDrop r + of_nat (tick_missing bss kept)
    \<and> lossSeen (rle_ticks bss w r) = lossSeen r \<and> capRun (rle_ticks bss w r) = capRun r
    \<and> capPiped (rle_ticks bss w r) = capPiped r \<and> rle_tail (rle_ticks bss w r) = rle_tail r"
  using assms
proof (induction bss arbitrary: w r)
  case Nil
  then show ?case by (intro exI [of _ "[]"]) (simp add: tick_missing_def)
next
  case (Cons bs bss)
  then have l: "length bs < 256" "list_all (\<lambda>bs. length bs < 256) bss" by simp_all
  let ?r = "TIM3_IRQHandler ((blob_run w bs r)\<lparr>tim3_flag := True\<rparr>)"
  obtain kp where k: "tick_kept bs kp" "rle_list ?r = rle_list r @ kp" "rle_at (w @ bs) ?r"
    "ramDrop ?r = ramDrop r + of_nat (min (length bs) 30 - length kp)"
    "lossSeen ?r = lossSeen r" "capRun ?r = capRun r" "capPiped ?r = capPiped r" "rle_tail ?r = rle_tail r"
    using rle_tick_spec [OF Cons.prems(1) l(1)] by blast
  obtain kept where r: "list_all2 tick_kept bss kept"
    "rle_list (rle_ticks bss (w @ bs) ?r) = rle_list ?r @ concat kept"
    "rle_at ((w @ bs) @ concat bss) (rle_ticks bss (w @ bs) ?r)"
    "ramDrop (rle_ticks bss (w @ bs) ?r) = ramDrop ?r + of_nat (tick_missing bss kept)"
    "lossSeen (rle_ticks bss (w @ bs) ?r) = lossSeen ?r" "capRun (rle_ticks bss (w @ bs) ?r) = capRun ?r"
    "capPiped (rle_ticks bss (w @ bs) ?r) = capPiped ?r" "rle_tail (rle_ticks bss (w @ bs) ?r) = rle_tail ?r"
    using Cons.IH [OF k(3) l(2)] by blast
  show ?case
    using k r by (intro exI [of _ "kp # kept"]) (simp add: tick_missing_def)
qed

subsection \<open>The interrupted service\<close>

text \<open>
  A schedule: for each point the timer periods that end there, each with the bytes the PIOC produced in
  it. \<open>iq_w\<close> is everything the PIOC has produced.
\<close>

record rle_irq =
  iq_sched :: "u8 list list list"
  iq_w :: "u8 list"
  iq_rle :: rle

definition irq_point :: "rle_irq \<Rightarrow> rle_irq" where
  "irq_point x =
    (case iq_sched x of
       [] \<Rightarrow> x
     | bss # sc \<Rightarrow> \<lparr>iq_sched = sc, iq_w = iq_w x @ concat bss, iq_rle = rle_ticks bss (iq_w x) (iq_rle x)\<rparr>)"

text \<open>What is left of the schedule fires after the call.\<close>

definition irq_rest :: "rle_irq \<Rightarrow> rle_irq" where
  "irq_rest x =
    (let bss = concat (iq_sched x)
     in \<lparr>iq_sched = [], iq_w = iq_w x @ concat bss, iq_rle = rle_ticks bss (iq_w x) (iq_rle x)\<rparr>)"

abbreviation on_rle :: "(rle \<Rightarrow> rle) \<Rightarrow> rle_irq \<Rightarrow> rle_irq" where
  "on_rle f x \<equiv> x\<lparr>iq_rle := f (iq_rle x)\<rparr>"

fun service_loop_irq ::
  "sdk \<Rightarrow> u32 \<Rightarrow> nat \<Rightarrow> u32 \<Rightarrow> nat \<Rightarrow> nat \<Rightarrow> nat \<Rightarrow> squelch \<Rightarrow> rle_irq \<Rightarrow> usb
    \<Rightarrow> ((nat \<times> nat \<times> squelch \<times> usb) \<times> rle_irq) option" where
  "service_loop_irq K k dst cap 0 i outl q x u = Some ((i, outl, q, u), x)"
| "service_loop_irq K k dst cap (Suc n) i outl q x u = do {
     u \<leftarrow> (if i mod PUMP_EVERY = 0 then pump K u else Some u);
     if outl \<ge> unat cap then Some ((i, outl, q, u), x)
     else
      let x = irq_point x; r = iq_rle x;
          (out, q) = squelch_byte k (rle_ring r ! unat ((rle_tail r + of_nat i) AND RING_MASK)) q in
      case out of
        [] \<Rightarrow> service_loop_irq K k dst cap n (i + 1) outl q x u
      | b # _ \<Rightarrow> do {
          u \<leftarrow> tx_poke (dst + outl) b u;
          service_loop_irq K k dst cap n (i + 1) (outl + 1) q x u } }"

definition service_drain_irq :: "sdk \<Rightarrow> u32 \<Rightarrow> rle_irq \<Rightarrow> usb \<Rightarrow> (rle_irq \<times> bool \<times> usb) option" where
  "service_drain_irq K k x u =
    (let avail = (ucast (usb_writeSpace u) :: u16);
         budget = (if avail > 192 then 192 else avail);
         x = irq_point x; r = iq_rle x;
         n = rle_ringCount r; n = (if n > budget then budget else n);
         (dst, cap) = usb_txReserve u
     in if budget = 0 \<or> n = 0 \<or> cap = 0 then Some (x, False, u)
        else do {
          ((i, outl, q, u), x) \<leftarrow> service_loop_irq K k dst cap (unat n) 0 0
            \<lparr>sq_run = capRun r, sq_piped = capPiped r, sq_active = rle_sniffActive r, sq_saw = False\<rparr> x u;
          let x = irq_point x;
          Some (on_rle (\<lambda>r. r\<lparr>capRun := sq_run q, capPiped := sq_piped q, rle_sniffActive := sq_active q,
                  rle_tail := rle_tail r + of_nat i\<rparr>) x,
                sq_saw q, usb_txCommit (of_nat outl) u) })"

definition service_loss_irq :: "rle_irq \<Rightarrow> usb \<Rightarrow> rle_irq \<times> usb" where
  "service_loss_irq x u =
    (let rd = ramDrop (iq_rle x) in
     if rd \<noteq> lossSeen (iq_rle x) then
       (let (n, u) = usb_write [0xFD] u; x = irq_point x
        in (if n = 1 then on_rle (\<lambda>r. r\<lparr>lossSeen := rd\<rparr>) x else x, u))
     else (x, u))"

text \<open>The idle check reads the shared cursors once; the rest touches no shared variable.\<close>

definition rle_service_irq ::
  "sdk \<Rightarrow> u32 \<Rightarrow> int \<Rightarrow> u32 \<Rightarrow> rle_irq \<Rightarrow> usb \<Rightarrow> (rle_irq \<times> usb) option" where
  "rle_service_irq K fcpu kbps nowMs x u =
    (let x = on_rle (\<lambda>r. r\<lparr>loopCalls := loopCalls r + 1\<rparr>) x in
     do {
       (x, saw, u) \<leftarrow> service_drain_irq K (CAP_IDLE_K kbps) x u;
       let f = ucast (usb_writeSpace u);
       let x = on_rle (\<lambda>r. if f < txMinFree r then r\<lparr>txMinFree := f\<rparr> else r) x;
       let (x, u) = service_loss_irq (irq_point x) u;
       let x = irq_point x;
       let (r, u) = service_idle nowMs saw (iq_rle x) u;
       (r, u) \<leftarrow> service_heartbeat fcpu nowMs r u;
       Some (irq_rest (x\<lparr>iq_rle := r\<rparr>), u) })"

text \<open>With no interrupt inside, this is the service.\<close>

lemma irq_point_none: "iq_sched x = [] \<Longrightarrow> irq_point x = x"
  by (simp add: irq_point_def)

lemma service_loop_irq_none:
  "service_loop_irq K k dst cap n i outl q \<lparr>iq_sched = [], iq_w = w, iq_rle = r\<rparr> u
    = map_option (\<lambda>res. (res, \<lparr>iq_sched = [], iq_w = w, iq_rle = r\<rparr>)) (service_loop K k r dst cap n i outl q u)"
proof (induction n arbitrary: i outl q u)
  case (Suc n)
  obtain out q' where s: "squelch_byte k (rle_ring r ! unat ((rle_tail r + of_nat i) AND RING_MASK)) q = (out, q')" by fastforce
  show ?case
    using Suc.IH s by (cases out) (auto simp: irq_point_none split: Option.bind_splits)
qed simp

lemma service_drain_irq_none:
  "service_drain_irq K k \<lparr>iq_sched = [], iq_w = w, iq_rle = r\<rparr> u
    = map_option (\<lambda>(r, saw, u). (\<lparr>iq_sched = [], iq_w = w, iq_rle = r\<rparr>, saw, u)) (service_drain K k r u)"
proof -
  obtain dst cap where tx: "usb_txReserve u = (dst, cap)" by fastforce
  show ?thesis
    by (auto simp: service_drain_irq_def service_drain_def drain_upto_def Let_def irq_point_none tx service_loop_irq_none
        split: Option.bind_splits)
qed

lemma rle_service_irq_none:
  "rle_service_irq K fcpu kbps nowMs \<lparr>iq_sched = [], iq_w = w, iq_rle = r\<rparr> u
    = map_option (\<lambda>(r, u). (\<lparr>iq_sched = [], iq_w = w, iq_rle = r\<rparr>, u)) (rle_service K fcpu kbps nowMs r u)"
proof -
  have loss: "service_loss_irq \<lparr>iq_sched = [], iq_w = w, iq_rle = r\<rparr> u
      = (\<lparr>iq_sched = [], iq_w = w, iq_rle = fst (service_loss r u)\<rparr>, snd (service_loss r u))" for r u
    by (simp add: service_loss_irq_def service_loss_def Let_def irq_point_none case_prod_beta)
  show ?thesis
    by (auto simp: rle_service_irq_def rle_service_def Let_def service_drain_irq_none irq_point_none loss case_prod_beta
        irq_rest_def split: Option.bind_splits)
qed

subsection \<open>The loop does not see the interrupts\<close>

text \<open>Since \<open>r0\<close> only bytes have been appended.\<close>

definition appended :: "rle \<Rightarrow> rle_irq \<Rightarrow> bool" where
  "appended r0 x \<longleftrightarrow> rle_at (iq_w x) (iq_rle x) \<and> rle_tail (iq_rle x) = rle_tail r0 \<and> (\<exists>ys. rle_list (iq_rle x) = rle_list r0 @ ys)
     \<and> list_all (\<lambda>bs. length bs < 256) (concat (iq_sched x))"

lemma irq_point_appended:
  assumes "appended r0 x"
  shows "appended r0 (irq_point x)"
proof (cases "iq_sched x")
  case Nil
  then show ?thesis using assms by (simp add: irq_point_def)
next
  case (Cons bss sc)
  then have x: "rle_at (iq_w x) (iq_rle x)" "list_all (\<lambda>bs. length bs < 256) bss" "list_all (\<lambda>bs. length bs < 256) (concat sc)"
    using assms by (simp_all add: appended_def)
  obtain kept where "rle_list (rle_ticks bss (iq_w x) (iq_rle x)) = rle_list (iq_rle x) @ concat kept"
    "rle_at (iq_w x @ concat bss) (rle_ticks bss (iq_w x) (iq_rle x))"
    "rle_tail (rle_ticks bss (iq_w x) (iq_rle x)) = rle_tail (iq_rle x)"
    using rle_ticks_spec [OF x(1,2)] by blast
  then show ?thesis using assms x(3) by (auto simp: appended_def irq_point_def Cons)
qed

lemma ring_byte:
  assumes "i < length (rle_list r)"
  shows "rle_ring r ! unat ((rle_tail r + of_nat i) AND RING_MASK) = rle_list r ! i"
  using assms by (simp add: rle_list_def)

lemma appended_byte:
  assumes "appended r0 x" "i < length (rle_list r0)"
  shows "rle_ring (iq_rle x) ! unat ((rle_tail (iq_rle x) + of_nat i) AND RING_MASK)
    = rle_ring r0 ! unat ((rle_tail r0 + of_nat i) AND RING_MASK)"
proof -
  obtain ys where l: "rle_list (iq_rle x) = rle_list r0 @ ys" using assms(1) by (auto simp: appended_def)
  have "i < length (rle_list (iq_rle x))" using assms(2) by (simp add: l)
  then show ?thesis using assms(2) by (simp only: ring_byte) (simp add: l nth_append)
qed

text \<open>The interrupted loop does what the loop does on the ring as it was counted.\<close>

lemma service_loop_irq_sim:
  assumes "appended r0 x" "i + n \<le> length (rle_list r0)" "service_loop K k r0 dst cap n i outl q u = Some res"
  shows "\<exists>c. service_loop_irq K k dst cap n i outl q x u = Some (res, (irq_point ^^ c) x)"
  using assms
proof (induction n arbitrary: i outl q x u)
  case 0
  then show ?case by (intro exI [of _ 0]) simp
next
  case (Suc n)
  let ?b = "rle_ring r0 ! unat ((rle_tail r0 + of_nat i) AND RING_MASK)" and ?x = "irq_point x"
  obtain u1 where u1: "(if i mod PUMP_EVERY = 0 then pump K u else Some u) = Some u1"
    using Suc.prems(3) by (cases "if i mod PUMP_EVERY = 0 then pump K u else Some u") simp_all
  show ?case
  proof (cases "outl \<ge> unat cap")
    case True
    then show ?thesis using Suc.prems(3) u1 by (intro exI [of _ 0]) simp
  next
    case False
    have a: "appended r0 ?x" by (rule irq_point_appended [OF Suc.prems(1)])
    have i: "i < length (rle_list r0)" and len: "i + 1 + n \<le> length (rle_list r0)" using Suc.prems(2) by simp_all
    note b = appended_byte [OF a i]
    obtain out q' where s: "squelch_byte k ?b q = (out, q')" by fastforce
    have step: "\<exists>c. service_loop_irq K k dst cap n (i + 1) outl' q' ?x u' = Some (res, (irq_point ^^ c) x)"
      if t: "service_loop K k r0 dst cap n (i + 1) outl' q' u' = Some res" for outl' u'
    proof -
      obtain c where "service_loop_irq K k dst cap n (i + 1) outl' q' ?x u' = Some (res, (irq_point ^^ c) ?x)"
        using Suc.IH [OF a len t] by blast
      then show ?thesis by (intro exI [of _ "Suc c"]) (simp add: funpow_Suc_right del: funpow.simps)
    qed
    show ?thesis
    proof (cases out)
      case Nil
      then have "service_loop K k r0 dst cap n (i + 1) outl q' u1 = Some res" using Suc.prems(3) u1 False s by simp
      then show ?thesis using step [of outl u1] u1 False s b Nil by (simp add: Let_def)
    next
      case (Cons c cs)
      obtain u2 where u2: "tx_poke (dst + outl) c u1 = Some u2"
        "service_loop K k r0 dst cap n (i + 1) (outl + 1) q' u2 = Some res"
        using Suc.prems(3) u1 False s Cons by (auto split: Option.bind_splits)
      then show ?thesis using step [OF u2(2)] u1 False s b Cons by (simp add: Let_def)
    qed
  qed
qed

subsection \<open>What a call accounts for\<close>

text \<open>
  Since the call began in \<open>r\<close>, the periods \<open>bss\<close> have ended, of each \<open>kept\<close> was kept, and \<open>taken\<close> has
  left the RAM ring.
\<close>

definition irq_track ::
  "u8 list list list \<Rightarrow> u8 list \<Rightarrow> rle \<Rightarrow> u8 list list \<Rightarrow> u8 list list \<Rightarrow> u8 list \<Rightarrow> rle_irq \<Rightarrow> bool" where
  "irq_track sc w r bss kept taken x \<longleftrightarrow> concat sc = bss @ concat (iq_sched x) \<and> list_all2 tick_kept bss kept
     \<and> iq_w x = w @ concat bss \<and> rle_at (iq_w x) (iq_rle x) \<and> rle_list r @ concat kept = taken @ rle_list (iq_rle x)
     \<and> ramDrop (iq_rle x) = ramDrop r + of_nat (tick_missing bss kept)
     \<and> list_all (\<lambda>bs. length bs < 256) (concat (iq_sched x))"

definition irq_same :: "rle_irq \<Rightarrow> rle_irq \<Rightarrow> bool" where
  "irq_same x y \<longleftrightarrow> lossSeen (iq_rle y) = lossSeen (iq_rle x) \<and> capRun (iq_rle y) = capRun (iq_rle x)
     \<and> capPiped (iq_rle y) = capPiped (iq_rle x) \<and> rle_tail (iq_rle y) = rle_tail (iq_rle x)
     \<and> (\<exists>ys. rle_list (iq_rle y) = rle_list (iq_rle x) @ ys)"

lemma irq_same_refl: "irq_same x x" and irq_same_trans: "irq_same x y \<Longrightarrow> irq_same y z \<Longrightarrow> irq_same x z"
  by (auto simp: irq_same_def)

lemma track_ticks:
  assumes "irq_track sc w r bss kept taken x" "concat (iq_sched x) = b @ concat (iq_sched y)"
    "iq_w y = iq_w x @ concat b" "iq_rle y = rle_ticks b (iq_w x) (iq_rle x)"
  shows "\<exists>k. irq_track sc w r (bss @ b) (kept @ k) taken y \<and> irq_same x y"
proof -
  have x: "rle_at (iq_w x) (iq_rle x)" "list_all (\<lambda>bs. length bs < 256) b" "list_all (\<lambda>bs. length bs < 256) (concat (iq_sched y))"
    "length bss = length kept"
    using assms(1,2) by (auto simp: irq_track_def list_all2_lengthD)
  obtain k where k: "list_all2 tick_kept b k" "rle_list (iq_rle y) = rle_list (iq_rle x) @ concat k"
    "rle_at (iq_w y) (iq_rle y)" "ramDrop (iq_rle y) = ramDrop (iq_rle x) + of_nat (tick_missing b k)"
    "lossSeen (iq_rle y) = lossSeen (iq_rle x)" "capRun (iq_rle y) = capRun (iq_rle x)"
    "capPiped (iq_rle y) = capPiped (iq_rle x)" "rle_tail (iq_rle y) = rle_tail (iq_rle x)"
    using rle_ticks_spec [OF x(1,2)] unfolding assms(3,4) by blast
  have "irq_track sc w r (bss @ b) (kept @ k) taken y"
    using assms(1,2,3) k x(3) list_all2_appendI [of tick_kept bss kept b k]
    unfolding irq_track_def by (simp add: tick_missing_append [OF x(4)])
  then show ?thesis using k by (auto simp: irq_same_def)
qed

lemma track_point:
  assumes "irq_track sc w r bss kept taken x"
  shows "\<exists>b k. irq_track sc w r (bss @ b) (kept @ k) taken (irq_point x) \<and> irq_same x (irq_point x)"
proof (cases "iq_sched x")
  case Nil
  then show ?thesis using assms irq_same_refl by (intro exI [of _ "[]"]) (simp add: irq_point_def)
next
  case (Cons bss' sc')
  have "\<exists>k. irq_track sc w r (bss @ bss') (kept @ k) taken (irq_point x) \<and> irq_same x (irq_point x)"
    by (rule track_ticks [OF assms]) (simp_all add: irq_point_def Cons)
  then show ?thesis by blast
qed

lemma track_points:
  "irq_track sc w r bss kept taken x \<Longrightarrow>
    \<exists>b k. irq_track sc w r (bss @ b) (kept @ k) taken ((irq_point ^^ c) x) \<and> irq_same x ((irq_point ^^ c) x)"
proof (induction c)
  case 0
  then show ?case using irq_same_refl by (intro exI [of _ "[]"]) simp
next
  case (Suc c)
  obtain b k where c: "irq_track sc w r (bss @ b) (kept @ k) taken ((irq_point ^^ c) x)" "irq_same x ((irq_point ^^ c) x)"
    using Suc by blast
  obtain b' k' where "irq_track sc w r ((bss @ b) @ b') ((kept @ k) @ k') taken (irq_point ((irq_point ^^ c) x))"
    "irq_same ((irq_point ^^ c) x) (irq_point ((irq_point ^^ c) x))" using track_point [OF c(1)] by blast
  then show ?case using irq_same_trans [OF c(2)] by (intro exI [of _ "b @ b'"] exI [of _ "k @ k'"]) simp
qed

lemma track_local:
  assumes "irq_track sc w r bss kept taken x" "rle_list r' = rle_list (iq_rle x)" "rle_same (iq_rle x) r'"
    "ramDrop r' = ramDrop (iq_rle x)"
  shows "irq_track sc w r bss kept taken (x\<lparr>iq_rle := r'\<rparr>)"
  using assms by (simp add: irq_track_def rle_same_def rle_at_def rle_wf_def pioc_fifo_def cursor_at_def)

lemma track_appended: "irq_track sc w r bss kept taken x \<Longrightarrow> appended (iq_rle x) x"
  by (auto simp: irq_track_def appended_def)

lemma service_drain_irq_facts:
  assumes "sdk_ok K" "irq_ok K" "rx_inv R K u" "irq_track sc w r bss kept [] x"
  shows "\<exists>b k' c x' saw q' u'. service_drain_irq K k x u = Some (x', saw, u') \<and> rx_inv R K u'
    \<and> irq_track sc w r (bss @ b) (kept @ k') c x'
    \<and> squelch_list k c (squelch_from (capRun (iq_rle x)) (capPiped (iq_rle x))) = q'
    \<and> usb_stream u' = usb_stream u @ fst q'
    \<and> capRun (iq_rle x') = sq_run (snd q') \<and> capPiped (iq_rle x') = sq_piped (snd q')
    \<and> lossSeen (iq_rle x') = lossSeen (iq_rle x)"
proof -
  define avail where "avail = (ucast (usb_writeSpace u) :: u16)"
  define budget where "budget = (if avail > 192 then 192 else avail)"
  define x1 where "x1 = irq_point x"
  define r0 where "r0 = iq_rle x1"
  define n where "n = (if rle_ringCount r0 > budget then budget else rle_ringCount r0)"
  obtain dst cap where tx: "usb_txReserve u = (dst, cap)" by fastforce
  obtain b1 k1 where t1: "irq_track sc w r (bss @ b1) (kept @ k1) [] x1" "irq_same x x1"
    using track_point [OF assms(4)] unfolding x1_def by blast
  let ?q0 = "squelch_from (capRun (iq_rle x)) (capPiped (iq_rle x))"
  obtain m q' r' u' where d: "drain_upto K k avail r0 u = Some (r', sq_saw q', u')" "rx_inv R K u'"
    "rle_list r0 = take m (rle_list r0) @ rle_list r'"
    "usb_stream u' = usb_stream u @ fst (squelch_list k (take m (rle_list r0)) (squelch_of r0))"
    "q' = snd (squelch_list k (take m (rle_list r0)) (squelch_of r0))"
    "r' = r0\<lparr>capRun := sq_run q', capPiped := sq_piped q', rle_sniffActive := sq_active q', rle_tail := rle_tail r0 + of_nat m\<rparr>"
    "m \<le> length (rle_list r0)"
    using drain_upto_spec [OF assms(1-3), of k avail r0] by blast
  let ?c = "take m (rle_list r0)"
  have q: "fst (squelch_list k ?c (squelch_of r0)) = fst (squelch_list k ?c ?q0)"
    "sq_run q' = sq_run (snd (squelch_list k ?c ?q0))" "sq_piped q' = sq_piped (snd (squelch_list k ?c ?q0))"
    using squelch_cong [of "squelch_of r0" ?q0 k ?c] t1(2) unfolding d(5) by (simp_all add: squelch_of_def irq_same_def r0_def)
  have run: "drain_upto K k avail r0 u = (if budget = 0 \<or> n = 0 \<or> cap = 0 then Some (r0, False, u)
     else do {
       (i, outl, q, u) \<leftarrow> service_loop K k r0 dst cap (unat n) 0 0 (squelch_of r0) u;
       Some (r0\<lparr>capRun := sq_run q, capPiped := sq_piped q, rle_sniffActive := sq_active q,
               rle_tail := rle_tail r0 + of_nat i\<rparr>, sq_saw q, usb_txCommit (of_nat outl) u) })"
    unfolding drain_upto_def Let_def tx squelch_of_def budget_def [symmetric] n_def [symmetric] by simp
  have runi: "service_drain_irq K k x u = (if budget = 0 \<or> n = 0 \<or> cap = 0 then Some (x1, False, u)
     else do {
       ((i, outl, q, u), y) \<leftarrow> service_loop_irq K k dst cap (unat n) 0 0 (squelch_of r0) x1 u;
       Some (on_rle (\<lambda>r. r\<lparr>capRun := sq_run q, capPiped := sq_piped q, rle_sniffActive := sq_active q,
               rle_tail := rle_tail r + of_nat i\<rparr>) (irq_point y), sq_saw q, usb_txCommit (of_nat outl) u) })"
    unfolding service_drain_irq_def Let_def tx squelch_of_def avail_def [symmetric] budget_def [symmetric]
      x1_def [symmetric] r0_def [symmetric] n_def [symmetric] by simp
  obtain x2 b2 k2 where x2: "service_drain_irq K k x u = Some (on_rle (\<lambda>r. r\<lparr>capRun := sq_run q', capPiped := sq_piped q',
        rle_sniffActive := sq_active q', rle_tail := rle_tail r + of_nat m\<rparr>) x2, sq_saw q', u')"
    "irq_track sc w r ((bss @ b1) @ b2) ((kept @ k1) @ k2) [] x2" "irq_same x1 x2"
  proof (cases "budget = 0 \<or> n = 0 \<or> cap = 0")
    case True
    then have e: "r' = r0" "\<not> sq_saw q'" "u' = u" using d(1) run by simp_all
    have "on_rle (\<lambda>r. r\<lparr>capRun := sq_run q', capPiped := sq_piped q', rle_sniffActive := sq_active q',
        rle_tail := rle_tail r + of_nat m\<rparr>) x1 = x1\<lparr>iq_rle := r'\<rparr>" unfolding d(6) r0_def ..
    also have "\<dots> = x1" unfolding e(1) r0_def by simp
    finally show ?thesis using that [of x1 "[]" "[]"] runi True e t1(1) irq_same_refl by simp
  next
    case False
    obtain i outl q u2 where l: "service_loop K k r0 dst cap (unat n) 0 0 (squelch_of r0) u = Some (i, outl, q, u2)"
      "r' = r0\<lparr>capRun := sq_run q, capPiped := sq_piped q, rle_sniffActive := sq_active q, rle_tail := rle_tail r0 + of_nat i\<rparr>"
      "sq_saw q' = sq_saw q" "u' = usb_txCommit (of_nat outl) u2"
      using d(1) run False by (auto split: Option.bind_splits)
    have "unat n \<le> length (rle_list r0)" by (auto simp: n_def rle_list_def word_less_nat_alt)
    then have len: "0 + unat n \<le> length (rle_list r0)" by simp
    have a: "appended r0 x1" using track_appended [OF t1(1)] by (simp add: r0_def)
    obtain c where c: "service_loop_irq K k dst cap (unat n) 0 0 (squelch_of r0) x1 u = Some ((i, outl, q, u2), (irq_point ^^ c) x1)"
      using service_loop_irq_sim [OF a len l(1)] by blast
    obtain b2 k2 where t2: "irq_track sc w r ((bss @ b1) @ b2) ((kept @ k1) @ k2) [] ((irq_point ^^ Suc c) x1)"
      "irq_same x1 ((irq_point ^^ Suc c) x1)" using track_points [OF t1(1)] by blast
    have fields: "sq_run q = sq_run q'" "sq_piped q = sq_piped q'" "sq_active q = sq_active q'"
      "(of_nat i :: u16) = of_nat m"
      using d(6) l(2) by (auto dest: arg_cong [of _ _ capRun] arg_cong [of _ _ capPiped] arg_cong [of _ _ rle_sniffActive]
          arg_cong [of _ _ rle_tail])
    have "service_drain_irq K k x u = Some (on_rle (\<lambda>r. r\<lparr>capRun := sq_run q', capPiped := sq_piped q',
        rle_sniffActive := sq_active q', rle_tail := rle_tail r + of_nat m\<rparr>) ((irq_point ^^ Suc c) x1), sq_saw q', u')"
      unfolding runi if_not_P [OF False] c bind.bind_lunit prod.case fields l(3,4) by simp
    then show ?thesis using that t2 by blast
  qed
  let ?x' = "on_rle (\<lambda>r. r\<lparr>capRun := sq_run q', capPiped := sq_piped q', rle_sniffActive := sq_active q',
      rle_tail := rle_tail r + of_nat m\<rparr>) x2"
  obtain ys where ys: "rle_list (iq_rle x2) = rle_list r0 @ ys" using x2(3) by (auto simp: irq_same_def r0_def)
  have cnt: "m \<le> unat (rle_ringCount (iq_rle x2))"
    using d(7) arg_cong [OF ys, of length] by (simp add: rle_list_def)
  have "rle_list (iq_rle ?x') = rle_list ((iq_rle x2)\<lparr>rle_tail := rle_tail (iq_rle x2) + of_nat m\<rparr>)"
    by (simp add: rle_list_def rle_ringCount_def)
  then have "rle_list (iq_rle x2) = ?c @ rle_list (iq_rle ?x')"
    using rle_advance(1) [OF cnt] d(7) ys by simp
  then have "irq_track sc w r ((bss @ b1) @ b2) ((kept @ k1) @ k2) ?c ?x'"
    using x2(2) by (simp add: irq_track_def rle_at_def rle_wf_def pioc_fifo_def cursor_at_def)
  moreover have "lossSeen (iq_rle ?x') = lossSeen (iq_rle x)" using t1(2) x2(3) by (simp add: irq_same_def)
  ultimately show ?thesis
    using x2(1) d(2,4) q
    by (intro exI [of _ "b1 @ b2"] exI [of _ "k1 @ k2"] exI [of _ ?c] exI [of _ ?x'] exI [of _ "sq_saw q'"]
        exI [of _ "squelch_list k ?c ?q0"] exI [of _ u']) simp
qed

lemma service_loss_irq_facts:
  assumes "rx_inv R K u" "irq_track sc w r bss kept c x"
  shows "\<exists>b k loss x' u'. service_loss_irq x u = (x', u') \<and> rx_inv R K u' \<and> irq_track sc w r (bss @ b) (kept @ k) c x'
    \<and> usb_stream u' = usb_stream u @ loss \<and> loss \<in> {[], [0xFD]} \<and> (loss \<noteq> [] \<longrightarrow> ramDrop (iq_rle x) \<noteq> lossSeen (iq_rle x))
    \<and> lossSeen (iq_rle x') = (if loss \<noteq> [] then ramDrop (iq_rle x) else lossSeen (iq_rle x))
    \<and> capRun (iq_rle x') = capRun (iq_rle x) \<and> capPiped (iq_rle x') = capPiped (iq_rle x)"
proof (cases "ramDrop (iq_rle x) = lossSeen (iq_rle x)")
  case True
  then have "service_loss_irq x u = (x, u)" by (simp add: service_loss_irq_def)
  then show ?thesis
    using assms by (intro exI [of _ "[]"] exI [of _ "[]"] exI [of _ "[]"] exI [of _ x] exI [of _ u]) simp
next
  case False
  obtain n v where wr: "usb_write [0xFD] u = (n, v)" by fastforce
  have "length [0xFD :: u8] < 2 ^ 32" by simp
  note s = usb_write_stream [OF assms(1) wr this]
  have n: "n = 1 \<or> n = 0" using s(3) by (auto simp: word_unat_eq_iff min_def)
  let ?y = "irq_point x" and ?rd = "ramDrop (iq_rle x)"
  obtain b k where t: "irq_track sc w r (bss @ b) (kept @ k) c ?y" "irq_same x ?y" using track_point [OF assms(2)] by blast
  let ?z = "?y\<lparr>iq_rle := (iq_rle ?y)\<lparr>lossSeen := ?rd\<rparr>\<rparr>"
  have z: "irq_track sc w r (bss @ b) (kept @ k) c ?z"
    by (rule track_local [OF t(1)]) (simp_all add: rle_list_def rle_ringCount_def rle_same_def)
  have eq: "service_loss_irq x u = (if n = 1 then ?z else ?y, v)" using False by (simp add: service_loss_irq_def wr Let_def)
  show ?thesis
  proof (cases "n = 1")
    case True
    then show ?thesis
      using eq s(1,2) z t(2) False
      by (intro exI [of _ b] exI [of _ k] exI [of _ "[0xFD]"] exI [of _ ?z] exI [of _ v]) (simp add: irq_same_def)
  next
    case f: False
    then show ?thesis
      using eq s(1,2) t n
      by (intro exI [of _ b] exI [of _ k] exI [of _ "[]"] exI [of _ ?y] exI [of _ v]) (simp add: irq_same_def)
  qed
qed

lemma irq_start:
  assumes "rle_at w r" "list_all (\<lambda>bs. length bs < 256) (concat sc)"
  shows "irq_track sc w r [] [] [] \<lparr>iq_sched = sc, iq_w = w, iq_rle = r\<lparr>loopCalls := n\<rparr>\<rparr>"
  using assms
  by (simp add: irq_track_def tick_missing_def rle_at_def rle_wf_def pioc_fifo_def cursor_at_def rle_list_def rle_ringCount_def)

lemma rle_service_irq_facts:
  assumes "sdk_ok K" "irq_ok K" "rx_inv R K u" "rle_at w r" "list_all (\<lambda>bs. length bs < 256) (concat sc)"
  shows "\<exists>kept c loss sep mk r' u'.
    rle_service_irq K fcpu kbps nowMs \<lparr>iq_sched = sc, iq_w = w, iq_rle = r\<rparr> u
      = Some (\<lparr>iq_sched = [], iq_w = w @ concat (concat sc), iq_rle = r'\<rparr>, u')
    \<and> rx_inv R K u' \<and> rle_at (w @ concat (concat sc)) r' \<and> list_all2 tick_kept (concat sc) kept
    \<and> rle_list r @ concat kept = c @ rle_list r'
    \<and> usb_stream u' = usb_stream u @ fst (squelch_list (CAP_IDLE_K kbps) c (squelch_from (capRun r) (capPiped r))) @ loss @ sep @ mk
    \<and> capRun r' = sq_run (snd (squelch_list (CAP_IDLE_K kbps) c (squelch_from (capRun r) (capPiped r))))
    \<and> capPiped r' = sq_piped (snd (squelch_list (CAP_IDLE_K kbps) c (squelch_from (capRun r) (capPiped r))))
    \<and> loss \<in> {[], [0xFD]} \<and> sep \<in> {[], [0xFF]} \<and> mk \<in> {[], mode_block fcpu}
    \<and> ramDrop r' = ramDrop r + of_nat (tick_missing (concat sc) kept)
    \<and> (loss = [] \<longrightarrow> lossSeen r' = lossSeen r)
    \<and> (tick_missing (concat sc) kept = 0 \<and> lossSeen r = ramDrop r \<longrightarrow> loss = [] \<and> lossSeen r' = ramDrop r')"
proof -
  let ?k = "CAP_IDLE_K kbps" and ?q0 = "squelch_from (capRun r) (capPiped r)"
  let ?x0 = "\<lparr>iq_sched = sc, iq_w = w, iq_rle = r\<lparr>loopCalls := loopCalls r + 1\<rparr>\<rparr>"
  have sel: "capRun (iq_rle ?x0) = capRun r" "capPiped (iq_rle ?x0) = capPiped r" "lossSeen (iq_rle ?x0) = lossSeen r" by simp_all
  obtain b1 k1 c x1 saw q' u1 where d: "service_drain_irq K ?k ?x0 u = Some (x1, saw, u1)" "rx_inv R K u1"
    "irq_track sc w r b1 k1 c x1" "squelch_list ?k c ?q0 = q'" "usb_stream u1 = usb_stream u @ fst q'"
    "capRun (iq_rle x1) = sq_run (snd q')" "capPiped (iq_rle x1) = sq_piped (snd q')" "lossSeen (iq_rle x1) = lossSeen r"
    using service_drain_irq_facts [OF assms(1-3) irq_start [OF assms(4,5)], of ?k "loopCalls r + 1"] unfolding sel append_Nil
    by blast
  define f where "f = (ucast (usb_writeSpace u1) :: u16)"
  define x2 where "x2 = on_rle (\<lambda>r. if f < txMinFree r then r\<lparr>txMinFree := f\<rparr> else r) x1"
  have t2: "irq_track sc w r b1 k1 c x2"
    unfolding x2_def by (rule track_local [OF d(3)]) (simp_all add: rle_list_def rle_ringCount_def rle_same_def)
  have s2: "irq_same x1 x2" by (simp add: irq_same_def x2_def rle_list_def rle_ringCount_def)
  obtain b2 k2 where t3: "irq_track sc w r (b1 @ b2) (k1 @ k2) c (irq_point x2)" "irq_same x2 (irq_point x2)"
    using track_point [OF t2] by blast
  let ?x3 = "irq_point x2"
  obtain b3 k3 loss x4 u2 where l: "service_loss_irq ?x3 u1 = (x4, u2)" "rx_inv R K u2"
    "irq_track sc w r ((b1 @ b2) @ b3) ((k1 @ k2) @ k3) c x4" "usb_stream u2 = usb_stream u1 @ loss" "loss \<in> {[], [0xFD]}"
    "loss \<noteq> [] \<longrightarrow> ramDrop (iq_rle ?x3) \<noteq> lossSeen (iq_rle ?x3)"
    "lossSeen (iq_rle x4) = (if loss \<noteq> [] then ramDrop (iq_rle ?x3) else lossSeen (iq_rle ?x3))"
    "capRun (iq_rle x4) = capRun (iq_rle ?x3)" "capPiped (iq_rle x4) = capPiped (iq_rle ?x3)"
    using service_loss_irq_facts [OF d(2) t3(1)] by blast
  obtain b4 k4 where t5: "irq_track sc w r (((b1 @ b2) @ b3) @ b4) (((k1 @ k2) @ k3) @ k4) c (irq_point x4)"
    "irq_same x4 (irq_point x4)" using track_point [OF l(3)] by blast
  let ?x5 = "irq_point x4"
  obtain r6 u3 where i: "service_idle nowMs saw (iq_rle ?x5) u2 = (r6, u3)" by fastforce
  obtain sep ms where sep: "rx_inv R K u3" "usb_stream u3 = usb_stream u2 @ sep" "sep \<in> {[], [0xFF]}"
    "r6 = (iq_rle ?x5)\<lparr>rle_sniffLastMs := ms, rle_sniffActive := rle_sniffActive r6\<rparr>"
    using service_idle_spec [OF l(2) i] by blast
  obtain mk r7 u4 where h: "service_heartbeat fcpu nowMs r6 u3 = Some (r7, u4)" "rx_inv R K u4" "usb_stream u4 = usb_stream u3 @ mk"
    "mk \<in> {[], mode_block fcpu}" "r7 = r6 \<or> r7 = r6\<lparr>rle_modeHbMs := nowMs + 1000\<rparr>"
    using service_heartbeat_spec [OF sep(1)] by blast
  have same7: "rle_same (iq_rle ?x5) r7"
    using rle_same_trans [OF service_idle_same [OF i] service_heartbeat_same [OF h(1)]] .
  have seven: "rle_list r7 = rle_list (iq_rle ?x5)" "ramDrop r7 = ramDrop (iq_rle ?x5)" "lossSeen r7 = lossSeen (iq_rle ?x5)"
    "capRun r7 = capRun (iq_rle ?x5)" "capPiped r7 = capPiped (iq_rle ?x5)"
  proof -
    have "rle_list r6 = rle_list (iq_rle ?x5)" "ramDrop r6 = ramDrop (iq_rle ?x5)" "lossSeen r6 = lossSeen (iq_rle ?x5)"
      "capRun r6 = capRun (iq_rle ?x5)" "capPiped r6 = capPiped (iq_rle ?x5)"
      by (subst sep(4), simp add: rle_list_def rle_ringCount_def)+
    then show "rle_list r7 = rle_list (iq_rle ?x5)" "ramDrop r7 = ramDrop (iq_rle ?x5)" "lossSeen r7 = lossSeen (iq_rle ?x5)"
      "capRun r7 = capRun (iq_rle ?x5)" "capPiped r7 = capPiped (iq_rle ?x5)"
      using h(5) by (auto simp: rle_list_def rle_ringCount_def)
  qed
  let ?x7 = "?x5\<lparr>iq_rle := r7\<rparr>"
  have t7: "irq_track sc w r (((b1 @ b2) @ b3) @ b4) (((k1 @ k2) @ k3) @ k4) c ?x7"
    by (rule track_local [OF t5(1) seven(1) same7 seven(2)])
  let ?b5 = "concat (iq_sched ?x7)"
  obtain k5 where t8: "irq_track sc w r ((((b1 @ b2) @ b3) @ b4) @ ?b5) ((((k1 @ k2) @ k3) @ k4) @ k5) c (irq_rest ?x7)"
    "irq_same ?x7 (irq_rest ?x7)" using track_ticks [OF t7, of ?b5 "irq_rest ?x7"] by (auto simp: irq_rest_def Let_def)
  define kept where "kept = (((k1 @ k2) @ k3) @ k4) @ k5"
  let ?r' = "iq_rle (irq_rest ?x7)"
  have sched: "iq_sched (irq_rest ?x7) = []" by (simp add: irq_rest_def Let_def)
  have all: "concat sc = (((b1 @ b2) @ b3) @ b4) @ ?b5" using t8(1) sched by (simp add: irq_track_def)
  have tr: "irq_track sc w r (concat sc) kept c (irq_rest ?x7)" using t8(1) unfolding all [symmetric] kept_def .
  have fin: "irq_rest ?x7 = \<lparr>iq_sched = [], iq_w = w @ concat (concat sc), iq_rle = ?r'\<rparr>"
    using tr sched by (intro rle_irq.equality) (simp_all add: irq_track_def)
  have x0: "on_rle (\<lambda>r. r\<lparr>loopCalls := loopCalls r + 1\<rparr>) \<lparr>iq_sched = sc, iq_w = w, iq_rle = r\<rparr> = ?x0" by simp
  have run: "rle_service_irq K fcpu kbps nowMs \<lparr>iq_sched = sc, iq_w = w, iq_rle = r\<rparr> u = Some (irq_rest ?x7, u4)"
    unfolding rle_service_irq_def Let_def x0 d(1) bind.bind_lunit prod.case f_def [symmetric] x2_def [symmetric] l(1) i h(1) ..
  have seen3: "lossSeen (iq_rle ?x3) = lossSeen r" using t3(2) s2 d(8) by (simp add: irq_same_def)
  have seen: "lossSeen ?r' = lossSeen (iq_rle x4)" using t8(2) t5(2) seven(3) by (simp add: irq_same_def)
  have cap: "capRun ?r' = sq_run (snd q')" "capPiped ?r' = sq_piped (snd q')"
    using t8(2) t5(2) seven(4,5) l(8,9) t3(2) s2 d(6,7) by (simp_all add: irq_same_def)
  have f1: "rle_at (w @ concat (concat sc)) ?r'" "list_all2 tick_kept (concat sc) kept" "rle_list r @ concat kept = c @ rle_list ?r'"
    "ramDrop ?r' = ramDrop r + of_nat (tick_missing (concat sc) kept)"
    using tr by (auto simp: irq_track_def)
  have f2: "usb_stream u4 = usb_stream u @ fst q' @ loss @ sep @ mk" using d(5) l(4) sep(2) h(3) by simp
  have f3: "loss = [] \<longrightarrow> lossSeen ?r' = lossSeen r" using seen l(7) seen3 by simp
  have f4: "tick_missing (concat sc) kept = 0 \<and> lossSeen r = ramDrop r \<longrightarrow> loss = [] \<and> lossSeen ?r' = ramDrop ?r'"
  proof (intro impI, elim conjE)
    assume z: "tick_missing (concat sc) kept = 0" "lossSeen r = ramDrop r"
    have len: "length (b1 @ b2) = length (k1 @ k2)" using t3(1) by (auto simp: irq_track_def dest: list_all2_lengthD)
    have "tick_missing (concat sc) kept = tick_missing (b1 @ b2) (k1 @ k2) + tick_missing (b3 @ b4 @ ?b5) (k3 @ k4 @ k5)"
      unfolding all kept_def using tick_missing_append [OF len, of "b3 @ b4 @ ?b5" "k3 @ k4 @ k5"] by simp
    then have "tick_missing (b1 @ b2) (k1 @ k2) = 0" using z(1) by simp
    then have "ramDrop (iq_rle ?x3) = ramDrop r" using t3(1) by (simp add: irq_track_def)
    then have "loss = []" using l(6) seen3 z(2) by auto
    then show "loss = [] \<and> lossSeen ?r' = ramDrop ?r'" using f3 f1(4) z by simp
  qed
  show ?thesis
    by (rule exI [of _ kept], rule exI [of _ c], rule exI [of _ loss], rule exI [of _ sep], rule exI [of _ mk],
        rule exI [of _ ?r'], rule exI [of _ u4])
      (intro conjI trans [OF run arg_cong [OF fin, of "\<lambda>z. Some (z, u4)"]] h(2) f1 f2 [folded d(4)] cap [folded d(4)] l(5) sep(3) h(4) f3 f4)
qed

end
