(* ===== verification/RleRun.thy ===== *)
theory RleRun
  imports RleIrq
begin

text \<open>
  The run-length capture end to end: the PIOC's bytes through the timer interrupt, the RAM ring, the
  squelch and the USB stream to a host that reads the wire format of \<^verbatim>\<open>docs/sniffer-usb-wire-api.md\<close>.
\<close>

subsection \<open>The host's reading of the stream\<close>

text \<open>
  Bytes up to 0x80 are run-bytes, 0xFD is a loss, a block from 0xFE to 0xFE is metadata, and any other
  byte cuts.
\<close>

datatype rle_event = Run u8 | Cut | Lost

fun host_rle :: "bool \<Rightarrow> u8 list \<Rightarrow> rle_event list" where
  "host_rle inMeta [] = []"
| "host_rle inMeta (b # bs) =
    (if inMeta then host_rle (b \<noteq> 0xFE) bs
     else if b = 0xFE then host_rle True bs
     else (if b \<le> 0x80 then Run b else if b = 0xFD then Lost else Cut) # host_rle False bs)"

definition wire_event :: "u8 \<Rightarrow> rle_event" where
  "wire_event b = (if b \<le> 0x80 then Run b else if b = 0xFD then Lost else Cut)"

fun run_bytes :: "rle_event list \<Rightarrow> u8 list" where
  "run_bytes [] = []"
| "run_bytes (Run b # es) = b # run_bytes es"
| "run_bytes (Cut # es) = run_bytes es"
| "run_bytes (Lost # es) = run_bytes es"

lemma run_bytes_append: "run_bytes (xs @ ys) = run_bytes xs @ run_bytes ys"
  by (induction xs rule: run_bytes.induct) simp_all

lemma host_rle_plain:
  assumes "0xFE \<notin> set xs"
  shows "host_rle False (xs @ ys) = map wire_event xs @ host_rle False ys"
  using assms by (induction xs) (simp_all add: wire_event_def)

lemma host_rle_meta: "0xFE \<notin> set xs \<Longrightarrow> host_rle True (xs @ 0xFE # ys) = host_rle False ys"
  by (induction xs) auto

lemma rle_marker_no_fe: "0xFE \<notin> set (rle_marker fcpu)"
  using rle_marker_ok(1) [of fcpu] by (auto simp: printable_def)

lemma host_rle_mode: "host_rle False (mode_block fcpu @ ys) = Cut # Cut # host_rle False ys"
proof -
  have "host_rle False (mode_block fcpu @ ys) = Cut # host_rle True (rle_marker fcpu @ 0xFE # 0xFF # ys)"
    by (simp add: mode_block_def)
  also have "\<dots> = Cut # host_rle False (0xFF # ys)" unfolding host_rle_meta [OF rle_marker_no_fe] ..
  finally show ?thesis by simp
qed

text \<open>What one service call adds, read by the host.\<close>

lemma host_rle_chunk:
  assumes "0xFE \<notin> set sq" "loss \<in> {[], [0xFD]}" "sep \<in> {[], [0xFF]}" "mk \<in> {[], mode_block fcpu}"
  shows "\<exists>es. host_rle False (sq @ loss @ sep @ mk @ ys) = es @ host_rle False ys
    \<and> run_bytes es = filter (\<lambda>b. b \<le> 0x80) sq \<and> (Lost \<in> set es \<longleftrightarrow> 0xFD \<in> set sq \<or> loss \<noteq> [])"
proof -
  have plain: "0xFE \<notin> set (sq @ loss @ sep)" using assms(1-3) by auto
  have rb: "run_bytes (map wire_event xs) = filter (\<lambda>b. b \<le> 0x80) xs" for xs
    by (induction xs) (simp_all add: wire_event_def)
  have lost: "Lost \<in> set (map wire_event xs) \<longleftrightarrow> 0xFD \<in> set xs" for xs
    by (induction xs) (auto simp: wire_event_def)
  have h: "host_rle False (mk @ ys) = (if mk = [] then [] else [Cut, Cut]) @ host_rle False ys"
    using assms(4) host_rle_mode [of fcpu ys] by (auto simp: mode_block_def)
  have "host_rle False (sq @ loss @ sep @ mk @ ys)
      = map wire_event (sq @ loss @ sep) @ (if mk = [] then [] else [Cut, Cut]) @ host_rle False ys"
    using host_rle_plain [OF plain, of "mk @ ys"] h by simp
  moreover have "run_bytes (map wire_event (sq @ loss @ sep) @ (if mk = [] then [] else [Cut, Cut]))
      = filter (\<lambda>b. b \<le> 0x80) sq"
    unfolding run_bytes_append rb using assms(2,3) by auto
  moreover have "Lost \<in> set (map wire_event (sq @ loss @ sep) @ (if mk = [] then [] else [Cut, Cut]))
      \<longleftrightarrow> 0xFD \<in> set sq \<or> loss \<noteq> []"
    unfolding set_append Un_iff lost using assms(2,3) by auto
  ultimately show ?thesis
    by (intro exI [of _ "map wire_event (sq @ loss @ sep) @ (if mk = [] then [] else [Cut, Cut])"]) simp
qed

subsection \<open>Runs\<close>

text \<open>
  A round of the main loop: one service call with the timer periods that end during it and until the next,
  each at its place in the schedule, and whatever the host and the USB peripheral do until the next round.
\<close>

record rle_period =
  rp_sched :: "u8 list list list"
  rp_now :: u32
  rp_bus :: "bus_op list"

abbreviation rp_ticks :: "rle_period \<Rightarrow> u8 list list" where
  "rp_ticks p \<equiv> concat (rp_sched p)"

fun rle_run :: "sdk \<Rightarrow> u32 \<Rightarrow> int \<Rightarrow> rle_period list \<Rightarrow> u8 list \<Rightarrow> rle \<Rightarrow> usb \<Rightarrow> (rle \<times> usb) option" where
  "rle_run K fcpu kbps [] w r u = Some (r, u)"
| "rle_run K fcpu kbps (p # ps) w r u = do {
     (x, u) \<leftarrow> rle_service_irq K fcpu kbps (rp_now p) \<lparr>iq_sched = rp_sched p, iq_w = w, iq_rle = r\<rparr> u;
     (acc, rd, u) \<leftarrow> bus_run K (rp_bus p) u;
     rle_run K fcpu kbps ps (iq_w x) (iq_rle x) u }"

text \<open>Fewer than 256 bytes per tick, all of them run-bytes, and a host that keeps to the bus operations of a session.\<close>

definition rle_period_ok :: "sdk \<Rightarrow> rle_period \<Rightarrow> bool" where
  "rle_period_ok K p \<longleftrightarrow> list_all (\<lambda>bs. length bs < 256 \<and> (\<forall>b \<in> set bs. b \<le> 0x80)) (rp_ticks p)
     \<and> list_all (bus_idle_op False K) (rp_bus p)"

lemma rle_run_spec:
  assumes "sdk_ok K" "irq_ok K"
  shows "list_all (rle_period_ok K) ps \<Longrightarrow> rx_inv False K u \<Longrightarrow> rle_at w r \<Longrightarrow> \<forall>b \<in> set (rle_list r). b \<le> 0x80 \<Longrightarrow>
    \<exists>kept taken out r' u'. rle_run K fcpu kbps ps w r u = Some (r', u') \<and> rx_inv False K u'
      \<and> list_all2 tick_kept (concat (map rp_ticks ps)) kept
      \<and> rle_list r @ concat kept = taken @ rle_list r'
      \<and> usb_stream u' = usb_stream u @ out
      \<and> run_bytes (host_rle False out)
          = filter (\<lambda>b. b \<le> 0x80) (fst (squelch_list (CAP_IDLE_K kbps) taken (squelch_from (capRun r) (capPiped r))))
      \<and> ramDrop r' = ramDrop r + of_nat (tick_missing (concat (map rp_ticks ps)) kept)
      \<and> (Lost \<notin> set (host_rle False out) \<longrightarrow> lossSeen r' = lossSeen r)
      \<and> (tick_missing (concat (map rp_ticks ps)) kept = 0 \<and> lossSeen r = ramDrop r \<longrightarrow>
          Lost \<notin> set (host_rle False out) \<and> lossSeen r' = ramDrop r')"
proof (induction ps arbitrary: u w r)
  case Nil
  then show ?case
    by (intro exI [of _ "[]"] exI [of _ "[]"] exI [of _ "[]"] exI [of _ r] exI [of _ u]) (simp add: tick_missing_def)
next
  case (Cons p ps)
  let ?k = "CAP_IDLE_K kbps" and ?q = "squelch_from (capRun r) (capPiped r)"
  have p: "list_all (\<lambda>bs. length bs < 256) (rp_ticks p)" "\<forall>b \<in> set (concat (rp_ticks p)). b \<le> 0x80"
    "list_all (bus_idle_op False K) (rp_bus p)" "list_all (rle_period_ok K) ps"
    using Cons.prems(1) by (auto simp: rle_period_ok_def list_all_iff)
  obtain k1 c loss sep mk r1 u1 where
    s: "rle_service_irq K fcpu kbps (rp_now p) \<lparr>iq_sched = rp_sched p, iq_w = w, iq_rle = r\<rparr> u
      = Some (\<lparr>iq_sched = [], iq_w = w @ concat (rp_ticks p), iq_rle = r1\<rparr>, u1)" "rx_inv False K u1"
    "rle_at (w @ concat (rp_ticks p)) r1" "list_all2 tick_kept (rp_ticks p) k1" "rle_list r @ concat k1 = c @ rle_list r1"
    "usb_stream u1 = usb_stream u @ fst (squelch_list ?k c ?q) @ loss @ sep @ mk"
    "capRun r1 = sq_run (snd (squelch_list ?k c ?q))" "capPiped r1 = sq_piped (snd (squelch_list ?k c ?q))"
    "loss \<in> {[], [0xFD]}" "sep \<in> {[], [0xFF]}" "mk \<in> {[], mode_block fcpu}"
    "ramDrop r1 = ramDrop r + of_nat (tick_missing (rp_ticks p) k1)" "loss = [] \<longrightarrow> lossSeen r1 = lossSeen r"
    "tick_missing (rp_ticks p) k1 = 0 \<and> lossSeen r = ramDrop r \<longrightarrow> loss = [] \<and> lossSeen r1 = ramDrop r1"
    using rle_service_irq_facts [OF assms(1,2) Cons.prems(2,3) p(1), of fcpu kbps "rp_now p"] by blast
  define sq where "sq = fst (squelch_list ?k c ?q)"
  have "set (concat k1) \<subseteq> set (concat (rp_ticks p))"
    using s(4) by (induction rule: list_all2_induct) (auto simp: tick_kept_def dest!: in_set_takeD in_set_dropD)
  then have "\<forall>b \<in> set (c @ rle_list r1). b \<le> 0x80" using Cons.prems(4) p(2) unfolding s(5) [symmetric] by auto
  then have small_c: "\<forall>b \<in> set c. b \<le> 0x80" and small_r: "\<forall>b \<in> set (rle_list r1). b \<le> 0x80" by simp_all
  obtain acc rd u2 where b: "bus_run K (rp_bus p) u1 = Some (acc, rd, u2)" "rx_inv False K u2" "usb_stream u2 = usb_stream u1"
    using bus_run_stream [OF assms(1,2) s(2) p(3)] by blast
  obtain k2 taken2 out2 r' u' where i: "rle_run K fcpu kbps ps (w @ concat (rp_ticks p)) r1 u2 = Some (r', u')" "rx_inv False K u'"
    "list_all2 tick_kept (concat (map rp_ticks ps)) k2" "rle_list r1 @ concat k2 = taken2 @ rle_list r'"
    "usb_stream u' = usb_stream u2 @ out2"
    "run_bytes (host_rle False out2)
      = filter (\<lambda>b. b \<le> 0x80) (fst (squelch_list ?k taken2 (squelch_from (capRun r1) (capPiped r1))))"
    "ramDrop r' = ramDrop r1 + of_nat (tick_missing (concat (map rp_ticks ps)) k2)"
    "Lost \<notin> set (host_rle False out2) \<longrightarrow> lossSeen r' = lossSeen r1"
    "tick_missing (concat (map rp_ticks ps)) k2 = 0 \<and> lossSeen r1 = ramDrop r1 \<longrightarrow>
      Lost \<notin> set (host_rle False out2) \<and> lossSeen r' = ramDrop r'"
    using Cons.IH [OF p(4) b(2) s(3) small_r] by blast
  have "set sq \<subseteq> insert 0xFF (set c)" unfolding sq_def by (rule squelch_set)
  moreover have "0xFE \<notin> insert 0xFF (set c)" "0xFD \<notin> insert 0xFF (set c)" using small_c by auto
  ultimately have no: "0xFE \<notin> set sq" "0xFD \<notin> set sq" by blast+
  obtain es where es: "host_rle False (sq @ loss @ sep @ mk @ out2) = es @ host_rle False out2"
    "run_bytes es = filter (\<lambda>b. b \<le> 0x80) sq" "Lost \<in> set es \<longleftrightarrow> loss \<noteq> []"
    using host_rle_chunk [OF no(1) s(9-11), of out2] no(2) by blast
  have tail: "fst (squelch_list ?k taken2 (squelch_from (capRun r1) (capPiped r1)))
      = fst (squelch_list ?k taken2 (snd (squelch_list ?k c ?q)))"
    using squelch_cong [of "squelch_from (capRun r1) (capPiped r1)" "snd (squelch_list ?k c ?q)" ?k taken2] s(7,8) by simp
  have len: "length (rp_ticks p) = length k1" using s(4) by (rule list_all2_lengthD)
  have miss: "tick_missing (concat (map rp_ticks (p # ps))) (k1 @ k2)
      = tick_missing (rp_ticks p) k1 + tick_missing (concat (map rp_ticks ps)) k2"
    using tick_missing_append [OF len] by simp
  have f1: "rle_run K fcpu kbps (p # ps) w r u = Some (r', u')" using s(1) b(1) i(1) by simp
  have f2: "list_all2 tick_kept (concat (map rp_ticks (p # ps))) (k1 @ k2)"
    using list_all2_appendI [OF s(4) i(3)] by simp
  have f3: "rle_list r @ concat (k1 @ k2) = (c @ taken2) @ rle_list r'"
    using s(5) i(4) by (metis append.assoc concat_append)
  have f4: "usb_stream u' = usb_stream u @ (sq @ loss @ sep @ mk @ out2)" using i(5) b(3) s(6) by (simp add: sq_def)
  have f5: "run_bytes (host_rle False (sq @ loss @ sep @ mk @ out2))
      = filter (\<lambda>b. b \<le> 0x80) (fst (squelch_list ?k (c @ taken2) ?q))"
    unfolding es(1) run_bytes_append es(2) i(6) tail
    by (simp add: squelch_list_append case_prod_beta Let_def sq_def)
  have f6: "ramDrop r' = ramDrop r + of_nat (tick_missing (concat (map rp_ticks (p # ps))) (k1 @ k2))"
    unfolding miss i(7) s(12) by simp
  have f7: "Lost \<notin> set (host_rle False (sq @ loss @ sep @ mk @ out2)) \<longrightarrow> lossSeen r' = lossSeen r"
    unfolding es(1) using es(3) i(8) s(13) by auto
  have f8: "tick_missing (concat (map rp_ticks (p # ps))) (k1 @ k2) = 0 \<and> lossSeen r = ramDrop r \<longrightarrow>
      Lost \<notin> set (host_rle False (sq @ loss @ sep @ mk @ out2)) \<and> lossSeen r' = ramDrop r'"
  proof (intro impI, elim conjE)
    assume a: "tick_missing (concat (map rp_ticks (p # ps))) (k1 @ k2) = 0" "lossSeen r = ramDrop r"
    then have "loss = []" "lossSeen r1 = ramDrop r1" using s(14) miss by auto
    then show "Lost \<notin> set (host_rle False (sq @ loss @ sep @ mk @ out2)) \<and> lossSeen r' = ramDrop r'"
      unfolding es(1) using es(3) i(9) a(1) miss by simp
  qed
  show ?case
    by (rule exI [of _ "k1 @ k2"], rule exI [of _ "c @ taken2"], rule exI [of _ "sq @ loss @ sep @ mk @ out2"],
        rule exI [of _ r'], rule exI [of _ u']) (intro conjI f1 i(2) f2 f3 f4 f5 f6 f7 f8)
qed

lemma squelch_off: "\<not> sq_piped q \<Longrightarrow> fst (squelch_list 0 xs q) = xs"
proof (induction xs arbitrary: q)
  case (Cons x xs)
  have "fst (squelch_byte 0 x q) = [x]" "\<not> sq_piped (snd (squelch_byte 0 x q))"
    using Cons.prems by (simp_all add: squelch_byte_def Let_def)
  then show ?case using Cons.IH by (simp add: case_prod_beta Let_def)
qed simp

lemma all_kept:
  assumes "list_all2 tick_kept bss kept" "tick_missing bss kept = 0" "list_all (\<lambda>bs. length bs \<le> 30) bss"
  shows "kept = bss"
  using assms
proof (induction rule: list_all2_induct)
  case (Cons bs bss kp kept)
  obtain n where n: "kp = take n bs" using Cons.hyps(1) Cons.prems(2) by (auto simp: tick_kept_def)
  have "length bs \<le> length kp" "tick_missing bss kept = 0" using Cons.prems by (simp_all add: tick_missing_def)
  then have "kp = bs" "kept = bss" using n Cons.IH Cons.prems(2) by simp_all
  then show ?case by simp
qed simp

subsection \<open>Properties\<close>



end
