(* ===== verification/Boot.thy ===== *)
theory Boot
  imports MainLoop
begin

text \<open>
  From power-up to the main loop: \<open>Board::init\<close> of \<^verbatim>\<open>src/common/board.cpp\<close>, which sets up the USB device
  and the LED, pumps USB for two seconds and prints two banner lines through the output hook, and the
  entry of \<open>main\<close> behind it.

  The supply voltage and the chip number are the vendor's, and so is \<open>printf\<close>: \<open>pieces\<close> says in which
  pieces it hands a line to \<open>_write\<close>. The clock, interrupt-priority and delay set-up is outside the model.
\<close>

subsection \<open>Model\<close>

text \<open>\<open>while (Time::millis() - t0 < 2000) usb.tick(Time::millis());\<close>\<close>

partial_function (option) boot_wait :: "board \<Rightarrow> u32 \<Rightarrow> nat \<times> usb \<Rightarrow> (nat \<times> usb) option" where
  "boot_wait B t0 w =
    (case millis B w of
       None \<Rightarrow> None
     | Some (now, w) \<Rightarrow>
         if now - t0 < 2000 then Option.bind (tick_now B w) (boot_wait B t0) else Some w)"

text \<open>\<open>%08x\<close>.\<close>

definition hex_lower :: "u32 \<Rightarrow> u8" where
  "hex_lower d = (if d < 10 then 0x30 + ucast d else 0x61 + ucast (d - 10))"

definition hex8 :: "u32 \<Rightarrow> u8 list" where
  "hex8 v = map (\<lambda>i. hex_lower (drop_bit (4 * i) v AND 0xF)) (rev [0..<8])"

lemma hex8_length [simp]: "length (hex8 v) = 8"
  by (simp add: hex8_def)

definition boot_banner :: "u32 \<Rightarrow> u32 \<Rightarrow> u8 list list" where
  "boot_banner fcpu chip =
    [map of_char ''SystemClk:'' @ dec_digits (unat fcpu) @ [0x0D, 0x0A],
     map of_char ''ChipID:'' @ hex8 chip @ [0x0D, 0x0A]]"

fun print_pieces :: "board \<Rightarrow> u8 list list \<Rightarrow> nat \<times> usb \<Rightarrow> (nat \<times> usb) option" where
  "print_pieces B [] w = Some w"
| "print_pieces B (p # ps) w = (case wrap_write B p w of None \<Rightarrow> None | Some (n, w) \<Rightarrow> print_pieces B ps w)"

definition board_init :: "board \<Rightarrow> bool \<Rightarrow> u32 \<Rightarrow> (u8 list \<Rightarrow> u8 list list) \<Rightarrow> sniffer \<Rightarrow> sniffer option" where
  "board_init B is5V chip pieces s =
    (let s = s\<lparr>sn_usb := usb_init (b_K B) is5V (sn_usb s), sn_led := led_init (sn_led s)\<rparr> in
     do {
       (t0, s) \<leftarrow> sn_millis B s;
       w \<leftarrow> boot_wait B t0 (sn_ticks s, sn_usb s);
       w \<leftarrow> print_pieces B (concat (map pieces (boot_banner (b_fcpu B) chip))) w;
       Some (put_world w s) })"

text \<open>\<open>main\<close> up to its loop.\<close>

definition main_boot :: "board \<Rightarrow> bool \<Rightarrow> u32 \<Rightarrow> (u8 list \<Rightarrow> u8 list list) \<Rightarrow> sniffer \<Rightarrow> sniffer option" where
  "main_boot B is5V chip pieces s = do { s \<leftarrow> board_init B is5V chip pieces s; main_start B s }"

lemma boot_banner_short: "list_all (\<lambda>p. length p < 2 ^ 32) (boot_banner fcpu chip)"
proof -
  have "unat fcpu < 10 ^ 10" using unat_lt [of fcpu] by simp
  then have "length (dec_digits (unat fcpu)) \<le> 10" by (rule dec_digits_len) simp
  then have "length (map of_char ''SystemClk:'' @ dec_digits (unat fcpu) @ [0x0D, 0x0A] :: u8 list) < 2 ^ 32"
    by (simp only: length_append length_map) simp
  moreover have "length (map of_char ''ChipID:'' @ hex8 chip @ [0x0D, 0x0A] :: u8 list) < 2 ^ 32"
    by (simp only: length_append length_map hex8_length) simp
  ultimately show ?thesis unfolding boot_banner_def list.pred_inject by (intro conjI list.pred_inject(1))
qed

subsection \<open>The wait\<close>

text \<open>
  A clock that runs: its 32 bits are the low bits of a time that never goes back, passes every bound, and
  advances by less than twelve days from one reading to the next.
\<close>

definition clock_is :: "board \<Rightarrow> (nat \<Rightarrow> nat) \<Rightarrow> bool" where
  "clock_is B f \<longleftrightarrow> (\<forall>k. b_ms B k = of_nat (f k)) \<and> (\<forall>k. f k \<le> f (Suc k)) \<and> (\<forall>k. f (Suc k) \<le> f k + 2 ^ 30)
     \<and> (\<forall>t. \<exists>k. t \<le> f k)"

lemma clock_mono: "clock_is B f \<Longrightarrow> j \<le> k \<Longrightarrow> f j \<le> f k"
  unfolding clock_is_def by (metis lift_Suc_mono_le)

lemma boot_wait_spec:
  assumes "board_ok B" "clock_is B f" "T + 2000 \<le> f N"
  shows "usb_inv B u \<Longrightarrow> T \<le> f k \<Longrightarrow> f k < T + 2 ^ 32 \<Longrightarrow>
    \<exists>k' u'. boot_wait B (of_nat T) (k, u) = Some (k', u') \<and> usb_inv B u' \<and> sent_on B u [] u'
      \<and> k < k' \<and> T + 2000 \<le> f (k' - 1)"
proof (induction "N - k" arbitrary: k u rule: less_induct)
  case less
  obtain u1 where m: "millis B (k, u) = Some (b_ms B k, k + 1, u1)" "usb_inv B u1" "sent_on B u [] u1"
    using millis_spec [OF assms(1) less.prems(1)] by blast
  have now: "b_ms B k = of_nat (f k)" using assms(2) by (simp add: clock_is_def)
  have lt: "b_ms B k - of_nat T < 2000 \<longleftrightarrow> f k < T + 2000"
    unfolding now word_less_nat_alt elapsed [OF less.prems(2,3)] using less.prems(2) by auto
  show ?case
  proof (cases "f k < T + 2000")
    case False
    then have "boot_wait B (of_nat T) (k, u) = Some (k + 1, u1)"
      using lt by (subst boot_wait.simps) (simp add: m(1))
    then show ?thesis using m(2,3) False by (intro exI [of _ "k + 1"] exI [of _ u1]) simp
  next
    case True
    obtain w where t: "tick_now B (k + 1, u1) = Some w" "usb_inv B (snd w)" "sent_on B u1 [] (snd w)"
      using tick_now_spec [OF assms(1), of "(k + 1, u1)"] m(2) by auto
    have fst: "fst w = k + 2"
      using t(1) by (auto simp: tick_now_def millis_def split: Option.bind_splits)
    have "k < N" using True assms(3) clock_mono [OF assms(2), of N k] by (meson leD le_less_trans not_le)
    then have less_N: "N - fst w < N - k" using fst by simp
    have mono: "f k \<le> f (k + 2)" by (rule clock_mono [OF assms(2)]) simp
    have "f (Suc k) \<le> f k + 2 ^ 30" "f (Suc (Suc k)) \<le> f (Suc k) + 2 ^ 30"
      using assms(2) unfolding clock_is_def by blast+
    then have "f (k + 2) \<le> f k + 2 ^ 31" by simp
    then have small: "f (fst w) < T + 2 ^ 32" using True fst by simp
    have big: "T \<le> f (fst w)" using mono less.prems(2) fst by simp
    from less.hyps [OF less_N t(2) big small] obtain k' u' where
      r: "boot_wait B (of_nat T) (fst w, snd w) = Some (k', u')" "usb_inv B u'" "sent_on B (snd w) [] u'"
      "fst w < k'" "T + 2000 \<le> f (k' - 1)" by blast
    have "boot_wait B (of_nat T) (k, u) = Some (k', u')"
      using lt True r(1) by (subst boot_wait.simps) (simp add: m(1) t(1) [simplified])
    moreover have "sent_on B u [] u'" using sent_trans [OF sent_trans [OF m(3) t(3)] r(3)] by simp
    ultimately show ?thesis using r(2,4,5) fst by (intro exI [of _ k'] exI [of _ u']) simp
  qed
qed

subsection \<open>The banner\<close>

lemma wrap_write_spec:
  assumes "board_ok B" "usb_inv B (snd w)" "length bytes < 2 ^ 32"
  shows "\<exists>n w'. wrap_write B bytes w = Some (length bytes, w') \<and> usb_inv B (snd w')
    \<and> sent_on B (snd w) (take n bytes) (snd w')
    \<and> (length bytes \<le> unat (usb_writeSpace (snd w)) \<longrightarrow> n = length bytes)
    \<and> rx_same B (snd w) (snd w')"
proof -
  obtain n g w' where "write_loop B 200000 bytes 0 0 w = Some (n, g, w')" "usb_inv B (snd w')"
    "sent_on B (snd w) (take n bytes) (snd w')"
    "length bytes \<le> unat (usb_writeSpace (snd w)) \<longrightarrow> n = length bytes"
    "rx_same B (snd w) (snd w')"
    using write_loop_spec [OF assms(1,2), of 0 bytes 0 200000] assms(3) by auto
  then show ?thesis by (intro exI [of _ n] exI [of _ w']) (simp add: wrap_write_def)
qed

lemma print_pieces_spec:
  assumes "board_ok B"
  shows "list_all (\<lambda>p. length p < 2 ^ 32) ps \<Longrightarrow> usb_inv B (snd w) \<Longrightarrow>
    \<exists>ns w'. print_pieces B ps w = Some w' \<and> usb_inv B (snd w') \<and> length ns = length ps
      \<and> sent_on B (snd w) (concat (map2 take ns ps)) (snd w')
      \<and> rx_same B (snd w) (snd w')"
proof (induction ps arbitrary: w)
  case (Cons p ps)
  then have p: "length p < 2 ^ 32" "list_all (\<lambda>p. length p < 2 ^ 32) ps" by simp_all
  obtain n w1 where w: "wrap_write B p w = Some (length p, w1)" "usb_inv B (snd w1)"
    "sent_on B (snd w) (take n p) (snd w1)"
    "rx_same B (snd w) (snd w1)"
    using wrap_write_spec [OF assms Cons.prems(2) p(1)] by blast
  obtain ns w2 where r: "print_pieces B ps w1 = Some w2" "usb_inv B (snd w2)" "length ns = length ps"
    "sent_on B (snd w1) (concat (map2 take ns ps)) (snd w2)"
    "rx_same B (snd w1) (snd w2)"
    using Cons.IH [OF p(2) w(2)] by blast
  then show ?case using w rx_same_trans [OF w(4) r(5)] sent_trans [OF w(3) r(4)] by (intro exI [of _ "n # ns"] exI [of _ w2]) simp
qed simp

lemma tick_now_ticks: "tick_now B w = Some w' \<Longrightarrow> fst w' = Suc (fst w)"
  by (auto simp: tick_now_def millis_def split: Option.bind_splits prod.splits)

lemma write_loop_ticks: "write_loop B limit bytes off guard w = Some (n, g, w') \<Longrightarrow> fst w \<le> fst w'"
proof (induction B limit bytes off guard w rule: write_loop.induct)
  case (1 B limit bytes off guard w)
  show ?case
  proof (cases "off < length bytes \<and> guard < limit")
    case False
    then show ?thesis using "1.prems" unfolding write_loop.simps [of B limit bytes off guard w] if_not_P [OF False] by simp
  next
    case True
    obtain m u where wr: "usb_write (drop off bytes) (snd w) = (m, u)" by fastforce
    obtain w1 where t: "tick_now B (fst w, u) = Some w1"
      using "1.prems" True wr by (cases "tick_now B (fst w, u)") (simp_all add: write_loop.simps [of B limit bytes off guard w])
    have "fst w1 \<le> fst w'"
      using "1.IH" [OF True wr [symmetric] t] "1.prems" True wr t
      by (cases "m = 0") (simp_all add: write_loop.simps [of B limit bytes off guard w])
    then show ?thesis using tick_now_ticks [OF t] by simp
  qed
qed

lemma print_pieces_ticks: "print_pieces B ps w = Some w' \<Longrightarrow> fst w \<le> fst w'"
proof (induction ps arbitrary: w)
  case (Cons p ps)
  then obtain n w1 where w: "wrap_write B p w = Some (n, w1)" "print_pieces B ps w1 = Some w'"
    by (auto split: option.splits)
  then have "fst w \<le> fst w1"
    by (auto simp: wrap_write_def split: Option.bind_splits prod.splits dest: write_loop_ticks)
  then show ?case using Cons.IH [OF w(2)] by simp
qed simp

subsection \<open>Properties\<close>

lemma static_side_ok:
  assumes "length regs = 64"
  shows "clk_ok ((clk_static regs)\<lparr>clk_SYS_CFG := c\<rparr>)" "length (rle_ring (rle_static regs)) = 2048"
    "\<not> drain_armed (rle_static regs)" "\<not> tim3_on (rle_static regs)"
  using assms ring_wf_static [of 11 "0 :: u8"]
  by (simp_all add: clk_static_def clk_ok_def CLK_RING_SZ_def BURST_MAX_def rle_static_def RING_SZ_def)

lemma fresh_stream: "usb_stream (usb_init K is5V usb_static) = []"
  by (simp add: usb_init_def Let_def decodeLineCoding_def endpointInit_def usb_stream_def usb_static_def
      ring_list_def ring_size_def ring_clear_def)

lemma board_init_spec:
  assumes "board_ok B" "clock_is B f" "list_all (\<lambda>p. length p < 2 ^ 32) (concat (map pieces (boot_banner (b_fcpu B) chip)))"
  shows "\<exists>w ns k. board_init B is5V chip pieces (sniffer_static regs) = Some (put_world w
      ((sniffer_static regs)\<lparr>sn_usb := usb_init (b_K B) is5V usb_static, sn_led := led_init (sn_led (sniffer_static regs))\<rparr>))
    \<and> usb_inv B (snd w) \<and> k < fst w \<and> f 0 + 2000 \<le> f k
    \<and> length ns = length (concat (map pieces (boot_banner (b_fcpu B) chip)))
    \<and> sent_on B (usb_init (b_K B) is5V usb_static) (concat (map2 take ns (concat (map pieces (boot_banner (b_fcpu B) chip))))) (snd w)"
proof -
  let ?s = "(sniffer_static regs)\<lparr>sn_usb := usb_init (b_K B) is5V usb_static,
    sn_led := led_init (sn_led (sniffer_static regs))\<rparr>"
  have K: "sdk_ok (b_K B)" using assms(1) by (simp add: board_ok_def)
  have rx: "usb_inv B (usb_init (b_K B) is5V usb_static)" using usb_ready [OF K usb_static_ok] by blast
  obtain u where m: "millis B (0, usb_init (b_K B) is5V usb_static) = Some (b_ms B 0, 1, u)" "usb_inv B u"
    "sent_on B (usb_init (b_K B) is5V usb_static) [] u"
    using millis_spec [OF assms(1) rx, of 0] by auto
  have f: "b_ms B 0 = of_nat (f 0)" "f 0 \<le> f 1" "f 1 \<le> f 0 + 2 ^ 30"
    using assms(2) by (simp_all add: clock_is_def)
  obtain N where N: "f 0 + 2000 \<le> f N" using assms(2) unfolding clock_is_def by blast
  have "f 1 < f 0 + 2 ^ 32" using f(3) by simp
  from boot_wait_spec [OF assms(1,2) N m(2) f(2) this] obtain k u1 where
    w: "boot_wait B (of_nat (f 0)) (1, u) = Some (k, u1)" "usb_inv B u1" "sent_on B u [] u1"
      "f 0 + 2000 \<le> f (k - 1)" "1 < k" by blast
  let ?ps = "concat (map pieces (boot_banner (b_fcpu B) chip))"
  obtain ns w2 where p: "print_pieces B ?ps (k, u1) = Some w2" "usb_inv B (snd w2)" "length ns = length ?ps"
    "sent_on B u1 (concat (map2 take ns ?ps)) (snd w2)"
    using print_pieces_spec [OF assms(1,3), of "(k, u1)"] w(2) by auto
  have init: "board_init B is5V chip pieces (sniffer_static regs) = Some (put_world w2 ?s)"
    using m(1) w(1) p(1) f(1) by (simp add: board_init_def sn_millis_def sniffer_static_def put_world_def)
  have "k - 1 < fst w2" using print_pieces_ticks [OF p(1)] w(5) by simp
  moreover have "sent_on B (usb_init (b_K B) is5V usb_static) (concat (map2 take ns ?ps)) (snd w2)"
    using sent_trans [OF sent_trans [OF m(3) w(3)] p(4)] by simp
  ultimately show ?thesis
    by (intro exI [of _ w2] exI [of _ ns] exI [of _ "k - 1"] conjI init p(2,3) w(4))
qed

text \<open>
  C29. Power-up reaches the main loop. On a clock that runs, with any host and any supply voltage,
  \<open>Board::init\<close> returns after at least two seconds of USB service, having put on the stream the banner
  lines, of each piece a prefix (a bus reset may drop what is queued, and adds nothing); then the start-up datapath is begun and the main loop's invariant
  holds. No reading of the clock can make the wait miss its end.
\<close>

theorem boot_reaches_loop:
  assumes "board_ok B" and "clock_is B f" and "length regs = 64"
    and "list_all (\<lambda>p. length p < 2 ^ 32) (concat (map pieces (boot_banner (b_fcpu B) chip)))"
  shows "\<exists>s0 s ns k. board_init B is5V chip pieces (sniffer_static regs) = Some s0 \<and> boot_ok B s0
    \<and> initialized (sn_led s0) \<and> k < sn_ticks s0 \<and> f 0 + 2000 \<le> f k
    \<and> length ns = length (concat (map pieces (boot_banner (b_fcpu B) chip)))
    \<and> (let banner = concat (map2 take ns (concat (map pieces (boot_banner (b_fcpu B) chip)))) in
        subseq (usb_stream (sn_usb s0)) banner \<and> (resets B \<or> usb_stream (sn_usb s0) = banner))
    \<and> main_boot B is5V chip pieces (sniffer_static regs) = Some s \<and> sn_inv B s"
proof -
  let ?s = "(sniffer_static regs)\<lparr>sn_usb := usb_init (b_K B) is5V usb_static,
    sn_led := led_init (sn_led (sniffer_static regs))\<rparr>"
  obtain w ns k where i: "board_init B is5V chip pieces (sniffer_static regs) = Some (put_world w ?s)" "usb_inv B (snd w)"
    "k < fst w" "f 0 + 2000 \<le> f k" "length ns = length (concat (map pieces (boot_banner (b_fcpu B) chip)))"
    "sent_on B (usb_init (b_K B) is5V usb_static) (concat (map2 take ns (concat (map pieces (boot_banner (b_fcpu B) chip))))) (snd w)"
    using board_init_spec [OF assms(1,2,4)] by blast
  let ?s0 = "put_world w ?s"
  have boot: "boot_ok B ?s0"
    using i(2) static_side_ok [OF assms(3)] assms(3)
    by (simp add: boot_ok_def sn_inv_def put_world_def sniffer_static_def clk_side_def rle_side_def rle_wf_def)
      (simp add: clk_static_def)
  obtain s where s: "main_start B ?s0 = Some s" "sn_inv B s" using main_start_spec [OF assms(1) boot] by blast
  have "initialized (sn_led ?s0)" by (simp add: put_world_def led_init_def setLed_def)
  moreover have "main_boot B is5V chip pieces (sniffer_static regs) = Some s" unfolding main_boot_def i(1) using s(1) by simp
  ultimately show ?thesis
    using i boot s(2) by (intro exI [of _ ?s0] exI [of _ s] exI [of _ ns] exI [of _ k]) (simp add: put_world_def sent_def Let_def fresh_stream)
qed

theorem boot_reaches_loop_witness:
  "\<exists>s0 s k. board_init wch_board False 0x03560601 (\<lambda>l. [l]) (sniffer_static (replicate 64 0)) = Some s0 \<and> 2000 \<le> k
    \<and> k < sn_ticks s0 \<and> main_start wch_board s0 = Some s"
proof -
  have c: "clock_is wch_board (\<lambda>k. k)" unfolding clock_is_def wch_board_def by auto
  have l: "list_all (\<lambda>p. length p < 2 ^ 32) (concat (map (\<lambda>l. [l]) (boot_banner (b_fcpu wch_board) 0x03560601)))"
    using boot_banner_short [of "b_fcpu wch_board" "0x03560601"] by (simp only: concat_map_singleton map_ident)
  have r: "length (replicate 64 0) = 64" by simp
  show ?thesis
    using boot_reaches_loop [OF wch_board_ok(1) c r l, where is5V = False] by (auto simp: main_boot_def)
qed

end
