(* ===== verification/MdioMain.thy ===== *)
theory MdioMain
  imports Boot MdioBridge
begin

text \<open>
  The driver build, \<^verbatim>\<open>src/main_mdio.cpp\<close>: the MDIO master and its command bridge behind the real USB
  device. Every line the bridge prints goes through \<open>printf\<close> and the output hook, which services USB
  while it waits for room, so bytes of the host arrive in the middle of the command poll.

  The bridge's output log \<open>b_out\<close> is written out as it grows; the blinks it queues go to the LED.
\<close>

subsection \<open>Model\<close>

record mdio_main =
  mm_bridge :: bridge
  mm_usb :: usb
  mm_led :: led
  mm_ticks :: nat

definition line_bytes :: "out_line \<Rightarrow> u8 list" where
  "line_bytes l = map of_char (render l)"

text \<open>The lines and blinks of \<open>t\<close> that \<open>s\<close> has not.\<close>

definition new_lines :: "bridge \<Rightarrow> bridge \<Rightarrow> out_line list" where
  "new_lines s t = drop (length (b_out s)) (b_out t)"

definition new_blinks :: "bridge \<Rightarrow> bridge \<Rightarrow> (u32 \<times> u32) list" where
  "new_blinks s t = drop (length (b_blinks s)) (b_blinks t)"

definition print_lines ::
  "board \<Rightarrow> (u8 list \<Rightarrow> u8 list list) \<Rightarrow> out_line list \<Rightarrow> nat \<times> usb \<Rightarrow> (nat \<times> usb) option" where
  "print_lines B pieces ls w = print_pieces B (concat (map (\<lambda>l. pieces (line_bytes l)) ls)) w"

text \<open>\<open>while (usb_.available() && usb_.read(&b, 1) == 1)\<close>, the printing of each command included.\<close>

partial_function (option) mdio_poll ::
  "board \<Rightarrow> (u8 list \<Rightarrow> u8 list list) \<Rightarrow> bridge \<Rightarrow> nat \<times> usb \<Rightarrow> (bridge \<times> nat \<times> usb) option" where
  "mdio_poll B pieces s w =
    (if usb_available (snd w) = 0 then Some (s, w)
     else
      let (xs, u) = usb_read 1 (snd w)
      in case xs of
           [] \<Rightarrow> Some (s, fst w, u)
         | b # _ \<Rightarrow>
             (case print_lines B pieces (new_lines s (commandByte b s)) (fst w, u) of
                None \<Rightarrow> None
              | Some w \<Rightarrow> mdio_poll B pieces (commandByte b s) w))"

definition mdio_tick ::
  "board \<Rightarrow> (u8 list \<Rightarrow> u8 list list) \<Rightarrow> bridge \<Rightarrow> nat \<times> usb \<Rightarrow> (bridge \<times> nat \<times> usb) option" where
  "mdio_tick B pieces s w =
    (let (started, u) = usb_sessionStarted (snd w);
         s = (if started then resetCommandLine s else s)
     in do {
       w \<leftarrow> print_lines B pieces (new_lines s (pollResponse s)) (fst w, u);
       mdio_poll B pieces (pollResponse s) w })"

definition queue_blinks :: "(u32 \<times> u32) list \<Rightarrow> led \<Rightarrow> led" where
  "queue_blinks bs l = fold (\<lambda>(on, off) l. snd (led_blink2 on off l)) bs l"

text \<open>One round; the PIOC program has written the data registers \<open>regs\<close> since the last one.\<close>

definition mdio_round ::
  "board \<Rightarrow> (u8 list \<Rightarrow> u8 list list) \<Rightarrow> bool \<Rightarrow> (u8 \<Rightarrow> u8) \<Rightarrow> mdio_main \<Rightarrow> mdio_main option" where
  "mdio_round B pieces stub regs s = do {
     (now, k, u) \<leftarrow> millis B (mm_ticks s, mm_usb s);
     u \<leftarrow> usb_tick (b_K B) now u;
     let b = mm_bridge s;
     let b = b\<lparr>b_mdio := master_tick stub now ((b_mdio b)\<lparr>dr := regs\<rparr>)\<rparr>;
     (t, w) \<leftarrow> mdio_tick B pieces b (k, u);
     let led = queue_blinks (new_blinks b t) (mm_led s);
     (led, k, u) \<leftarrow> (if initialized led then do { (x, w) \<leftarrow> millis B w; Some (led_tick x led, w) } else Some (led, w));
     Some (s\<lparr>mm_bridge := t, mm_usb := u, mm_led := led, mm_ticks := k\<rparr>) }"

definition mdio_banner :: "bool \<Rightarrow> u8 list" where
  "mdio_banner stub =
    map of_char (if stub then ''# mdio-master ready (clause22+mmd, STUB - no PIOC)''
                 else ''# mdio-master ready (clause22+mmd)'') @ [0x0D, 0x0A]"

text \<open>\<open>main\<close> between \<open>Board::init\<close> and the loop.\<close>

definition mdio_start :: "board \<Rightarrow> (u8 list \<Rightarrow> u8 list list) \<Rightarrow> bool \<Rightarrow> mdio_main \<Rightarrow> mdio_main option" where
  "mdio_start B pieces stub s = do {
     w \<leftarrow> print_pieces B (pieces (mdio_banner stub)) (mm_ticks s, mm_usb s);
     Some (s\<lparr>mm_bridge := (mm_bridge s)\<lparr>b_mdio := master_begin stub (b_mdio (mm_bridge s))\<rparr>,
             mm_usb := snd w, mm_ticks := fst w\<rparr>) }"

text \<open>\<open>main\<close> from power-up to its loop.\<close>

definition mdio_boot :: "board \<Rightarrow> bool \<Rightarrow> u32 \<Rightarrow> (u8 list \<Rightarrow> u8 list list) \<Rightarrow> bool \<Rightarrow> mdio_main option" where
  "mdio_boot B is5V chip pieces stub = do {
     x \<leftarrow> board_init B is5V chip pieces (sniffer_static []);
     mdio_start B pieces stub
       \<lparr>mm_bridge = bridge_init True mdio_init, mm_usb = sn_usb x, mm_led = sn_led x, mm_ticks = sn_ticks x\<rparr> }"

fun mdio_rounds ::
  "board \<Rightarrow> (u8 list \<Rightarrow> u8 list list) \<Rightarrow> bool \<Rightarrow> (u8 \<Rightarrow> u8) list \<Rightarrow> mdio_main \<Rightarrow> mdio_main option" where
  "mdio_rounds B pieces stub [] s = Some s"
| "mdio_rounds B pieces stub (regs # rs) s =
    (case mdio_round B pieces stub regs s of None \<Rightarrow> None | Some s \<Rightarrow> mdio_rounds B pieces stub rs s)"

subsection \<open>The output log only grows\<close>

definition grows :: "bridge \<Rightarrow> bridge \<Rightarrow> bool" where
  "grows s t \<longleftrightarrow> (\<exists>ls. b_out t = b_out s @ ls)"

lemma growsI [intro]: "b_out t = b_out s @ ls \<Longrightarrow> grows s t" and grows_same: "b_out t = b_out s \<Longrightarrow> grows s t"
  by (auto simp: grows_def)

lemma grows_trans: "grows s t \<Longrightarrow> grows t u \<Longrightarrow> grows s u"
  by (auto simp: grows_def)

lemma new_lines_grow: "grows s t \<Longrightarrow> b_out t = b_out s @ new_lines s t"
  by (auto simp: grows_def new_lines_def)

named_theorems out_log

lemma printf_out [out_log]: "b_out (printf l s) = b_out s @ [l]"
  by (simp add: printf_def)

lemma blink_out [out_log]: "b_out (blinkOk s) = b_out s" "b_out (blinkBad s) = b_out s"
  by (simp_all add: blinkOk_def blinkBad_def)

lemma start_out [out_log]: "startRead c s = (r, t) \<Longrightarrow> b_out t = b_out s" "startWrite c s = (r, t) \<Longrightarrow> b_out t = b_out s"
  by (auto simp: startRead_def startWrite_def Let_def split: prod.splits if_splits)

lemma emit_grows:
  "grows s (emitActiveResponse s)" "grows s (emitInvalid s)" "grows s (emitPrintBusy phy s)"
proof -
  show "grows s (emitActiveResponse s)" by (auto simp: emitActiveResponse_def Let_def grows_def out_log)
  show "grows s (emitInvalid s)" by (auto simp: emitInvalid_def grows_def out_log)
  have "grows s (fold (\<lambda>reg. printf (f reg)) rs s)" for f and rs :: "nat list"
  proof (induction rs arbitrary: s)
    case (Cons x xs)
    have "grows s (printf (f x) s)" by (rule growsI) (rule out_log)
    then show ?case using Cons grows_trans by fastforce
  qed (simp add: grows_same)
  then show "grows s (emitPrintBusy phy s)" unfolding emitPrintBusy_def .
qed

lemma pollResponse_grows: "grows s (pollResponse s)"
proof -
  have "grows s (pollAnswer s)" for s
    using emit_grows(1) [of s] by (auto simp: pollAnswer_def Let_def grows_def out_log)
  moreover have "grows s (pollPrint s)" for s
    by (auto simp: pollPrint_def grows_def out_log split: prod.splits)
  ultimately show ?thesis unfolding pollResponse_def by (rule grows_trans)
qed

lemma handlePrint_grows: "grows s (handlePrint c s)"
proof -
  let ?s = "blinkOk (s\<lparr>b_printActive := True, b_printAllOk := True, b_printPhy := c_phy c, b_printNextReg := 0\<rparr>)"
  obtain r t where st: "startRead (print_read ?s) ?s = (r, t)" by fastforce
  have t: "b_out t = b_out s" using start_out(1) [OF st] by (simp add: out_log)
  have "grows s (emitPrintBusy (c_phy c) s)" "grows (t\<lparr>b_printActive := False\<rparr>) (emitPrintBusy (c_phy c) (t\<lparr>b_printActive := False\<rparr>))"
    by (rule emit_grows)+
  then show ?thesis using t by (simp add: handlePrint_def Let_def st grows_def out_log)
qed

lemma handleLine_grows: "grows s (handleLine l s)"
  using emit_grows(2) [of s] handlePrint_grows [of s]
  by (auto simp: handleLine_def Let_def grows_def out_log split: prod.splits BridgeOp.splits)

lemma pushCommandByte_out: "pushCommandByte b s = (e, t) \<Longrightarrow> b_out t = b_out s"
  by (auto simp: pushCommandByte_def split: if_splits)

lemma commandByte_grows: "grows s (commandByte b s)"
proof -
  obtain e t where p: "pushCommandByte b s = (e, t)" by fastforce
  have "grows t (handleLine (take (b_lineLen t) (b_line t)) t)" "grows t (emitInvalid t)"
    by (rule handleLine_grows, rule emit_grows)
  then show ?thesis using pushCommandByte_out [OF p] p by (cases e) (simp_all add: commandByte_def grows_def)
qed

subsection \<open>The driver over USB\<close>

text \<open>The pieces of the lines printed since \<open>s\<close>, of each a prefix, are what the stream got.\<close>

definition line_pieces :: "(u8 list \<Rightarrow> u8 list list) \<Rightarrow> out_line list \<Rightarrow> u8 list list" where
  "line_pieces pieces ls = concat (map (\<lambda>l. pieces (line_bytes l)) ls)"

definition boot_pieces :: "board \<Rightarrow> u32 \<Rightarrow> (u8 list \<Rightarrow> u8 list list) \<Rightarrow> bool \<Rightarrow> u8 list list" where
  "boot_pieces B chip pieces stub = concat (map pieces (boot_banner (b_fcpu B) chip)) @ pieces (mdio_banner stub)"

definition printed :: "board \<Rightarrow> (u8 list \<Rightarrow> u8 list list) \<Rightarrow> bridge \<Rightarrow> bridge \<Rightarrow> usb \<Rightarrow> usb \<Rightarrow> bool" where
  "printed B pieces s t u v \<longleftrightarrow> grows s t \<and> (\<exists>ns. length ns = length (line_pieces pieces (new_lines s t))
     \<and> sent_on B u (concat (map2 take ns (line_pieces pieces (new_lines s t)))) v)"

lemma printed_refl: "b_out t = b_out s \<Longrightarrow> sent_on B u [] v \<Longrightarrow> printed B pieces s t u v"
  by (simp add: printed_def new_lines_def line_pieces_def grows_same)

lemma printed_trans:
  assumes "printed B pieces s t u v" "printed B pieces t x v w"
  shows "printed B pieces s x u w"
proof -
  obtain ns ms where g: "grows s t" "grows t x" and n: "length ns = length (line_pieces pieces (new_lines s t))"
    "sent_on B u (concat (map2 take ns (line_pieces pieces (new_lines s t)))) v"
    and m: "length ms = length (line_pieces pieces (new_lines t x))"
    "sent_on B v (concat (map2 take ms (line_pieces pieces (new_lines t x)))) w"
    using assms unfolding printed_def by blast
  have new: "new_lines s x = new_lines s t @ new_lines t x"
    using g by (auto simp: grows_def new_lines_def)
  have "line_pieces pieces (new_lines s x) = line_pieces pieces (new_lines s t) @ line_pieces pieces (new_lines t x)"
    by (simp add: new line_pieces_def)
  then show ?thesis
    unfolding printed_def using g grows_trans n m sent_trans [OF n(2) m(2)]
    by (intro conjI exI [of _ "ns @ ms"]) auto
qed

definition pieces_ok :: "(u8 list \<Rightarrow> u8 list list) \<Rightarrow> bool" where
  "pieces_ok pieces \<longleftrightarrow> (\<forall>l. list_all (\<lambda>p. length p < 2 ^ 32) (pieces l))"

lemma print_lines_spec:
  assumes "board_ok B" "pieces_ok pieces" "usb_inv B (snd w)" "grows s t"
  shows "\<exists>w'. print_lines B pieces (new_lines s t) w = Some w' \<and> usb_inv B (snd w')
    \<and> printed B pieces s t (snd w) (snd w')
    \<and> rx_same B (snd w) (snd w')"
proof -
  have "list_all (\<lambda>p. length p < 2 ^ 32) (line_pieces pieces (new_lines s t))"
    using assms(2) by (auto simp: pieces_ok_def line_pieces_def list_all_iff)
  from print_pieces_spec [OF assms(1) this assms(3)] show ?thesis
    using assms(4) unfolding print_lines_def line_pieces_def [symmetric] printed_def by blast
qed

lemma usb_read_stream: "usb_read n u = (xs, v) \<Longrightarrow> usb_stream v = usb_stream u"
  by (auto simp: usb_read_def usb_stream_def split: prod.splits)

lemma session_keeps:
  "rx_inv R K (u\<lparr>session_flag := x\<rparr>) = rx_inv R K u" "usb_stream (u\<lparr>session_flag := x\<rparr>) = usb_stream u"
  "rx_len K (u\<lparr>session_flag := x\<rparr>) = rx_len K u"
  by (simp_all add: rx_inv_def usb_ok_def usb_stream_def rx_len_def)

text \<open>One byte of the poll.\<close>

lemma poll_byte:
  assumes "board_ok B" "pieces_ok pieces" "usb_inv B (snd w)" "usb_available (snd w) \<noteq> 0"
  shows "\<exists>b u w'. usb_read 1 (snd w) = ([b], u) \<and> print_lines B pieces (new_lines s (commandByte b s)) (fst w, u) = Some w'
    \<and> usb_inv B (snd w') \<and> printed B pieces s (commandByte b s) (snd w) (snd w')
    \<and> (host_silent B \<longrightarrow> rx_len (b_K B) (snd w') < rx_len (b_K B) (snd w))"
proof -
  obtain b u where r: "usb_read 1 (snd w) = ([b], u)" "usb_inv B u"
    "Suc (rx_len (b_K B) u) = rx_len (b_K B) (snd w)"
    using read_one [OF assms(3,4)] by blast
  have inv: "usb_inv B (snd (fst w, u))" using r(2) by simp
  obtain w' where p: "print_lines B pieces (new_lines s (commandByte b s)) (fst w, u) = Some w'"
    "usb_inv B (snd w')" "printed B pieces s (commandByte b s) u (snd w')"
    "rx_same B u (snd w')"
    using print_lines_spec [OF assms(1,2) inv commandByte_grows [of s b]] by auto
  have "printed B pieces s (commandByte b s) (snd w) (snd w')"
    using printed_trans [OF printed_refl [OF refl sent_same] p(3)] usb_read_stream [OF r(1)] by simp
  then show ?thesis
    by (intro exI [of _ b] exI [of _ u] exI [of _ w'] conjI r(1) p(1,2) impI) (use r(3) rx_same_len [OF p(4)] in simp_all)
qed

lemma mdio_poll_spec:
  assumes "mdio_poll B pieces s w = Some (t, w')" "board_ok B" "pieces_ok pieces" "usb_inv B (snd w)"
  shows "\<exists>bytes. t = pollCommand bytes s \<and> usb_inv B (snd w') \<and> printed B pieces s t (snd w) (snd w')"
proof -
  define P where "P = (\<lambda>B pieces s (w :: nat \<times> usb) (r :: bridge \<times> nat \<times> usb). board_ok B \<longrightarrow> pieces_ok pieces \<longrightarrow> usb_inv B (snd w) \<longrightarrow>
    (\<exists>bytes. fst r = pollCommand bytes s \<and> usb_inv B (snd (snd r)) \<and> printed B pieces s (fst r) (snd w) (snd (snd r))))"
  have "P B pieces s w (t, w')"
  proof (rule mdio_poll.raw_induct [OF _ assms(1), where P = P])
    fix poll :: "board \<Rightarrow> (u8 list \<Rightarrow> u8 list list) \<Rightarrow> bridge \<Rightarrow> nat \<times> usb \<Rightarrow> (bridge \<times> nat \<times> usb) option"
      and B pieces s w r
    assume IH: "\<And>B pieces s w r. poll B pieces s w = Some r \<Longrightarrow> P B pieces s w r"
      and step: "(if usb_available (snd w) = 0 then Some (s, w)
         else let (xs, u) = usb_read 1 (snd w)
              in case xs of [] \<Rightarrow> Some (s, fst w, u)
                 | b # _ \<Rightarrow>
                     (case print_lines B pieces (new_lines s (commandByte b s)) (fst w, u) of
                        None \<Rightarrow> None | Some w \<Rightarrow> poll B pieces (commandByte b s) w)) = Some r"
    show "P B pieces s w r"
      unfolding P_def
    proof (intro impI)
      assume ok: "board_ok B" "pieces_ok pieces" "usb_inv B (snd w)"
      show "\<exists>bytes. fst r = pollCommand bytes s \<and> usb_inv B (snd (snd r)) \<and> printed B pieces s (fst r) (snd w) (snd (snd r))"
      proof (cases "usb_available (snd w) = 0")
        case True
        then have "r = (s, w)" using step by simp
        then show ?thesis using ok(3) printed_refl by (intro exI [of _ "[]"]) simp
      next
        case False
        obtain b u w1 where b: "usb_read 1 (snd w) = ([b], u)"
          "print_lines B pieces (new_lines s (commandByte b s)) (fst w, u) = Some w1" "usb_inv B (snd w1)"
          "printed B pieces s (commandByte b s) (snd w) (snd w1)"
          using poll_byte [OF ok False, of s] by blast
        have "poll B pieces (commandByte b s) w1 = Some r" using step False b(1,2) by simp
        then have "P B pieces (commandByte b s) w1 r" by (rule IH)
        then obtain bytes where "fst r = pollCommand bytes (commandByte b s)" "usb_inv B (snd (snd r))"
          "printed B pieces (commandByte b s) (fst r) (snd w1) (snd (snd r))"
          using ok(1,2) b(3) unfolding P_def by blast
        then show ?thesis using printed_trans [OF b(4)] by (intro exI [of _ "b # bytes"]) simp
      qed
    qed
  qed
  then show ?thesis using assms(2-4) by (simp add: P_def)
qed

lemma mdio_poll_ends:
  assumes "board_ok B" "pieces_ok pieces" "host_silent B"
  shows "usb_inv B (snd w) \<Longrightarrow> \<exists>r. mdio_poll B pieces s w = Some r"
proof (induction "rx_len (b_K B) (snd w)" arbitrary: s w rule: less_induct)
  case less
  show ?case
  proof (cases "usb_available (snd w) = 0")
    case True
    then show ?thesis by (subst mdio_poll.simps) simp
  next
    case False
    obtain b u w1 where b: "usb_read 1 (snd w) = ([b], u)"
      "print_lines B pieces (new_lines s (commandByte b s)) (fst w, u) = Some w1" "usb_inv B (snd w1)"
      "rx_len (b_K B) (snd w1) < rx_len (b_K B) (snd w)"
      using poll_byte [OF assms(1,2) less.prems False, of s] assms(3) by blast
    from less.hyps [OF b(4,3)] show ?thesis
      using False by (subst mdio_poll.simps) (simp add: b(1,2))
  qed
qed

text \<open>One round of the main loop.\<close>

lemma mdio_tick_front:
  assumes "board_ok B" "pieces_ok pieces" "usb_inv B (snd w)"
  shows "\<exists>started s1 w1. s1 = pollResponse (if started then resetCommandLine s else s) \<and> usb_inv B (snd w1)
    \<and> printed B pieces s s1 (snd w) (snd w1) \<and> mdio_tick B pieces s w = mdio_poll B pieces s1 w1"
proof -
  obtain started u where ss: "usb_sessionStarted (snd w) = (started, u)" by fastforce
  then have u: "usb_inv B u" "usb_stream u = usb_stream (snd w)"
    using assms(3) by (auto simp: usb_sessionStarted_def session_keeps)
  let ?s = "if started then resetCommandLine s else s"
  have inv: "usb_inv B (snd (fst w, u))" using u(1) by simp
  obtain w1 where p: "print_lines B pieces (new_lines ?s (pollResponse ?s)) (fst w, u) = Some w1"
    "usb_inv B (snd w1)" "printed B pieces ?s (pollResponse ?s) u (snd w1)"
    using print_lines_spec [OF assms(1,2) inv pollResponse_grows [of ?s]] by auto
  have "printed B pieces s ?s (snd w) u" by (rule printed_refl) (simp_all add: resetCommandLine_def sent_same u(2))
  from printed_trans [OF this p(3)] show ?thesis
    by (intro exI [of _ started] exI [of _ "pollResponse ?s"] exI [of _ w1])
      (simp only: mdio_tick_def ss Let_def prod.case p(1,2) bind.bind_lunit simp_thms)
qed

definition round_bridge :: "bool \<Rightarrow> u32 \<Rightarrow> (u8 \<Rightarrow> u8) \<Rightarrow> bridge \<Rightarrow> bridge" where
  "round_bridge stub now regs b = b\<lparr>b_mdio := master_tick stub now ((b_mdio b)\<lparr>dr := regs\<rparr>)\<rparr>"

definition round_tail :: "board \<Rightarrow> bridge \<Rightarrow> mdio_main \<Rightarrow> bridge \<times> nat \<times> usb \<Rightarrow> mdio_main option" where
  "round_tail B b s r =
    (case r of (t, w) \<Rightarrow> do {
     let led = queue_blinks (new_blinks b t) (mm_led s);
     (led, k, u) \<leftarrow> (if initialized led then do { (x, w) \<leftarrow> millis B w; Some (led_tick x led, w) } else Some (led, w));
     Some (s\<lparr>mm_bridge := t, mm_usb := u, mm_led := led, mm_ticks := k\<rparr>) })"

lemma mdio_round_front:
  assumes "board_ok B" "pieces_ok pieces" "usb_inv B (mm_usb s)"
  shows "\<exists>now started s1 w1.
    s1 = pollResponse (if started then resetCommandLine (round_bridge stub now regs (mm_bridge s))
                       else round_bridge stub now regs (mm_bridge s))
    \<and> usb_inv B (snd w1) \<and> printed B pieces (mm_bridge s) s1 (mm_usb s) (snd w1)
    \<and> mdio_round B pieces stub regs s
        = Option.bind (mdio_poll B pieces s1 w1) (round_tail B (round_bridge stub now regs (mm_bridge s)) s)"
proof -
  obtain u where m: "millis B (mm_ticks s, mm_usb s) = Some (b_ms B (mm_ticks s), mm_ticks s + 1, u)"
    "usb_inv B u" "sent_on B (mm_usb s) [] u"
    using millis_spec [OF assms(1,3)] by blast
  let ?now = "b_ms B (mm_ticks s)"
  obtain v where t: "usb_tick (b_K B) ?now u = Some v" "usb_inv B v" "sent_on B u [] v"
    using usb_tick_stream [OF assms(1) m(2)] by blast
  let ?b = "round_bridge stub ?now regs (mm_bridge s)"
  have inv: "usb_inv B (snd (mm_ticks s + 1, v))" using t(2) by simp
  obtain started s1 w1 where f: "s1 = pollResponse (if started then resetCommandLine ?b else ?b)"
    "usb_inv B (snd w1)" "printed B pieces ?b s1 v (snd w1)"
    "mdio_tick B pieces ?b (mm_ticks s + 1, v) = mdio_poll B pieces s1 w1"
    using mdio_tick_front [OF assms(1,2) inv, of ?b] by auto
  have "printed B pieces (mm_bridge s) ?b (mm_usb s) v"
    by (rule printed_refl) (use sent_trans [OF m(3) t(3)] in \<open>simp_all add: round_bridge_def\<close>)
  note pr = printed_trans [OF this f(3)]
  have eq: "mdio_round B pieces stub regs s = Option.bind (mdio_poll B pieces s1 w1) (round_tail B ?b s)"
    unfolding mdio_round_def m(1) t(1) bind.bind_lunit prod.case Let_def round_bridge_def [symmetric] f(4)
    by (rule arg_cong2 [where f = Option.bind]) (auto simp: round_tail_def Let_def fun_eq_iff)
  show ?thesis
    by (rule exI [of _ ?now], rule exI [of _ started], rule exI [of _ s1], rule exI [of _ w1]) (intro conjI f(1,2) pr eq)
qed

lemma round_tail_spec:
  assumes "board_ok B" "usb_inv B (snd w)"
  shows "\<exists>s'. round_tail B b s (t, w) = Some s' \<and> mm_bridge s' = t \<and> usb_inv B (mm_usb s')
    \<and> sent_on B (snd w) [] (mm_usb s')"
proof -
  obtain k v where w: "w = (k, v)" by fastforce
  have inv: "usb_inv B v" using assms(2) by (simp add: w)
  obtain u where m: "millis B (k, v) = Some (b_ms B k, k + 1, u)" "usb_inv B u" "sent_on B v [] u"
    using millis_spec [OF assms(1) inv] by blast
  show ?thesis
    using m(2,3) inv
    by (cases "initialized (queue_blinks (new_blinks b t) (mm_led s))")
      (simp_all add: round_tail_def Let_def w m(1) [simplified])
qed

lemma mdio_round_spec:
  assumes "board_ok B" "pieces_ok pieces" "usb_inv B (mm_usb s)" "mdio_round B pieces stub regs s = Some s'"
  shows "\<exists>now started bytes. mm_bridge s' = bridge_round stub now regs started bytes (mm_bridge s)
    \<and> usb_inv B (mm_usb s') \<and> printed B pieces (mm_bridge s) (mm_bridge s') (mm_usb s) (mm_usb s')"
proof -
  obtain now started s1 w1 where f:
    "s1 = pollResponse (if started then resetCommandLine (round_bridge stub now regs (mm_bridge s))
                        else round_bridge stub now regs (mm_bridge s))"
    "usb_inv B (snd w1)" "printed B pieces (mm_bridge s) s1 (mm_usb s) (snd w1)"
    "mdio_round B pieces stub regs s
      = Option.bind (mdio_poll B pieces s1 w1) (round_tail B (round_bridge stub now regs (mm_bridge s)) s)"
    using mdio_round_front [OF assms(1-3), of stub regs] by blast
  obtain t w2 where p: "mdio_poll B pieces s1 w1 = Some (t, w2)"
    using assms(4) f(4) by (cases "mdio_poll B pieces s1 w1") auto
  obtain bytes where b: "t = pollCommand bytes s1" "usb_inv B (snd w2)" "printed B pieces s1 t (snd w1) (snd w2)"
    using mdio_poll_spec [OF p assms(1,2) f(2)] by blast
  have tail: "round_tail B (round_bridge stub now regs (mm_bridge s)) s (t, w2) = Some s'"
    using assms(4) f(4) p by simp
  obtain s2 where "round_tail B (round_bridge stub now regs (mm_bridge s)) s (t, w2) = Some s2" "mm_bridge s2 = t"
    "usb_inv B (mm_usb s2)" "sent_on B (snd w2) [] (mm_usb s2)"
    using round_tail_spec [OF assms(1) b(2)] by blast
  with tail have s': "mm_bridge s' = t" "usb_inv B (mm_usb s')" "sent_on B (snd w2) [] (mm_usb s')"
    by simp_all
  have "printed B pieces (mm_bridge s) t (mm_usb s) (snd w2)" by (rule printed_trans [OF f(3) b(3)])
  from printed_trans [OF this printed_refl [OF refl s'(3)]]
  have "printed B pieces (mm_bridge s) (mm_bridge s') (mm_usb s) (mm_usb s')" unfolding s'(1) .
  moreover have "mm_bridge s' = bridge_round stub now regs started bytes (mm_bridge s)"
    unfolding s'(1) b(1) f(1) by (simp add: bridge_round_def bridge_tick_def round_bridge_def Let_def)
  ultimately show ?thesis using s'(2) by blast
qed

lemma mdio_round_ends:
  assumes "board_ok B" "pieces_ok pieces" "usb_inv B (mm_usb s)" "host_silent B"
  shows "\<exists>s'. mdio_round B pieces stub regs s = Some s'"
proof -
  obtain b s1 w1 where f: "usb_inv B (snd w1)"
    "mdio_round B pieces stub regs s = Option.bind (mdio_poll B pieces s1 w1) (round_tail B b s)"
    using mdio_round_front [OF assms(1-3), of stub regs] by blast
  obtain t w2 where p: "mdio_poll B pieces s1 w1 = Some (t, w2)"
    using mdio_poll_ends [OF assms(1,2,4) f(1), of s1] by auto
  have "usb_inv B (snd w2)" using mdio_poll_spec [OF p assms(1,2) f(1)] by blast
  then show ?thesis using round_tail_spec [OF assms(1), of w2 b s t] by (auto simp: f(2) p)
qed

lemma mdio_rounds_spec:
  assumes "board_ok B" "pieces_ok pieces"
  shows "usb_inv B (mm_usb s) \<Longrightarrow> mdio_rounds B pieces stub rs s = Some t \<Longrightarrow>
    \<exists>rounds. map (fst \<circ> snd) rounds = rs \<and> mm_bridge t = run_rounds stub rounds (mm_bridge s)
      \<and> usb_inv B (mm_usb t) \<and> printed B pieces (mm_bridge s) (mm_bridge t) (mm_usb s) (mm_usb t)"
proof (induction rs arbitrary: s)
  case Nil
  then show ?case using printed_refl by (intro exI [of _ "[]"]) simp
next
  case (Cons regs rs)
  obtain s1 where r: "mdio_round B pieces stub regs s = Some s1" "mdio_rounds B pieces stub rs s1 = Some t"
    using Cons.prems(2) by (auto split: option.splits)
  obtain now started bytes where b: "mm_bridge s1 = bridge_round stub now regs started bytes (mm_bridge s)"
    "usb_inv B (mm_usb s1)" "printed B pieces (mm_bridge s) (mm_bridge s1) (mm_usb s) (mm_usb s1)"
    using mdio_round_spec [OF assms Cons.prems(1) r(1)] by blast
  obtain rounds where i: "map (fst \<circ> snd) rounds = rs" "mm_bridge t = run_rounds stub rounds (mm_bridge s1)"
    "usb_inv B (mm_usb t)" "printed B pieces (mm_bridge s1) (mm_bridge t) (mm_usb s1) (mm_usb t)"
    using Cons.IH [OF b(2) r(2)] by blast
  show ?case
    using i b(1) printed_trans [OF b(3) i(4)]
    by (intro exI [of _ "(now, regs, started, bytes) # rounds"]) (simp add: comp_def)
qed

subsection \<open>Properties\<close>

lemma mdio_start_spec:
  assumes "board_ok B" "pieces_ok pieces" "usb_inv B (mm_usb s0)"
  shows "\<exists>s ms. mdio_start B pieces stub s0 = Some s \<and> usb_inv B (mm_usb s)
    \<and> mm_bridge s = (mm_bridge s0)\<lparr>b_mdio := master_begin stub (b_mdio (mm_bridge s0))\<rparr>
    \<and> length ms = length (pieces (mdio_banner stub))
    \<and> sent_on B (mm_usb s0) (concat (map2 take ms (pieces (mdio_banner stub)))) (mm_usb s)"
proof -
  have banner: "list_all (\<lambda>p. length p < 2 ^ 32) (pieces (mdio_banner stub))" using assms(2) by (simp add: pieces_ok_def)
  obtain ms w where "print_pieces B (pieces (mdio_banner stub)) (mm_ticks s0, mm_usb s0) = Some w" "usb_inv B (snd w)"
    "length ms = length (pieces (mdio_banner stub))"
    "sent_on B (mm_usb s0) (concat (map2 take ms (pieces (mdio_banner stub)))) (snd w)"
    using print_pieces_spec [OF assms(1) banner, of "(mm_ticks s0, mm_usb s0)"] assms(3) by auto
  then show ?thesis by (intro exI [of _ "s0\<lparr>mm_bridge := (mm_bridge s0)\<lparr>b_mdio := master_begin stub (b_mdio (mm_bridge s0))\<rparr>,
      mm_usb := snd w, mm_ticks := fst w\<rparr>"] exI [of _ ms]) (simp add: mdio_start_def)
qed

lemma mdio_boot_spec:
  assumes "board_ok B" "clock_is B f" "pieces_ok pieces"
  shows "\<exists>s ms. mdio_boot B is5V chip pieces stub = Some s \<and> usb_inv B (mm_usb s)
    \<and> mm_bridge s = bridge_init True (master_begin stub mdio_init)
    \<and> length ms = length (boot_pieces B chip pieces stub)
    \<and> sent_on B (usb_init (b_K B) is5V usb_static) (concat (map2 take ms (boot_pieces B chip pieces stub))) (mm_usb s)"
proof -
  have banner: "list_all (\<lambda>p. length p < 2 ^ 32) (concat (map pieces (boot_banner (b_fcpu B) chip)))"
    using assms(3) by (auto simp: pieces_ok_def list_all_iff)
  obtain x ns where x: "board_init B is5V chip pieces (sniffer_static []) = Some x" "usb_inv B (sn_usb x)"
    "length ns = length (concat (map pieces (boot_banner (b_fcpu B) chip)))"
    "sent_on B (usb_init (b_K B) is5V usb_static) (concat (map2 take ns (concat (map pieces (boot_banner (b_fcpu B) chip))))) (sn_usb x)"
    using board_init_spec [OF assms(1,2) banner, of is5V "[]"] by (auto simp: put_world_def)
  let ?s0 = "\<lparr>mm_bridge = bridge_init True mdio_init, mm_usb = sn_usb x, mm_led = sn_led x, mm_ticks = sn_ticks x\<rparr>"
  have "usb_inv B (mm_usb ?s0)" using x(2) by simp
  from mdio_start_spec [OF assms(1,3) this, of stub] obtain s ms where s: "mdio_start B pieces stub ?s0 = Some s"
    "usb_inv B (mm_usb s)" "mm_bridge s = (bridge_init True mdio_init)\<lparr>b_mdio := master_begin stub mdio_init\<rparr>"
    "length ms = length (pieces (mdio_banner stub))"
    "sent_on B (sn_usb x) (concat (map2 take ms (pieces (mdio_banner stub)))) (mm_usb s)"
    by (auto simp: bridge_init_def)
  have "mm_bridge s = bridge_init True (master_begin stub mdio_init)" unfolding s(3) by (simp add: bridge_init_def)
  then show ?thesis
    using s(1,2,4) x sent_trans [OF x(4) s(5)] by (intro exI [of _ s] exI [of _ "ns @ ms"]) (simp add: mdio_boot_def boot_pieces_def)
qed



end
