(* ===== verification/RleDiag.thy ===== *)
theory RleDiag
  imports RleService
begin

text \<open>
  The telemetry build of the run-length datapath (\<^verbatim>\<open>env:rle_sniffer\<close>: \<open>RUN_RLE_SNIFFER\<close> with \<open>DIAG\<close>):
  the timing of the drain interrupt, and the text block the service sends once per second.

  \<open>snprintf\<close> writes at most 173 characters and a NUL behind \<open>m[0]\<close> but returns the untruncated
  length, which indexes the closing byte: \<^const>\<open>None\<close> is a store outside \<open>m[176]\<close>.
\<close>

subsection \<open>Model\<close>

record rle_diag =
  dg_rle :: rle
  drnCyc :: u32
  drnMax :: u16
  svcSum :: u32
  lastT :: u32
  prevLoop :: u32
  prevPkts :: u32
  prevBytes :: u32
  prevShort :: u32

text \<open>The static object.\<close>

definition rle_diag_static :: "u8 list \<Rightarrow> rle_diag" where
  "rle_diag_static regs =
    \<lparr>dg_rle = rle_static regs, drnCyc = 0, drnMax = 0, svcSum = 0, lastT = 0, prevLoop = 0, prevPkts = 0, prevBytes = 0,
     prevShort = 0\<rparr>"

text \<open>The drain between two readings of the microsecond counter, which runs from 0 to 999.\<close>

definition diag_drain :: "u16 \<Rightarrow> u16 \<Rightarrow> rle_diag \<Rightarrow> rle_diag" where
  "diag_drain c0 c1 x =
    (let x = x\<lparr>dg_rle := drainPioc (dg_rle x)\<rparr>;
         d = (if c1 \<ge> c0 then c1 - c0 else 1000 + c1 - c0);
         x = x\<lparr>drnCyc := drnCyc x + ucast d\<rparr>
     in if d > drnMax x then x\<lparr>drnMax := d\<rparr> else x)"

definition recordTiming :: "u32 \<Rightarrow> rle_diag \<Rightarrow> rle_diag" where
  "recordTiming svcUs x = x\<lparr>svcSum := svcSum x + svcUs\<rparr>"

text \<open>One drain interrupt: the register file it finds and its two counter readings.\<close>

definition diag_isr :: "u8 list \<times> u16 \<times> u16 \<Rightarrow> rle_diag \<Rightarrow> rle_diag" where
  "diag_isr e x = (case e of (regs, c0, c1) \<Rightarrow> diag_drain c0 c1 (x\<lparr>dg_rle := (dg_rle x)\<lparr>DR := regs\<rparr>\<rparr>))"

record window_stats =
  tw_loopHz :: u32
  tw_pktHz :: u32
  tw_shortHz :: u32
  tw_usbBps :: u32
  tw_avgSvc :: u32
  tw_drnPct :: u32
  tw_drnMax :: u16
  tw_rhi :: u16
  tw_mg :: u8
  tw_ovf :: u16
  tw_txf :: u16
  tw_rdrop :: u32

definition per_sec :: "u32 \<Rightarrow> u32 \<Rightarrow> u32" where
  "per_sec n dt = n * 1000 div dt"

definition tele_window :: "u32 \<Rightarrow> rle_diag \<Rightarrow> usb \<Rightarrow> window_stats" where
  "tele_window nowMs x u =
    (let r = dg_rle x; dt = nowMs - lastT x; dt = (if dt = 0 then 1 else dt);
         loops = loopCalls r - prevLoop x; loops = (if loops = 0 then 1 else loops)
     in \<lparr>tw_loopHz = per_sec (loopCalls r - prevLoop x) dt, tw_pktHz = per_sec (txPkts u - prevPkts x) dt,
         tw_shortHz = per_sec (shortPkts u - prevShort x) dt, tw_usbBps = per_sec (txBytes u - prevBytes x) dt,
         tw_avgSvc = svcSum x div loops,
         tw_drnPct = ucast ((ucast (drnCyc x) * 100 :: 64 word) div (ucast dt * 1000)), tw_drnMax = drnMax x,
         tw_rhi = ramHi r, tw_mg = maxGap r, tw_ovf = rle_ovfPioc r,
         tw_txf = (if txMinFree r = 0xFFFF then ucast (usb_writeSpace u) else txMinFree r), tw_rdrop = ramDrop r\<rparr>)"

definition tele_clear :: "u32 \<Rightarrow> rle_diag \<Rightarrow> usb \<Rightarrow> rle_diag" where
  "tele_clear nowMs x u =
    x\<lparr>lastT := nowMs, prevLoop := loopCalls (dg_rle x), prevPkts := txPkts u, prevBytes := txBytes u,
      prevShort := shortPkts u, svcSum := 0, drnCyc := 0, drnMax := 0,
      dg_rle := (dg_rle x)\<lparr>ramHi := 0, ramDrop := 0, maxGap := 0, rle_ovfPioc := 0, txMinFree := 0xFFFF\<rparr>\<rparr>"

definition dec :: "'a :: len word \<Rightarrow> u8 list" where
  "dec w = dec_digits (unat w)"

definition tele_line :: "u32 \<Rightarrow> window_stats \<Rightarrow> u8 list" where
  "tele_line nowMs T =
    map of_char ''[T t='' @ dec nowMs @ map of_char '' loopHz='' @ dec (tw_loopHz T)
    @ map of_char '' pktHz='' @ dec (tw_pktHz T) @ map of_char '' shortHz='' @ dec (tw_shortHz T)
    @ map of_char '' usbB='' @ dec (tw_usbBps T) @ map of_char '' svcUs='' @ dec (tw_avgSvc T)
    @ map of_char '' drnCpu='' @ dec (tw_drnPct T) @ map of_char ''% drnMax='' @ dec (tw_drnMax T)
    @ map of_char '' ramHi='' @ dec (tw_rhi T) @ map of_char '' maxGap='' @ dec (tw_mg T)
    @ map of_char ''/'' @ dec RING_SLOTS @ map of_char '' ovf='' @ dec (tw_ovf T)
    @ map of_char '' txFree='' @ dec (tw_txf T) @ map of_char '' drop='' @ dec (tw_rdrop T) @ map of_char '']''"

text \<open>The first \<open>k + 2\<close> bytes of \<open>m\<close>; bytes of \<open>m\<close> nobody wrote are zero here and never among them.\<close>

definition tele_block :: "u8 list \<Rightarrow> u8 list option" where
  "tele_block line =
    (let k = length line; m = 0xFE # take 173 line @ [0]; m = m @ replicate (176 - length m) 0
     in if 1 + k < 176 then Some (take (k + 2) (m[1 + k := 0xFE])) else None)"

text \<open>\<open>irqs\<close> are the drain interrupts between the loss check of this call and the critical section.\<close>

definition rle_telemetry :: "(u8 list \<times> u16 \<times> u16) list \<Rightarrow> u32 \<Rightarrow> rle_diag \<Rightarrow> usb \<Rightarrow> (rle_diag \<times> usb) option" where
  "rle_telemetry irqs nowMs x u =
    (if nowMs - lastT x \<ge> 1000 then
       let x = fold diag_isr irqs x; T = tele_window nowMs x u
       in do {
         m \<leftarrow> tele_block (tele_line nowMs T);
         Some (tele_clear nowMs x u, if length m \<le> unat (usb_writeSpace u) then snd (usb_write m u) else u) }
     else Some (x, u))"

definition rle_service_diag ::
  "sdk \<Rightarrow> int \<Rightarrow> (u8 list \<times> u16 \<times> u16) list \<Rightarrow> u32 \<Rightarrow> rle_diag \<Rightarrow> usb \<Rightarrow> (rle_diag \<times> usb) option" where
  "rle_service_diag K kbps irqs nowMs x u =
    (let r = dg_rle x; r = r\<lparr>loopCalls := loopCalls r + 1\<rparr>;
         wfree = (ucast (usb_writeSpace u) :: u16);
         avail = (if wfree > 160 then wfree - 160 else 0)
     in do {
       (r, saw, u) \<leftarrow> drain_upto K (CAP_IDLE_K kbps) avail r u;
       let f = ucast (usb_writeSpace u);
       let r = (if f < txMinFree r then r\<lparr>txMinFree := f\<rparr> else r);
       let (r, u) = service_loss r u;
       let (r, u) = service_idle nowMs saw r u;
       rle_telemetry irqs nowMs (x\<lparr>dg_rle := r\<rparr>) u })"

subsection \<open>The length of the line\<close>

lemma dec_digits_lower: "0 < n \<Longrightarrow> 10 ^ (length (dec_digits n) - 1) \<le> n"
proof (induction n rule: dec_digits.induct)
  case (1 n)
  show ?case
  proof (cases "n < 10")
    case True
    then show ?thesis using "1.prems" by (simp add: dec_digits.simps [of n])
  next
    case False
    then have pos: "0 < n div 10" by simp
    have ne: "dec_digits (n div 10) \<noteq> []" by (simp add: dec_digits.simps [of "n div 10"])
    have "10 ^ (length (dec_digits n) - 1) = 10 * 10 ^ (length (dec_digits (n div 10)) - 1)"
      using False ne by (cases "dec_digits (n div 10)") (simp_all add: dec_digits.simps [of n])
    also have "\<dots> \<le> 10 * (n div 10)" using "1.IH" [OF False pos] by simp
    finally show ?thesis by simp
  qed
qed

text \<open>Two numbers whose product has 32 bits share eleven digits.\<close>

lemma dec_digits_pair:
  assumes "p * q < 2 ^ 32" "p < 2 ^ 32" "q < 2 ^ 32"
  shows "length (dec_digits p) + length (dec_digits q) \<le> 11"
proof (cases "p = 0 \<or> q = 0")
  case True
  have "length (dec_digits p) \<le> 10" "length (dec_digits q) \<le> 10"
    using assms(2,3) by (auto intro: dec_digits_len)
  then show ?thesis using True by (auto simp: dec_digits.simps [of 0])
next
  case False
  let ?a = "length (dec_digits p) - 1" and ?b = "length (dec_digits q) - 1"
  have "10 ^ (?a + ?b) \<le> p * q"
    using False dec_digits_lower [of p] dec_digits_lower [of q] by (simp add: power_add mult_le_mono)
  also have "\<dots> < 10 ^ 10" using assms(1) by simp
  finally have "?a + ?b < 10" by (rule power_less_imp_less_exp [rotated]) simp
  then show ?thesis by simp
qed

lemma dec_len: "unat w < 10 ^ k \<Longrightarrow> 0 < k \<Longrightarrow> length (dec w) \<le> k"
  unfolding dec_def by (rule dec_digits_len)

lemma per_sec_le:
  assumes "1000 \<le> dt"
  shows "unat (per_sec n dt) \<le> unat n" "unat (per_sec n dt) < 10 ^ 7"
proof -
  have dt: "1000 \<le> unat dt" using assms by (simp add: word_le_nat_alt)
  have v: "unat (per_sec n dt) = unat (n * 1000) div unat dt" by (simp add: per_sec_def unat_div)
  have le: "unat (per_sec n dt) \<le> unat (n * 1000) div 1000" unfolding v by (rule div_le_mono2) (use dt in simp_all)
  have "unat (n * 1000) \<le> unat n * 1000" by (simp add: unat_word_ariths)
  then show "unat (per_sec n dt) \<le> unat n" using le by linarith
  show "unat (per_sec n dt) < 10 ^ 7" using le unat_u32_lt [of "n * 1000"] by simp
qed

definition diag_ok :: "rle_diag \<Rightarrow> bool" where
  "diag_ok x \<longleftrightarrow> ramHi (dg_rle x) \<le> 2047 \<and> drnMax x < 1000
     \<and> (txMinFree (dg_rle x) \<le> 512 \<or> txMinFree (dg_rle x) = 0xFFFF)"

definition irq_readings :: "(u8 list \<times> u16 \<times> u16) list \<Rightarrow> bool" where
  "irq_readings irqs \<longleftrightarrow> (\<forall>(regs, c0, c1) \<in> set irqs. c0 < 1000 \<and> c1 < 1000)"

lemma window_bounds:
  assumes "nowMs - lastT x \<ge> 1000" "diag_ok x" "unat (usb_writeSpace u) \<le> 512" "T = tele_window nowMs x u"
  shows "length (dec (tw_loopHz T)) + length (dec (tw_avgSvc T)) \<le> 11"
    "unat (tw_pktHz T) < 10 ^ 7" "unat (tw_shortHz T) < 10 ^ 7" "unat (tw_usbBps T) < 10 ^ 7"
    "unat (tw_drnPct T) < 10 ^ 6" "unat (tw_drnMax T) < 10 ^ 3" "unat (tw_rhi T) < 10 ^ 4" "unat (tw_txf T) < 10 ^ 3"
proof -
  let ?dt = "nowMs - lastT x" and ?L = "loopCalls (dg_rle x) - prevLoop x" and ?S = "svcSum x"
  have dt: "1000 \<le> unat ?dt" "(if ?dt = 0 then 1 else ?dt) = ?dt"
    using assms(1) by (auto simp: word_le_nat_alt)
  let ?l = "if ?L = 0 then 1 else ?L"
  have T: "tw_loopHz T = per_sec ?L ?dt" "tw_avgSvc T = ?S div ?l"
    "tw_pktHz T = per_sec (txPkts u - prevPkts x) ?dt" "tw_shortHz T = per_sec (shortPkts u - prevShort x) ?dt"
    "tw_usbBps T = per_sec (txBytes u - prevBytes x) ?dt"
    "tw_drnPct T = ucast ((ucast (drnCyc x) * 100 :: 64 word) div (ucast ?dt * 1000))" "tw_drnMax T = drnMax x"
    "tw_rhi T = ramHi (dg_rle x)"
    "tw_txf T = (if txMinFree (dg_rle x) = 0xFFFF then ucast (usb_writeSpace u) else txMinFree (dg_rle x))"
    unfolding assms(4) tele_window_def Let_def dt(2) by simp_all
  have "unat (per_sec ?L ?dt) * unat (?S div ?l) \<le> unat ?L * (unat ?S div unat ?l)"
    unfolding unat_div by (rule mult_le_mono1 [OF per_sec_le(1) [OF assms(1)]])
  also have "\<dots> \<le> unat ?S" by (cases "?L = 0") simp_all
  also have "\<dots> < 2 ^ 32" using unat_u32_lt [of ?S] by simp
  finally have "unat (per_sec ?L ?dt) * unat (?S div ?l) < 2 ^ 32" .
  then show "length (dec (tw_loopHz T)) + length (dec (tw_avgSvc T)) \<le> 11"
    unfolding T dec_def by (rule dec_digits_pair) (use unat_u32_lt in simp_all)
  show "unat (tw_pktHz T) < 10 ^ 7" "unat (tw_shortHz T) < 10 ^ 7" "unat (tw_usbBps T) < 10 ^ 7"
    unfolding T by (rule per_sec_le(2) [OF assms(1)])+
  have "unat (ucast (drnCyc x) * 100 :: 64 word) = unat (drnCyc x) * 100" "unat (ucast ?dt * 1000 :: 64 word) = unat ?dt * 1000"
    using unat_u32_lt [of "drnCyc x"] unat_u32_lt [of ?dt] by (simp_all add: unat_word_ariths unsigned_ucast_eq take_bit_eq_mod)
  then have "unat ((ucast (drnCyc x) * 100 :: 64 word) div (ucast ?dt * 1000)) = unat (drnCyc x) * 100 div (unat ?dt * 1000)"
    unfolding unat_div by simp
  also have "\<dots> \<le> unat (drnCyc x) * 100 div 1000000" by (rule div_le_mono2) (use dt in simp_all)
  also have "\<dots> < 10 ^ 6" using unat_u32_lt [of "drnCyc x"] by simp
  finally have "unat ((ucast (drnCyc x) * 100 :: 64 word) div (ucast ?dt * 1000)) < 10 ^ 6" .
  then show "unat (tw_drnPct T) < 10 ^ 6" unfolding T by (simp add: unsigned_ucast_eq take_bit_eq_mod)
  show "unat (tw_drnMax T) < 10 ^ 3" "unat (tw_rhi T) < 10 ^ 4"
    using assms(2) unfolding T diag_ok_def by (simp_all add: word_less_nat_alt word_le_nat_alt)
  show "unat (tw_txf T) < 10 ^ 3"
    using assms(2,3) unfolding T diag_ok_def by (auto simp: word_le_nat_alt unsigned_ucast_eq take_bit_eq_mod)
qed

lemma tele_line_len:
  assumes "nowMs - lastT x \<ge> 1000" "diag_ok x" "unat (usb_writeSpace u) \<le> 512"
  shows "length (tele_line nowMs (tele_window nowMs x u)) \<le> 173"
proof -
  let ?T = "tele_window nowMs x u"
  note b = window_bounds [OF assms refl]
  have "length (dec nowMs) \<le> 10" "length (dec (tw_rdrop ?T)) \<le> 10"
    using unat_u32_lt [of nowMs] unat_u32_lt [of "tw_rdrop ?T"] by (auto intro!: dec_len)
  moreover have "length (dec (tw_pktHz ?T)) \<le> 7" "length (dec (tw_shortHz ?T)) \<le> 7" "length (dec (tw_usbBps ?T)) \<le> 7"
    "length (dec (tw_drnPct ?T)) \<le> 6" "length (dec (tw_drnMax ?T)) \<le> 3" "length (dec (tw_rhi ?T)) \<le> 4"
    "length (dec (tw_txf ?T)) \<le> 3"
    by (rule dec_len; (rule b)?; simp)+
  moreover have "length (dec (tw_mg ?T)) \<le> 3" "length (dec (tw_ovf ?T)) \<le> 5" "length (dec RING_SLOTS) \<le> 2"
    using unat_lt [of "tw_mg ?T"] unat_lt [of "tw_ovf ?T"] by (auto intro!: dec_len simp: RING_SLOTS_def)
  ultimately show ?thesis using b(1) unfolding tele_line_def length_append length_map by simp
qed

lemma tele_line_text: "printable (tele_line nowMs T)" "tele_line nowMs T \<noteq> []" "hd (tele_line nowMs T) = 0x5B"
proof -
  show "printable (tele_line nowMs T)"
    unfolding tele_line_def printable_append dec_def by (intro conjI dec_digits_printable) (simp_all add: printable_def)
  show "tele_line nowMs T \<noteq> []" "hd (tele_line nowMs T) = 0x5B" by (simp_all add: tele_line_def)
qed

lemma tele_block_fits: "length line \<le> 173 \<Longrightarrow> tele_block line = Some (0xFE # line @ [0xFE])"
  by (simp add: tele_block_def Let_def list_update_append nth_append)

lemma tele_block_iff: "tele_block line = None \<longleftrightarrow> 174 < length line"
  by (auto simp: tele_block_def Let_def)

subsection \<open>Interrupts and service\<close>

lemma let_step: "(\<And>x. x = a \<Longrightarrow> P (f x)) \<Longrightarrow> P (Let a f)"
  by (simp add: Let_def)

lemma and_RING_MASK_le: "x AND RING_MASK \<le> 2047"
  using unat_and_RING_MASK [of x] by (simp add: word_le_nat_alt)

lemma drain_copy_diag:
  "lossSeen (drain_copy raw gap slot r) = lossSeen r \<and> txMinFree (drain_copy raw gap slot r) = txMinFree r
    \<and> (ramHi r \<le> 2047 \<longrightarrow> ramHi (drain_copy raw gap slot r) \<le> 2047)"
  (is "?P (drain_copy raw gap slot r)")
  unfolding drain_copy_def by (rule let_step [where P = ?P])+ (simp add: and_RING_MASK_le)

lemma drainPioc_diag:
  "lossSeen (drainPioc r) = lossSeen r \<and> txMinFree (drainPioc r) = txMinFree r
    \<and> (ramHi r \<le> 2047 \<longrightarrow> ramHi (drainPioc r) \<le> 2047)"
proof -
  obtain r' gap slot where d: "drain_resync (DR r ! RING_HEAD) r = (r', gap, slot)"
    by (cases "drain_resync (DR r ! RING_HEAD) r") blast
  have "lossSeen r' = lossSeen r \<and> txMinFree r' = txMinFree r \<and> ramHi r' = ramHi r"
    using d unfolding drain_resync_def Let_def by (auto split: if_splits)
  then show ?thesis unfolding drainPioc_def Let_def d prod.case using drain_copy_diag by metis
qed

lemma reading_lt:
  assumes "c0 < 1000" "c1 < 1000"
  shows "(if c1 \<ge> c0 then c1 - c0 else 1000 + c1 - c0 :: u16) < 1000"
proof (cases "c0 \<le> c1")
  case True
  then have "c1 - c0 \<le> c1" by (simp add: word_sub_le)
  then show ?thesis using True assms(2) by simp
next
  case False
  then have lt: "unat c1 < unat c0" "unat c0 < 1000" using assms(1) by (simp_all add: word_less_nat_alt not_le)
  have "unat (1000 + c1) = 1000 + unat c1" using lt by (simp add: unat_word_ariths)
  moreover from this have "c0 \<le> 1000 + c1" using lt by (simp add: word_le_nat_alt)
  ultimately have "unat (1000 + c1 - c0) = 1000 + unat c1 - unat c0" by (simp add: unat_sub)
  then show ?thesis using False lt by (simp add: word_less_nat_alt)
qed

lemma diag_isr_ok:
  assumes "diag_ok x" "case e of (regs, c0, c1) \<Rightarrow> c0 < 1000 \<and> c1 < 1000"
  shows "diag_ok (diag_isr e x)" "lossSeen (dg_rle (diag_isr e x)) = lossSeen (dg_rle x)" "lastT (diag_isr e x) = lastT x"
proof -
  obtain regs c0 c1 where e: "e = (regs, c0, c1)" by (cases e)
  let ?d = "if c1 \<ge> c0 then c1 - c0 else 1000 + c1 - c0"
  have c: "?d < 1000" using reading_lt assms(2) unfolding e prod.case by blast
  note k = drainPioc_diag [of "(dg_rle x)\<lparr>DR := regs\<rparr>"]
  have r: "dg_rle (diag_isr e x) = drainPioc ((dg_rle x)\<lparr>DR := regs\<rparr>)"
    "drnMax (diag_isr e x) = (if ?d > drnMax x then ?d else drnMax x)" "lastT (diag_isr e x) = lastT x"
    by (simp_all add: diag_isr_def e diag_drain_def Let_def)
  show "lossSeen (dg_rle (diag_isr e x)) = lossSeen (dg_rle x)" "lastT (diag_isr e x) = lastT x"
    unfolding r using k by simp_all
  have "(if d > m then d else m) < 1000" if "d < 1000" "m < 1000" for d m :: u16 using that by simp
  from this [OF c] have "drnMax (diag_isr e x) < 1000" unfolding r(2) using assms(1) by (simp only: diag_ok_def)
  then show "diag_ok (diag_isr e x)" using k assms(1) unfolding diag_ok_def r(1) by simp
qed

lemma diag_isrs_ok:
  "diag_ok x \<Longrightarrow> irq_readings irqs \<Longrightarrow> diag_ok (fold diag_isr irqs x)
    \<and> lossSeen (dg_rle (fold diag_isr irqs x)) = lossSeen (dg_rle x) \<and> lastT (fold diag_isr irqs x) = lastT x"
proof (induction irqs arbitrary: x)
  case (Cons e irqs)
  then have e: "case e of (regs, c0, c1) \<Rightarrow> c0 < 1000 \<and> c1 < 1000" and irqs: "irq_readings irqs"
    by (auto simp: irq_readings_def)
  note s = diag_isr_ok [OF Cons.prems(1) e]
  show ?case using Cons.IH [OF s(1) irqs] s(2,3) by simp
qed simp

lemma writeSpace_le: "rx_inv R K u \<Longrightarrow> unat (usb_writeSpace u) \<le> 512"
  using ring_free_unat [of "tx_ring u"] by (simp add: rx_inv_def usb_ok_def ring_wf_def usb_writeSpace_def kTxCapacity_def)

lemma rle_telemetry_spec:
  assumes "rx_inv R K u" "diag_ok x" "irq_readings irqs"
  shows "\<exists>tele x' u'. rle_telemetry irqs nowMs x u = Some (x', u') \<and> rx_inv R K u' \<and> diag_ok x'
    \<and> usb_stream u' = usb_stream u @ tele
    \<and> (tele = [] \<or> (\<exists>line. tele = 0xFE # line @ [0xFE] \<and> printable line \<and> line \<noteq> [] \<and> hd line = 0x5B \<and> length line \<le> 173))
    \<and> (if nowMs - lastT x \<ge> 1000 then ramDrop (dg_rle x') = 0 \<and> lossSeen (dg_rle x') = lossSeen (dg_rle x) \<and> lastT x' = nowMs
       else x' = x \<and> tele = [])"
proof (cases "nowMs - lastT x \<ge> 1000")
  case False
  then show ?thesis using assms by (intro exI [of _ "[]"] exI [of _ x] exI [of _ u]) (simp add: rle_telemetry_def)
next
  case True
  let ?y = "fold diag_isr irqs x"
  let ?line = "tele_line nowMs (tele_window nowMs ?y u)"
  note y = diag_isrs_ok [OF assms(2,3)]
  have due: "nowMs - lastT ?y \<ge> 1000" "diag_ok ?y" using True y by simp_all
  have len: "length ?line \<le> 173" by (rule tele_line_len [OF due writeSpace_le [OF assms(1)]])
  let ?m = "0xFE # ?line @ [0xFE]"
  obtain n v where w: "usb_write ?m u = (n, v)" by fastforce
  have "length ?m < 2 ^ 32" using len by simp
  note s = usb_write_stream [OF assms(1) w this]
  let ?u = "if length ?m \<le> unat (usb_writeSpace u) then v else u"
  have run: "rle_telemetry irqs nowMs x u = Some (tele_clear nowMs ?y u, ?u)"
    unfolding rle_telemetry_def if_P [OF True] Let_def tele_block_fits [OF len] bind.bind_lunit w snd_conv ..
  have str: "usb_stream ?u = usb_stream u @ (if length ?m \<le> unat (usb_writeSpace u) then ?m else [])"
  proof (cases "length ?m \<le> unat (usb_writeSpace u)")
    case True
    then have "take (unat n) ?m = ?m" unfolding s(3) by (simp only: min_absorb1 take_all order_refl)
    then show ?thesis using s(1) True by simp
  qed simp
  have inv: "rx_inv R K ?u" using s(2) assms(1) by simp
  have ok: "diag_ok (tele_clear nowMs ?y u)" by (simp add: diag_ok_def tele_clear_def)
  have clear: "ramDrop (dg_rle (tele_clear nowMs ?y u)) = 0" "lossSeen (dg_rle (tele_clear nowMs ?y u)) = lossSeen (dg_rle x)"
    "lastT (tele_clear nowMs ?y u) = nowMs"
    using y by (simp_all add: tele_clear_def)
  have "(if length ?m \<le> unat (usb_writeSpace u) then ?m else []) = [] \<or> (\<exists>line. (if length ?m \<le> unat (usb_writeSpace u) then ?m else [])
      = 0xFE # line @ [0xFE] \<and> printable line \<and> line \<noteq> [] \<and> hd line = 0x5B \<and> length line \<le> 173)"
    using tele_line_text len by auto
  then show ?thesis
    using run str inv ok clear True by (intro exI [of _ "if length ?m \<le> unat (usb_writeSpace u) then ?m else []"]
      exI [of _ "tele_clear nowMs ?y u"] exI [of _ ?u] conjI) simp_all
qed

text \<open>The part of a call before the telemetry.\<close>

lemma service_diag_front:
  assumes "sdk_ok K" "irq_ok K" "rx_inv R K u" "diag_ok x"
  shows "\<exists>m loss sep r4 u4. rle_service_diag K kbps irqs nowMs x u = rle_telemetry irqs nowMs (x\<lparr>dg_rle := r4\<rparr>) u4
    \<and> rx_inv R K u4 \<and> diag_ok (x\<lparr>dg_rle := r4\<rparr>) \<and> m \<le> 192
    \<and> usb_stream u4 = usb_stream u @ squelch_out (CAP_IDLE_K kbps) (take m (rle_list (dg_rle x))) (dg_rle x) @ loss @ sep
    \<and> loss \<in> {[], [0xFD]} \<and> (loss \<noteq> [] \<longrightarrow> ramDrop (dg_rle x) \<noteq> lossSeen (dg_rle x)) \<and> sep \<in> {[], [0xFF]}
    \<and> lossSeen r4 = (if loss \<noteq> [] then ramDrop (dg_rle x) else lossSeen (dg_rle x))"
proof -
  define r0 where "r0 = dg_rle x"
  let ?k = "CAP_IDLE_K kbps"
  let ?r = "r0\<lparr>loopCalls := loopCalls r0 + 1\<rparr>" and ?w = "ucast (usb_writeSpace u) :: u16"
  define avail where "avail = (if ?w > 160 then ?w - 160 else 0)"
  have frame: "rle_list ?r = rle_list r0" "squelch_of ?r = squelch_of r0"
    by (simp_all add: rle_list_def rle_ringCount_def squelch_of_def)
  obtain m q' r1 u1 where d: "drain_upto K ?k avail ?r u = Some (r1, sq_saw q', u1)" "rx_inv R K u1"
    "usb_stream u1 = usb_stream u @ squelch_out ?k (take m (rle_list r0)) r0"
    "r1 = ?r\<lparr>capRun := sq_run q', capPiped := sq_piped q', rle_sniffActive := sq_active q',
            rle_tail := rle_tail ?r + of_nat m\<rparr>" "m \<le> 192"
    "q' = snd (squelch_list ?k (take m (rle_list r0)) (squelch_of r0))"
    using drain_upto_spec [OF assms(1-3), of ?k avail ?r] unfolding frame squelch_out_def by auto
  define f where "f = (ucast (usb_writeSpace u1) :: u16)"
  have f: "f \<le> 512" using writeSpace_le [OF d(2)] by (simp add: f_def word_le_nat_alt unsigned_ucast_eq take_bit_eq_mod)
  define r2 where "r2 = (if f < txMinFree r1 then r1\<lparr>txMinFree := f\<rparr> else r1)"
  obtain r3 u3 where l: "service_loss r2 u1 = (r3, u3)" by fastforce
  obtain r4 u4 where i: "service_idle nowMs (sq_saw q') r3 u3 = (r4, u4)" by fastforce
  obtain loss where loss: "rx_inv R K u3" "usb_stream u3 = usb_stream u1 @ loss" "loss \<in> {[], [0xFD]}"
    "loss \<noteq> [] \<longrightarrow> ramDrop r2 \<noteq> lossSeen r2"
    "r3 = r2\<lparr>lossSeen := if loss \<noteq> [] then ramDrop r2 else lossSeen r2\<rparr>"
    using service_loss_spec [OF d(2) l] by blast
  obtain sep ms where sep: "rx_inv R K u4" "usb_stream u4 = usb_stream u3 @ sep" "sep \<in> {[], [0xFF]}"
    "r4 = r3\<lparr>rle_sniffLastMs := ms, rle_sniffActive := rle_sniffActive r4\<rparr>"
    using service_idle_spec [OF loss(1) i] by blast
  have run: "rle_service_diag K kbps irqs nowMs x u = rle_telemetry irqs nowMs (x\<lparr>dg_rle := r4\<rparr>) u4"
    unfolding rle_service_diag_def Let_def r0_def [symmetric] avail_def [symmetric] d(1) bind.bind_lunit prod.case f_def [symmetric] r2_def [symmetric] l i ..
  have two: "ramDrop r2 = ramDrop r0" "lossSeen r2 = lossSeen r0" "ramHi r2 = ramHi r0"
    "txMinFree r2 = (if f < txMinFree r0 then f else txMinFree r0)"
    unfolding r2_def d(4) by simp_all
  have four: "ramHi r4 = ramHi r0" "txMinFree r4 = txMinFree r2"
    "lossSeen r4 = (if loss \<noteq> [] then ramDrop r0 else lossSeen r0)"
    by (subst sep(4), simp add: loss(5) two)+
  have "diag_ok (x\<lparr>dg_rle := r4\<rparr>)"
    using assms(4) [folded r0_def] f by (simp add: diag_ok_def r0_def [symmetric] four two)
  then show ?thesis
    unfolding r0_def [symmetric]
    using run d(3,5) loss(2,3,4) sep(1-3) four(3) two by (intro exI [of _ m] exI [of _ loss] exI [of _ sep] exI [of _ r4] exI [of _ u4]) simp
qed

subsection \<open>Properties\<close>

text \<open>
  C31. The telemetry build keeps its buffer. A service call never fails: it puts the squelched prefix of
  the RAM ring, at most one loss marker, at most one boundary and at most one whole telemetry block on the
  stream, the last only a second or more after the one before. The block's line has at most 173
  characters whatever the counters hold, which is exactly what the 176-byte buffer has room for: with
  loopHz and svcUs, whose product is bounded by the summed service time, sharing eleven digits.
\<close>

theorem telemetry_fits:
  assumes "sdk_ok K" and "irq_ok K" and "rx_inv R K u" and "diag_ok x" and "irq_readings irqs"
  shows "\<exists>m loss sep tele x' u'. rle_service_diag K kbps irqs nowMs x u = Some (x', u') \<and> rx_inv R K u' \<and> diag_ok x'
    \<and> usb_stream u' = usb_stream u @ squelch_out (CAP_IDLE_K kbps) (take m (rle_list (dg_rle x))) (dg_rle x) @ loss @ sep @ tele
    \<and> loss \<in> {[], [0xFD]} \<and> (loss \<noteq> [] \<longrightarrow> ramDrop (dg_rle x) \<noteq> lossSeen (dg_rle x)) \<and> sep \<in> {[], [0xFF]}
    \<and> (tele = [] \<or> 1000 \<le> nowMs - lastT x \<and> lastT x' = nowMs
        \<and> (\<exists>line. tele = 0xFE # line @ [0xFE] \<and> printable line \<and> hd line = 0x5B \<and> length line \<le> 173))"
proof -
  obtain m loss sep r4 u4 where f: "rle_service_diag K kbps irqs nowMs x u = rle_telemetry irqs nowMs (x\<lparr>dg_rle := r4\<rparr>) u4"
    "rx_inv R K u4" "diag_ok (x\<lparr>dg_rle := r4\<rparr>)"
    "usb_stream u4 = usb_stream u @ squelch_out (CAP_IDLE_K kbps) (take m (rle_list (dg_rle x))) (dg_rle x) @ loss @ sep"
    "loss \<in> {[], [0xFD]}" "loss \<noteq> [] \<longrightarrow> ramDrop (dg_rle x) \<noteq> lossSeen (dg_rle x)" "sep \<in> {[], [0xFF]}"
    using service_diag_front [OF assms(1-4)] by blast
  obtain tele x' u' where t: "rle_telemetry irqs nowMs (x\<lparr>dg_rle := r4\<rparr>) u4 = Some (x', u')" "rx_inv R K u'" "diag_ok x'"
    "usb_stream u' = usb_stream u4 @ tele"
    "tele = [] \<or> (\<exists>line. tele = 0xFE # line @ [0xFE] \<and> printable line \<and> line \<noteq> [] \<and> hd line = 0x5B \<and> length line \<le> 173)"
    "if nowMs - lastT x \<ge> 1000 then ramDrop (dg_rle x') = 0 \<and> lossSeen (dg_rle x') = lossSeen r4 \<and> lastT x' = nowMs
     else x' = x\<lparr>dg_rle := r4\<rparr> \<and> tele = []"
    using rle_telemetry_spec [OF f(2,3) assms(5), of nowMs] by auto
  have "tele = [] \<or> 1000 \<le> nowMs - lastT x \<and> lastT x' = nowMs
        \<and> (\<exists>line. tele = 0xFE # line @ [0xFE] \<and> printable line \<and> hd line = 0x5B \<and> length line \<le> 173)"
    using t(5,6) by (auto split: if_splits)
  then show ?thesis
    using f t(1-4) by (intro exI [of _ m] exI [of _ loss] exI [of _ sep] exI [of _ tele] exI [of _ x'] exI [of _ u']) simp
qed

lemma diag_static_ok: "diag_ok (rle_diag_static regs)"
  by (simp add: diag_ok_def rle_diag_static_def rle_static_def)

theorem telemetry_fits_witness:
  "\<exists>x' u'. rle_service_diag wch 5 [(replicate 64 0, 998, 3)] 1500 (rle_diag_static (replicate 64 0)) ((busReset wch usb_static)\<lparr>INT_FG := 0\<rparr>)
     = Some (x', u') \<and> diag_ok x'"
proof -
  have i: "irq_readings [(replicate 64 0, 998, 3)]" by (simp add: irq_readings_def)
  show ?thesis
    using telemetry_fits [OF wch_ok wch_irq_ok reset_rx_inv(1) [OF wch_ok usb_static_ok] diag_static_ok i] by blast
qed

text \<open>
  C32. The telemetry unmarks losses. When every loss so far has been reported and the second is over, the
  call sends no loss marker, clears the counter and leaves the watermark: whatever the drain interrupts
  lost between the loss check and the critical section is forgotten, and the next call owes a marker
  exactly if some earlier loss had been reported. So a loss can pass unmarked, and a lossless second can
  end with a false marker.
\<close>

theorem telemetry_unmarks_loss:
  assumes "sdk_ok K" and "irq_ok K" and "rx_inv R K u" and "diag_ok x" and "irq_readings irqs"
    and "ramDrop (dg_rle x) = lossSeen (dg_rle x)" and "1000 \<le> nowMs - lastT x"
  shows "\<exists>m sep tele x' u'. rle_service_diag K kbps irqs nowMs x u = Some (x', u')
    \<and> usb_stream u' = usb_stream u @ squelch_out (CAP_IDLE_K kbps) (take m (rle_list (dg_rle x))) (dg_rle x) @ sep @ tele
    \<and> sep \<in> {[], [0xFF]} \<and> 0xFD \<notin> set tele
    \<and> ramDrop (dg_rle x') = 0 \<and> (ramDrop (dg_rle x') \<noteq> lossSeen (dg_rle x') \<longleftrightarrow> lossSeen (dg_rle x) \<noteq> 0)"
proof -
  obtain m loss sep r4 u4 where f: "rle_service_diag K kbps irqs nowMs x u = rle_telemetry irqs nowMs (x\<lparr>dg_rle := r4\<rparr>) u4"
    "rx_inv R K u4" "diag_ok (x\<lparr>dg_rle := r4\<rparr>)"
    "usb_stream u4 = usb_stream u @ squelch_out (CAP_IDLE_K kbps) (take m (rle_list (dg_rle x))) (dg_rle x) @ loss @ sep"
    "loss \<noteq> [] \<longrightarrow> ramDrop (dg_rle x) \<noteq> lossSeen (dg_rle x)" "sep \<in> {[], [0xFF]}"
    "lossSeen r4 = (if loss \<noteq> [] then ramDrop (dg_rle x) else lossSeen (dg_rle x))"
    using service_diag_front [OF assms(1-4)] by blast
  have loss: "loss = []" using f(5) assms(6) by blast
  obtain tele x' u' where t: "rle_telemetry irqs nowMs (x\<lparr>dg_rle := r4\<rparr>) u4 = Some (x', u')" "usb_stream u' = usb_stream u4 @ tele"
    "tele = [] \<or> (\<exists>line. tele = 0xFE # line @ [0xFE] \<and> printable line \<and> line \<noteq> [] \<and> hd line = 0x5B \<and> length line \<le> 173)"
    "ramDrop (dg_rle x') = 0" "lossSeen (dg_rle x') = lossSeen r4"
    using rle_telemetry_spec [OF f(2,3) assms(5), of nowMs] assms(7) by auto
  have "0xFD \<notin> set line" if "printable line" for line using that unfolding printable_def by fastforce
  then have "0xFD \<notin> set tele" using t(3) by auto
  then show ?thesis
    using f(1,4,6,7) t(1,2,4,5) loss
    by (intro exI [of _ m] exI [of _ sep] exI [of _ tele] exI [of _ x'] exI [of _ u']) auto
qed

theorem telemetry_unmarks_loss_witness:
  "\<exists>x' u'. rle_service_diag wch 5 [(replicate 64 0, 998, 3)] 1500
        ((rle_diag_static (replicate 64 0))\<lparr>dg_rle := (rle_static (replicate 64 0))\<lparr>ramDrop := 7, lossSeen := 7\<rparr>\<rparr>)
        ((busReset wch usb_static)\<lparr>INT_FG := 0\<rparr>) = Some (x', u')
     \<and> ramDrop (dg_rle x') \<noteq> lossSeen (dg_rle x')"
proof -
  let ?x = "(rle_diag_static (replicate 64 0))\<lparr>dg_rle := (rle_static (replicate 64 0))\<lparr>ramDrop := 7, lossSeen := 7\<rparr>\<rparr>"
  have i: "irq_readings [(replicate 64 0, 998, 3)]" by (simp add: irq_readings_def)
  have x: "diag_ok ?x" "ramDrop (dg_rle ?x) = lossSeen (dg_rle ?x)" "1000 \<le> 1500 - lastT ?x" "lossSeen (dg_rle ?x) \<noteq> 0"
    by (simp_all add: diag_ok_def rle_diag_static_def rle_static_def)
  show ?thesis
    using telemetry_unmarks_loss [OF wch_ok wch_irq_ok reset_rx_inv(1) [OF wch_ok usb_static_ok] x(1) i x(2,3)] x(4) by blast
qed

end
