(* ===== verification/ClockedDiag.thy ===== *)
theory ClockedDiag
  imports RleDiag ClockedService
begin

text \<open>
  The telemetry build of the clocked datapath (\<^verbatim>\<open>env:clocked_sniffer\<close>: \<open>RUN_CLOCKED_SNIFFER\<close> with
  \<open>DIAG\<close>): the counters of one second, and the text block the service stages into the RAM ring between
  two records. The sums of the reported losses live in the datapath's own state.
\<close>

subsection \<open>Model\<close>

record clk_diag =
  cd_clk :: clk
  cd_loopCalls :: u32
  cd_ramHi :: u16
  cd_txMinFree :: u16
  cd_lastT :: u32
  cd_prevLoop :: u32
  cd_prevPkts :: u32
  cd_prevBytes :: u32
  cd_prevShort :: u32

definition clk_diag_static :: "u8 list \<Rightarrow> clk_diag" where
  "clk_diag_static regs =
    \<lparr>cd_clk = clk_static regs, cd_loopCalls = 0, cd_ramHi = 0, cd_txMinFree = 0xFFFF, cd_lastT = 0, cd_prevLoop = 0,
     cd_prevPkts = 0, cd_prevBytes = 0, cd_prevShort = 0\<rparr>"

definition clk_tele_line :: "u32 \<Rightarrow> clk_diag \<Rightarrow> usb \<Rightarrow> u8 list" where
  "clk_tele_line nowMs x u =
    (let dt = nowMs - cd_lastT x; dt = (if dt = 0 then 1 else dt);
         txf = (if cd_txMinFree x = 0xFFFF then ucast (usb_writeSpace u) else cd_txMinFree x)
     in map of_char ''[T t='' @ dec nowMs
        @ map of_char '' loopHz='' @ dec (per_sec (cd_loopCalls x - cd_prevLoop x) dt)
        @ map of_char '' pktHz='' @ dec (per_sec (txPkts u - cd_prevPkts x) dt)
        @ map of_char '' shortHz='' @ dec (per_sec (shortPkts u - cd_prevShort x) dt)
        @ map of_char '' usbB='' @ dec (per_sec (txBytes u - cd_prevBytes x) dt)
        @ map of_char '' ovfPioc='' @ dec (diagOvfPioc (cd_clk x)) @ map of_char '' ovfRam='' @ dec (diagOvfRam (cd_clk x))
        @ map of_char '' ramHi='' @ dec (cd_ramHi x) @ map of_char '' txFree='' @ dec txf @ map of_char '']'')"

definition clk_tele_clear :: "u32 \<Rightarrow> clk_diag \<Rightarrow> usb \<Rightarrow> clk_diag" where
  "clk_tele_clear nowMs x u =
    x\<lparr>cd_lastT := nowMs, cd_prevLoop := cd_loopCalls x, cd_prevPkts := txPkts u, cd_prevBytes := txBytes u,
      cd_prevShort := shortPkts u, cd_ramHi := 0, cd_txMinFree := 0xFFFF,
      cd_clk := (cd_clk x)\<lparr>diagOvfPioc := 0, diagOvfRam := 0\<rparr>\<rparr>"

definition clk_telemetry :: "u32 \<Rightarrow> clk_diag \<Rightarrow> usb \<Rightarrow> clk_diag option" where
  "clk_telemetry nowMs x u =
    (let fill = clk_ringCount (cd_clk x); x = (if fill > cd_ramHi x then x\<lparr>cd_ramHi := fill\<rparr> else x);
         f = ucast (usb_writeSpace u); x = (if f < cd_txMinFree x then x\<lparr>cd_txMinFree := f\<rparr> else x)
     in if nowMs - cd_lastT x \<ge> 1000 then
          let ascii = take 159 (clk_tele_line nowMs x u); x = clk_tele_clear nowMs x u in do {
            (w, out) \<leftarrow> frameMeta (Some ascii) (replicate 163 0);
            Some (if w \<noteq> 0 \<and> unat (clk_ringSpace (cd_clk x)) \<ge> w then x\<lparr>cd_clk := clk_ringPush (take w out) (cd_clk x)\<rparr> else x) }
        else Some x)"

definition clk_service_diag ::
  "sdk \<Rightarrow> pioc_sdk \<Rightarrow> (nat \<Rightarrow> u32) \<Rightarrow> u32 \<Rightarrow> clk_diag \<Rightarrow> usb \<Rightarrow> (clk_diag \<times> usb) option" where
  "clk_service_diag K P us nowMs x u = do {
     let x = x\<lparr>cd_loopCalls := cd_loopCalls x + 1\<rparr>;
     (c, u) \<leftarrow> clk_service K P us nowMs (cd_clk x) u;
     x \<leftarrow> clk_telemetry nowMs (x\<lparr>cd_clk := c\<rparr>) u;
     Some (x, u) }"

subsection \<open>The block\<close>

lemma clk_tele_line_len:
  assumes "nowMs - cd_lastT x \<ge> 1000"
  shows "length (clk_tele_line nowMs x u) \<le> 136"
proof -
  let ?dt = "nowMs - cd_lastT x" and ?c = "cd_clk x"
  have dt: "(if ?dt = 0 then 1 else ?dt) = ?dt" using assms by auto
  have "length (dec w) \<le> 10" for w :: u32 using unat_u32_lt [of w] by (intro dec_len) simp_all
  note ten = this [of nowMs] this [of "diagOvfPioc ?c"] this [of "diagOvfRam ?c"]
  have seven: "length (dec (per_sec n ?dt)) \<le> 7" for n by (rule dec_len [OF per_sec_le(2) [OF assms]]) simp
  have five: "length (dec w) \<le> 5" for w :: u16 using unat_lt [of w] by (intro dec_len) simp_all
  show ?thesis
    using ten seven [of "cd_loopCalls x - cd_prevLoop x"] seven [of "txPkts u - cd_prevPkts x"]
      seven [of "shortPkts u - cd_prevShort x"] seven [of "txBytes u - cd_prevBytes x"] five [of "cd_ramHi x"]
      five [of "if cd_txMinFree x = 0xFFFF then ucast (usb_writeSpace u) else cd_txMinFree x"]
    unfolding clk_tele_line_def Let_def dt length_append length_map by simp
qed

lemma clk_tele_line_text:
  "printable (clk_tele_line nowMs x u)" "clk_tele_line nowMs x u \<noteq> []" "hd (clk_tele_line nowMs x u) = 0x5B"
proof -
  show "printable (clk_tele_line nowMs x u)"
    unfolding clk_tele_line_def Let_def printable_append dec_def
    by (intro conjI dec_digits_printable) (simp_all add: printable_def)
  show "clk_tele_line nowMs x u \<noteq> []" "hd (clk_tele_line nowMs x u) = 0x5B" by (simp_all add: clk_tele_line_def Let_def)
qed

lemma clk_telemetry_spec:
  assumes "clk_ok (cd_clk x)"
  shows "\<exists>meta x'. clk_telemetry nowMs x u = Some x' \<and> clk_ok (cd_clk x')
    \<and> ring_list (clk_ring (cd_clk x')) = ring_list (clk_ring (cd_clk x)) @ concat (map emit meta)
    \<and> (meta = [] \<or> 1000 \<le> nowMs - cd_lastT x \<and> cd_lastT x' = nowMs
        \<and> (\<exists>line. meta = [FMeta (Some line)] \<and> printable line \<and> line \<noteq> [] \<and> hd line = 0x5B \<and> length line \<le> 136))
    \<and> clk_ovfPioc (cd_clk x') = clk_ovfPioc (cd_clk x) \<and> clk_ovfRam (cd_clk x') = clk_ovfRam (cd_clk x)
    \<and> open_bytes (cd_clk x') = open_bytes (cd_clk x)"
proof -
  define x1 where "x1 = (let fill = clk_ringCount (cd_clk x) in if fill > cd_ramHi x then x\<lparr>cd_ramHi := fill\<rparr> else x)"
  define y where "y = (let f = ucast (usb_writeSpace u) in if f < cd_txMinFree x1 then x1\<lparr>cd_txMinFree := f\<rparr> else x1)"
  have y: "cd_clk y = cd_clk x" "cd_lastT y = cd_lastT x" by (simp_all add: y_def x1_def Let_def)
  let ?line = "clk_tele_line nowMs y u" and ?z = "clk_tele_clear nowMs y u"
  have run: "clk_telemetry nowMs x u = (if nowMs - cd_lastT x \<ge> 1000 then do {
      (w, out) \<leftarrow> frameMeta (Some (take 159 ?line)) (replicate 163 0);
      Some (if w \<noteq> 0 \<and> unat (clk_ringSpace (cd_clk ?z)) \<ge> w then ?z\<lparr>cd_clk := clk_ringPush (take w out) (cd_clk ?z)\<rparr> else ?z) }
    else Some y)"
    unfolding clk_telemetry_def Let_def x1_def [unfolded Let_def, symmetric] y_def [unfolded Let_def, symmetric] y(2) ..
  show ?thesis
  proof (cases "nowMs - cd_lastT x \<ge> 1000")
    case False
    then show ?thesis using run assms y by (intro exI [of _ "[]"] exI [of _ y]) simp
  next
    case True
    have len: "length ?line \<le> 136" by (rule clk_tele_line_len) (use True y(2) in simp)
    have whole: "take 159 ?line = ?line" using len by simp
    have fit: "length ?line + 3 \<le> length (replicate 163 (0 :: u8))" using len by simp
    let ?e = "emit (FMeta (Some ?line))"
    have e: "?e = 0xFE # ?line @ [0xFE, 0xFF]" using clk_tele_line_text [of nowMs y u] by (simp add: emit_meta del: emit.simps)
    have fm: "frameMeta (Some (take 159 ?line)) (replicate 163 0) = Some (length ?e, ?e @ drop (length ?e) (replicate 163 0))"
      unfolding whole frameMeta_bytes [OF clk_tele_line_text fit] e by simp
    have z: "cd_clk ?z = (cd_clk x)\<lparr>diagOvfPioc := 0, diagOvfRam := 0\<rparr>" "cd_lastT ?z = nowMs"
      by (simp_all add: clk_tele_clear_def y)
    have wf: "ring_wf (clk_ring (cd_clk ?z))" "ring_len (clk_ring (cd_clk ?z)) = 2048" using assms by (simp_all add: z clk_ok_def)
    have "length ?e < 2 ^ 32" unfolding e using len by simp
    from clk_stage_block [OF wf this] obtain r where
      r: "(if unat (clk_ringSpace (cd_clk ?z)) \<ge> length ?e then clk_ringPush ?e (cd_clk ?z) else cd_clk ?z) = (cd_clk ?z)\<lparr>clk_ring := r\<rparr>"
      "ring_wf r" "ring_len r = 2048"
      "ring_list r = ring_list (clk_ring (cd_clk ?z)) @ ?e \<or> ring_list r = ring_list (clk_ring (cd_clk ?z))" by blast
    have "length ?e \<noteq> 0" unfolding e by simp
    then have "clk_telemetry nowMs x u
        = Some (?z\<lparr>cd_clk := if unat (clk_ringSpace (cd_clk ?z)) \<ge> length ?e then clk_ringPush ?e (cd_clk ?z) else cd_clk ?z\<rparr>)"
      unfolding run if_P [OF True] fm bind.bind_lunit prod.case by simp
    then have t: "clk_telemetry nowMs x u = Some (?z\<lparr>cd_clk := (cd_clk ?z)\<lparr>clk_ring := r\<rparr>\<rparr>)" unfolding r(1) .
    let ?x = "?z\<lparr>cd_clk := (cd_clk ?z)\<lparr>clk_ring := r\<rparr>\<rparr>"
    have c: "clk_ok (cd_clk ?x)" "clk_ovfPioc (cd_clk ?x) = clk_ovfPioc (cd_clk x)" "clk_ovfRam (cd_clk ?x) = clk_ovfRam (cd_clk x)"
      "open_bytes (cd_clk ?x) = open_bytes (cd_clk x)" "cd_lastT ?x = nowMs"
      using assms r(2,3) z by (simp_all add: clk_ok_def open_bytes_def)
    let ?meta = "if ring_list r = ring_list (clk_ring (cd_clk x)) then [] else [FMeta (Some ?line)]"
    have l: "ring_list (clk_ring (cd_clk ?x)) = ring_list (clk_ring (cd_clk x)) @ concat (map emit ?meta)"
      using r(4) by (auto simp: z simp del: emit.simps)
    show ?thesis
      using t c l True len clk_tele_line_text [of nowMs y u]
      by (intro exI [of _ ?meta] exI [of _ ?x] conjI) simp_all
  qed
qed

subsection \<open>The property\<close>

text \<open>
  C33. The telemetry build of the clocked datapath tears no record. A service call does what the product's
  does, and then stages at most one telemetry block, whole and behind the records of the call, a second
  or more after the one before; its line is never cut by the 160-byte buffer and its frame never leaves
  the 163 bytes, whatever the counters hold. The loss counts owed to the host are untouched.
\<close>

theorem clocked_telemetry_whole:
  assumes "sdk_ok K" and "irq_ok K" and "rx_inv R K u" and "clk_ok (cd_clk x)" and "clk_fifo w (cd_clk x)"
    and "clk_sniffTail (cd_clk x) = of_nat C" and "C \<le> length w" and "length w - C < 256"
  shows "\<exists>mode recs tail meta x' u'. clk_service_diag K P us nowMs x u = Some (x', u') \<and> rx_inv R K u' \<and> clk_ok (cd_clk x')
    \<and> mode \<in> {[], [FMeta (Some CLK_MARKER)]}
    \<and> usb_stream u' @ ring_list (clk_ring (cd_clk x'))
        = usb_stream u @ ring_list (clk_ring (cd_clk x)) @ concat (map emit (mode @ map fst (filter snd recs) @ meta))
    \<and> open_bytes (cd_clk x) @ drop (length w - min (length w - C) 16) w @ tail
        = concat (map (payload_of \<circ> fst) recs) @ open_bytes (cd_clk x')
    \<and> flags_ok (clk_ovfPioc (cd_clk x) + (if length w - C > 16 then 1 else 0), clk_ovfRam (cd_clk x)) recs
        (clk_ovfPioc (cd_clk x'), clk_ovfRam (cd_clk x'))
    \<and> (meta = [] \<or> 1000 \<le> nowMs - cd_lastT x \<and> cd_lastT x' = nowMs
        \<and> (\<exists>line. meta = [FMeta (Some line)] \<and> printable line \<and> hd line = 0x5B \<and> length line \<le> 136))"
proof -
  obtain mode recs tail c' u' where c: "clk_service K P us nowMs (cd_clk x) u = Some (c', u')" "rx_inv R K u'" "clk_ok c'"
    "mode \<in> {[], [FMeta (Some CLK_MARKER)]}"
    "usb_stream u' @ ring_list (clk_ring c')
        = usb_stream u @ ring_list (clk_ring (cd_clk x)) @ concat (map emit (mode @ map fst (filter snd recs)))"
    "open_bytes (cd_clk x) @ drop (length w - min (length w - C) 16) w @ tail = concat (map (payload_of \<circ> fst) recs) @ open_bytes c'"
    "flags_ok (clk_ovfPioc (cd_clk x) + (if length w - C > 16 then 1 else 0), clk_ovfRam (cd_clk x)) recs
        (clk_ovfPioc c', clk_ovfRam c')"
    using clocked_service_facts [OF assms, of P us nowMs] by blast
  let ?x = "x\<lparr>cd_loopCalls := cd_loopCalls x + 1, cd_clk := c'\<rparr>"
  have "clk_ok (cd_clk ?x)" using c(3) by simp
  from clk_telemetry_spec [OF this, of nowMs u'] obtain meta x' where t: "clk_telemetry nowMs ?x u' = Some x'" "clk_ok (cd_clk x')"
    "ring_list (clk_ring (cd_clk x')) = ring_list (clk_ring c') @ concat (map emit meta)"
    "meta = [] \<or> 1000 \<le> nowMs - cd_lastT x \<and> cd_lastT x' = nowMs
        \<and> (\<exists>line. meta = [FMeta (Some line)] \<and> printable line \<and> line \<noteq> [] \<and> hd line = 0x5B \<and> length line \<le> 136)"
    "clk_ovfPioc (cd_clk x') = clk_ovfPioc c'" "clk_ovfRam (cd_clk x') = clk_ovfRam c'" "open_bytes (cd_clk x') = open_bytes c'"
    by (auto simp del: emit.simps)
  have run: "clk_service_diag K P us nowMs x u = Some (x', u')"
    using c(1) t(1) by (simp add: clk_service_diag_def)
  have f1: "usb_stream u' @ ring_list (clk_ring (cd_clk x'))
      = usb_stream u @ ring_list (clk_ring (cd_clk x)) @ concat (map emit (mode @ map fst (filter snd recs) @ meta))"
    using c(5) t(3) by (simp del: emit.simps)
  have f2: "meta = [] \<or> 1000 \<le> nowMs - cd_lastT x \<and> cd_lastT x' = nowMs
        \<and> (\<exists>line. meta = [FMeta (Some line)] \<and> printable line \<and> hd line = 0x5B \<and> length line \<le> 136)"
    using t(4) by blast
  show ?thesis
    by (rule exI [of _ mode], rule exI [of _ recs], rule exI [of _ tail], rule exI [of _ meta], rule exI [of _ x'], rule exI [of _ u'])
      (use run c(2,4,6,7) t(2,5-7) f1 f2 in simp)
qed

theorem clocked_telemetry_whole_witness:
  "let u = (busReset wch usb_static)\<lparr>INT_FG := 0\<rparr>; x = clk_diag_static (replicate 64 0);
       P = \<lparr>RB_MST_RESET = 2, RB_MST_IO_EN0 = 4, RB_MST_IO_EN1 = 8, RB_MST_CLK_GATE = 1\<rparr> in
   \<exists>x' u'. clk_service_diag wch P (\<lambda>_. 0) 1500 x u = Some (x', u') \<and> clk_ok (cd_clk x')"
proof -
  let ?u = "(busReset wch usb_static)\<lparr>INT_FG := 0\<rparr>" and ?x = "clk_diag_static (replicate 64 0)"
  have inv: "rx_inv False wch ?u" by (rule reset_rx_inv(1) [OF wch_ok usb_static_ok])
  have x: "clk_ok (cd_clk ?x)" "clk_fifo [] (cd_clk ?x)" "clk_sniffTail (cd_clk ?x) = of_nat 0"
    using clk_static_ok(1,2) by (simp_all add: clk_diag_static_def) (simp add: clk_static_def)
  have zero: "0 \<le> length ([] :: u8 list)" "length ([] :: u8 list) - 0 < 256" by simp_all
  show ?thesis
    using clocked_telemetry_whole [OF wch_ok wch_irq_ok inv x zero,
        of "\<lparr>RB_MST_RESET = 2, RB_MST_IO_EN0 = 4, RB_MST_IO_EN1 = 8, RB_MST_CLK_GATE = 1\<rparr>" "\<lambda>_. 0" 1500]
    unfolding Let_def by (elim exE conjE) (intro exI conjI, assumption+)
qed

end
