(* ===== verification/TickBench.thy ===== *)
theory TickBench
  imports Boot
begin

text \<open>
  The bench build \<open>RUN_RLE_TICK_TEST\<close>: \<^verbatim>\<open>src/sniffer/rle_tick_test.cpp\<close>, which measures how many CPU
  cycles the capture loop takes per tick from the run-bytes of a line held at one level, and its main
  program \<^verbatim>\<open>src/main_tick_test.cpp\<close>. In this build the run-length sniffer only fills its RAM ring; the
  bench drains it. The pin set-up is outside the model, \<open>tb_pin\<close> is the level driven on PA7.
\<close>

subsection \<open>State\<close>

definition CAP_TICKS :: u32 where "CAP_TICKS = 128"
definition PHASE_MS :: u32 where "PHASE_MS = 2000"

record bench =
  tb_rle :: rle
  tb_pin :: bool
  measuringHigh :: bool
  capCount :: u32
  partial_runs :: u32
  windowStartUs :: u32
  phaseUntilMs :: u32
  tb_reads :: nat

definition bench_static :: "u8 list \<Rightarrow> bench" where
  "bench_static regs =
    \<lparr>tb_rle = rle_static regs, tb_pin = False, measuringHigh = True, capCount = 0, partial_runs = 0,
     windowStartUs = 0, phaseUntilMs = 0, tb_reads = 0\<rparr>"

text \<open>The \<open>k\<close>-th reading of \<open>Time::micros()\<close>, and a line through \<open>printf\<close>.\<close>

definition bench_micros :: "board \<Rightarrow> bench \<Rightarrow> u32 \<times> bench" where
  "bench_micros B b = (b_us B (tb_reads b), b\<lparr>tb_reads := tb_reads b + 1\<rparr>)"

definition print_line :: "board \<Rightarrow> (u8 list \<Rightarrow> u8 list list) \<Rightarrow> u8 list \<Rightarrow> nat \<times> usb \<Rightarrow> (nat \<times> usb) option" where
  "print_line B pieces l w = print_pieces B (pieces l) w"

text \<open>\<open>RleSniffer::begin\<close> in this build, which sends no mode block.\<close>

definition rle_begin_bench :: "pioc_sdk \<Rightarrow> u32 \<Rightarrow> rle \<Rightarrow> rle" where
  "rle_begin_bench P nowMs r =
    (let r = rle_loadBlob P r;
         r = r\<lparr>rle_sniffTail := 0, rle_sniffSlot := 0, rle_sniffLastMs := nowMs, rle_sniffActive := False,
               rle_head := 0, rle_tail := 0, rle_ovfRam := 0, rle_ovfPioc := 0, ramDrop := 0, lossSeen := 0,
               ramHi := 0, maxGap := 0, txMinFree := 0xFFFF, capRun := 0, capPiped := False, drain_armed := True\<rparr>
     in startDrainTimer r)"

subsection \<open>Operations\<close>

definition enterPhase :: "board \<Rightarrow> bool \<Rightarrow> bench \<Rightarrow> bench" where
  "enterPhase B high b =
    (let (t, b) = bench_micros B (b\<lparr>measuringHigh := high, tb_pin := high, capCount := 0, partial_runs := 0\<rparr>)
     in b\<lparr>windowStartUs := t\<rparr>)"

definition bench_hello :: "u32 \<Rightarrow> u8 list" where
  "bench_hello fcpu =
    map of_char ''[RLE-TICK] start: jumper PA7 -> PC19. Constant-level cap timing, Fcpu=''
    @ dec_digits (unat fcpu) @ map of_char '' Hz, cap='' @ dec_digits (unat CAP_TICKS)
    @ map of_char '' ticks, '' @ dec_digits (unat PHASE_MS) @ map of_char '' ms/level.'' @ [0x0D, 0x0A]"

definition bench_begin ::
  "board \<Rightarrow> (u8 list \<Rightarrow> u8 list list) \<Rightarrow> u32 \<Rightarrow> bench \<Rightarrow> nat \<times> usb \<Rightarrow> (bench \<times> nat \<times> usb) option" where
  "bench_begin B pieces nowMs b w =
    (let b = b\<lparr>tb_rle := rle_begin_bench (b_P B) nowMs (tb_rle b)\<rparr> in
     do {
       w \<leftarrow> print_line B pieces (bench_hello (b_fcpu B)) w;
       Some ((enterPhase B True b)\<lparr>phaseUntilMs := nowMs + PHASE_MS\<rparr>, w) })"

text \<open>The measured period, in thousandths of a cycle, rounded, and what rounding left.\<close>

definition tick_x1000 :: "u32 \<Rightarrow> u32 \<Rightarrow> u32 \<Rightarrow> u32" where
  "tick_x1000 fcpu elapsedUs caps =
    (let cycPerUs = fcpu div 1000000; cycles = (ucast elapsedUs * ucast cycPerUs :: 64 word)
     in ucast (cycles * 1000 div (ucast CAP_TICKS * ucast caps)))"

definition tick_int :: "u32 \<Rightarrow> u32" where
  "tick_int x = (x + 500) div 1000"

definition tick_resid :: "u32 \<Rightarrow> u32" where
  "tick_resid x = x - tick_int x * 1000"

text \<open>\<open>%lu.%03lu\<close> of thousandths.\<close>

definition fixed3 :: "u32 \<Rightarrow> u8 list" where
  "fixed3 x = (let d = dec_digits (unat (x mod 1000))
     in dec_digits (unat (x div 1000)) @ [0x2E] @ replicate (3 - length d) 0x30 @ d)"

definition report_text :: "u32 \<Rightarrow> u32 \<Rightarrow> bench \<Rightarrow> u8 list" where
  "report_text fcpu elapsedUs b =
    (let lvl = (if measuringHigh b then ''HIGH'' else ''LOW '') in
     if capCount b < 100 \<or> elapsedUs < 1000 then
       map of_char (''[RLE-TICK] '' @ lvl @ '' warming up: caps='') @ dec_digits (unat (capCount b))
       @ map of_char '' (check the PA7->PC19 jumper)'' @ [0x0D, 0x0A]
     else
       let c = tick_x1000 fcpu elapsedUs (capCount b) in
       map of_char (''[RLE-TICK] '' @ lvl @ '' c='') @ fixed3 c @ map of_char '' cyc/tick  => ''
       @ dec_digits (unat (tick_int c)) @ map of_char ''  (caps='' @ dec_digits (unat (capCount b))
       @ map of_char '', '' @ dec_digits (unat (elapsedUs div 1000)) @ map of_char '' ms, residual=''
       @ fixed3 (tick_resid c) @ map of_char '', partial='' @ dec_digits (unat (partial_runs b))
       @ map of_char '')'' @ [0x0D, 0x0A])"

definition report ::
  "board \<Rightarrow> (u8 list \<Rightarrow> u8 list list) \<Rightarrow> bench \<Rightarrow> nat \<times> usb \<Rightarrow> (bench \<times> nat \<times> usb) option" where
  "report B pieces b w =
    (let (t, b) = bench_micros B b in
     do {
       w \<leftarrow> print_line B pieces (report_text (b_fcpu B) (t - windowStartUs b) b) w;
       Some (b, w) })"

definition count_byte :: "u8 \<Rightarrow> bench \<Rightarrow> bench" where
  "count_byte x b =
    (if x \<ge> 128 then b\<lparr>capCount := capCount b + 1\<rparr> else b\<lparr>partial_runs := partial_runs b + 1\<rparr>)"

lemma count_bytes:
  "tb_rle (fold count_byte xs b) = tb_rle b"
  "capCount (fold count_byte xs b) = capCount b + of_nat (length (filter (\<lambda>x. x \<ge> 128) xs))"
  "partial_runs (fold count_byte xs b) = partial_runs b + of_nat (length (filter (\<lambda>x. \<not> x \<ge> 128) xs))"
  by (induction xs arbitrary: b) (simp_all add: count_byte_def)

text \<open>\<open>while ((n = rle_.testDrainRaw(buf, sizeof buf)) > 0)\<close>.\<close>

function bench_drain :: "bench \<Rightarrow> bench" where
  "bench_drain b =
    (case rle_ringPop 64 (tb_rle b) of
       (xs, r) \<Rightarrow>
         if xs = [] then b\<lparr>tb_rle := r\<rparr>
         else if length xs < 64 then fold count_byte xs (b\<lparr>tb_rle := r\<rparr>)
         else bench_drain (fold count_byte xs (b\<lparr>tb_rle := r\<rparr>)))"
  by pat_completeness auto

termination
proof (relation "measure (\<lambda>b. length (rle_list (tb_rle b)))")
  fix b :: bench and xs r
  assume p: "(xs, r) = rle_ringPop 64 (tb_rle b)" and ne: "xs \<noteq> []"
  have "xs = take 64 (rle_list (tb_rle b))" "rle_list r = drop 64 (rle_list (tb_rle b))"
    using rle_ringPop_list [of 64 "tb_rle b"] unfolding p [symmetric] by simp_all
  then show "(fold count_byte xs (b\<lparr>tb_rle := r\<rparr>), b) \<in> measure (\<lambda>b. length (rle_list (tb_rle b)))"
    using ne unfolding in_measure count_bytes by (cases "rle_list (tb_rle b)") simp_all
qed simp

declare bench_drain.simps [simp del]

definition bench_service ::
  "board \<Rightarrow> (u8 list \<Rightarrow> u8 list list) \<Rightarrow> u32 \<Rightarrow> bench \<Rightarrow> nat \<times> usb \<Rightarrow> (bench \<times> nat \<times> usb) option" where
  "bench_service B pieces nowMs b w =
    (let b = bench_drain b in
     if passed nowMs (phaseUntilMs b) then do {
       (b, w) \<leftarrow> report B pieces b w;
       Some ((enterPhase B (\<not> measuringHigh b) b)\<lparr>phaseUntilMs := nowMs + PHASE_MS\<rparr>, w) }
     else Some (b, w))"

subsection \<open>The main program\<close>

record bench_main =
  bm_bench :: bench
  bm_usb :: usb
  bm_led :: led
  bm_nextLed :: u32
  bm_ticks :: nat

definition bench_start :: "board \<Rightarrow> (u8 list \<Rightarrow> u8 list list) \<Rightarrow> bench_main \<Rightarrow> bench_main option" where
  "bench_start B pieces s = do {
     (now, w) \<leftarrow> millis B (bm_ticks s, bm_usb s);
     (b, w) \<leftarrow> bench_begin B pieces now (bm_bench s) w;
     (t, w) \<leftarrow> millis B w;
     Some (s\<lparr>bm_bench := b, bm_usb := snd w, bm_ticks := fst w, bm_nextLed := t\<rparr>) }"

definition bench_round :: "board \<Rightarrow> (u8 list \<Rightarrow> u8 list list) \<Rightarrow> bench_main \<Rightarrow> bench_main option" where
  "bench_round B pieces s = do {
     (now, k, u) \<leftarrow> millis B (bm_ticks s, bm_usb s);
     u \<leftarrow> usb_tick (b_K B) now u;
     (b, w) \<leftarrow> bench_service B pieces now (bm_bench s) (k, u);
     let led = bm_led s;
     let (led, nextLed) =
       (if passed now (bm_nextLed s) then (snd (led_blink LED_FLASH_MS led), now + LED_PERIOD_MS)
        else (led, bm_nextLed s));
     (led, k, u) \<leftarrow> (if initialized led then do { (t, w) \<leftarrow> millis B w; Some (led_tick t led, w) } else Some (led, w));
     Some (s\<lparr>bm_bench := b, bm_usb := u, bm_led := led, bm_nextLed := nextLed, bm_ticks := k\<rparr>) }"

subsection \<open>Lemmas\<close>

text \<open>One drain empties the RAM ring and counts every byte of it.\<close>

lemma bench_drain_spec:
  "rle_list (tb_rle (bench_drain b)) = []
   \<and> capCount (bench_drain b) = capCount b + of_nat (length (filter (\<lambda>x. x \<ge> 128) (rle_list (tb_rle b))))
   \<and> partial_runs (bench_drain b) = partial_runs b + of_nat (length (filter (\<lambda>x. \<not> x \<ge> 128) (rle_list (tb_rle b))))"
proof (induction b rule: bench_drain.induct)
  case (1 b)
  obtain xs r where p: "rle_ringPop 64 (tb_rle b) = (xs, r)" by fastforce
  have xs: "xs = take 64 (rle_list (tb_rle b))" "rle_list r = drop 64 (rle_list (tb_rle b))"
    using rle_ringPop_list [of 64 "tb_rle b"] p by simp_all
  let ?b = "fold count_byte xs (b\<lparr>tb_rle := r\<rparr>)"
  show ?case
  proof (cases "length xs < 64")
    case True
    then have "xs = rle_list (tb_rle b)" "rle_list r = []" using xs by simp_all
    then show ?thesis using True by (subst (1 2 3) bench_drain.simps) (simp add: p count_bytes)
  next
    case False
    then have ne: "xs \<noteq> []" by auto
    have b: "bench_drain b = bench_drain ?b" using False ne by (subst bench_drain.simps) (simp add: p)
    have split: "filter P (rle_list (tb_rle b)) = filter P xs @ filter P (rle_list r)" for P
      using xs by (metis append_take_drop_id filter_append)
    show ?thesis
      using "1.IH" [OF p [symmetric] ne False] unfolding b split by (simp add: count_bytes)
  qed
qed

lemma print_line_spec:
  assumes "board_ok B" "usb_inv B (snd w)" "list_all (\<lambda>p. length p < 2 ^ 32) (pieces l)"
  shows "\<exists>w'. print_line B pieces l w = Some w' \<and> usb_inv B (snd w')"
  using print_pieces_spec [OF assms(1,3,2)] unfolding print_line_def by blast

text \<open>The arithmetic of the report never overflows its 64 bits.\<close>

lemma tick_x1000_unat:
  assumes "0 < caps" "1000 * (unat elapsed * (unat fcpu div 1000000)) div (128 * unat caps) < 2 ^ 32"
  shows "unat (tick_x1000 fcpu elapsed caps) = 1000 * (unat elapsed * (unat fcpu div 1000000)) div (128 * unat caps)"
proof -
  have e: "unat elapsed < 2 ^ 32" "unat caps < 2 ^ 32" "unat fcpu < 2 ^ 32"
    using unat_lt [of elapsed] unat_lt [of caps] unat_lt [of fcpu] by simp_all
  have f: "unat fcpu div 1000000 < 4295" using e(3) by (simp add: div_less_iff_less_mult)
  have up: "unat (ucast x :: 64 word) = unat x" if "unat x < 2 ^ 32" for x :: u32
    using that by (simp add: unsigned_ucast_eq take_bit_nat_eq_self)
  let ?cy = "unat elapsed * (unat fcpu div 1000000)"
  have small: "?cy \<le> 2 ^ 32 * 4295" using e(1) f by (intro mult_le_mono) simp_all
  have d: "unat (fcpu div 1000000) = unat fcpu div 1000000" by (simp add: unat_div)
  then have "unat (ucast elapsed * ucast (fcpu div 1000000) :: 64 word) = ?cy"
    using up [OF e(1)] up [of "fcpu div 1000000"] f small by (simp add: unat_word_ariths)
  then have cy: "unat ((ucast elapsed * ucast (fcpu div 1000000)) * 1000 :: 64 word) = 1000 * ?cy"
    using small by (simp add: unat_word_ariths)
  have caps: "unat (ucast CAP_TICKS * ucast caps :: 64 word) = 128 * unat caps"
    using up [OF e(2)] e(2) by (simp add: unat_word_ariths CAP_TICKS_def)
  have "unat ((ucast elapsed * ucast (fcpu div 1000000)) * 1000 div (ucast CAP_TICKS * ucast caps) :: 64 word)
      = 1000 * ?cy div (128 * unat caps)"
    unfolding unat_div cy caps ..
  then show ?thesis using assms(2)
    by (simp add: tick_x1000_def Let_def unsigned_ucast_eq take_bit_nat_eq_self)
qed

subsection \<open>Properties\<close>

text \<open>
  C34. The bench reports the integer period. If the window took within half a tick of \<open>c\<close> cycles per tick,
  whatever the clock, the length of the window and the number of caps, the reported integer is \<open>c\<close>: no
  step of the 32-bit and 64-bit arithmetic overflows. The residual is the exact rest when the window took
  at least \<open>c\<close> cycles per tick; below that the unsigned difference wraps and the report shows a number of
  more than four million cycles.
\<close>

theorem tick_estimate:
  assumes "0 < caps" and "0 < c" and "c < 4000000" and "cycles = unat elapsed * (unat fcpu div 1000000)"
    and "(2 * c - 1) * (64 * unat caps) \<le> cycles" and "cycles < (2 * c + 1) * (64 * unat caps)"
  shows "let x = tick_x1000 fcpu elapsed caps in
    unat x = 1000 * cycles div (128 * unat caps) \<and> tick_int x = of_nat c
    \<and> (c * (128 * unat caps) \<le> cycles \<longrightarrow> unat (tick_resid x) = unat x - 1000 * c)
    \<and> (cycles < c * (128 * unat caps) \<longrightarrow> 4294966 \<le> unat (tick_resid x) div 1000)"
proof -
  let ?n = "unat caps" and ?q = "1000 * cycles div (128 * unat caps)"
  have n: "0 < ?n" using assms(1) by (simp add: word_less_nat_alt)
  have "(2 * c - 1) * 500 * (128 * ?n) \<le> 1000 * cycles"
    using mult_le_mono2 [OF assms(5), of 1000] by (simp add: algebra_simps)
  then have lo: "(2 * c - 1) * 500 \<le> ?q" using n by (simp add: less_eq_div_iff_mult_less_eq)
  have "1000 * cycles < (2 * c + 1) * 500 * (128 * ?n)"
    using assms(6) by (simp add: algebra_simps)
  then have hi: "?q < (2 * c + 1) * 500" using n by (simp only: div_less_iff_less_mult [OF mult_pos_pos] zero_less_numeral)
  have "?q < 2 ^ 32" using hi assms(3) by simp
  then have x: "unat (tick_x1000 fcpu elapsed caps) = ?q"
    using tick_x1000_unat [OF assms(1)] assms(4) by simp
  have round: "(?q + 500) div 1000 = c" using lo hi assms(2) by simp
  have "unat (tick_x1000 fcpu elapsed caps + 500) = ?q + 500"
    using x hi assms(3) by (simp add: unat_word_ariths)
  then have int: "unat (tick_int (tick_x1000 fcpu elapsed caps)) = c"
    using round by (simp add: tick_int_def unat_div)
  then have i: "tick_int (tick_x1000 fcpu elapsed caps) = of_nat c" by (metis of_nat_unat_ucast ucast_id)
  have m: "unat (tick_int (tick_x1000 fcpu elapsed caps) * 1000) = 1000 * c"
    using int assms(3) by (simp add: unat_word_ariths)
  have up: "unat (tick_resid (tick_x1000 fcpu elapsed caps)) = ?q - 1000 * c" if "c * (128 * ?n) \<le> cycles"
  proof -
    have "1000 * c * (128 * ?n) \<le> 1000 * cycles" using that by simp
    then have "1000 * c \<le> ?q" using n by (simp add: less_eq_div_iff_mult_less_eq)
    then show ?thesis using m x by (simp add: tick_resid_def unat_sub word_le_nat_alt)
  qed
  have down: "4294966 \<le> unat (tick_resid (tick_x1000 fcpu elapsed caps)) div 1000" if "cycles < c * (128 * ?n)"
  proof -
    have "1000 * cycles < 1000 * c * (128 * ?n)" using that by simp
    then have lt: "?q < 1000 * c" using n by (simp add: div_less_iff_less_mult)
    have "1000 * c < 2 ^ 32" using assms(3) by simp
    then have "unat (tick_x1000 fcpu elapsed caps - tick_int (tick_x1000 fcpu elapsed caps) * 1000) = 2 ^ 32 + ?q - 1000 * c"
      using m x lt by (simp add: unat_sub_if')
    then show ?thesis using lo assms(2) lt by (simp add: tick_resid_def)
  qed
  show ?thesis unfolding Let_def using x i up down by simp
qed

text \<open>Two held levels of 9.06 and 8.99 cycles per tick at 48 MHz.\<close>

theorem tick_estimate_witness:
  "tick_int (tick_x1000 48000000 24160 1000) = 9 \<and> unat (tick_resid (tick_x1000 48000000 24160 1000)) = 60
   \<and> tick_int (tick_x1000 48000000 23974 1000) = 9
   \<and> 4294966 \<le> unat (tick_resid (tick_x1000 48000000 23974 1000)) div 1000"
  using tick_estimate [of 1000 9 "24160 * 48" 24160 48000000] tick_estimate [of 1000 9 "23974 * 48" 23974 48000000]
  by (simp add: Let_def)

end
