(* ===== verification/LedTime.thy ===== *)
theory LedTime
  imports LedBlinker
begin

text \<open>
  What the queued commands of the LED do over time, at the ticks of the main loop.
\<close>

lemma ring_pop1_list:
  assumes "ring_list r = x # xs"
  shows "\<exists>r'. ring_pop1 r = (Some x, r') \<and> ring_list r' = xs"
  using ring_pop_list(1,2) [of 1 r] assms by (cases "ring_pop 1 r") (simp add: ring_pop1_def)

lemma setLed_simps [simp]:
  "current (setLed on l) = current l" "minTimeOff (setLed on l) = minTimeOff l"
  "initialized (setLed on l) = initialized l" "led_queue (setLed on l) = led_queue l"
  by (simp_all add: setLed_def)

definition led_ticks :: "nat list \<Rightarrow> led \<Rightarrow> led" where
  "led_ticks ts l = fold (\<lambda>t. led_tick (of_nat t)) ts l"

lemma led_ticks_simps [simp]:
  "led_ticks [] l = l" "led_ticks (t # ts) l = led_ticks ts (led_tick (of_nat t) l)"
  "led_ticks (ts @ us) l = led_ticks us (led_ticks ts l)"
  by (simp_all add: led_ticks_def)

text \<open>While the deadline is ahead nothing changes.\<close>

lemma led_waits:
  assumes "initialized l" "phase l \<noteq> Idle" "deadline l = of_nat d"
  shows "\<forall>t \<in> set ts. t < d \<and> d \<le> t + 2 ^ 31 - 1 \<Longrightarrow> led_ticks ts l = l"
proof (induction ts)
  case (Cons t ts)
  then have "\<not> passed (of_nat t) (of_nat d)" using passed_iff [of d t] by auto
  then have "led_tick (of_nat t) l = l" using assms by (simp add: led_tick_def)
  then show ?case using Cons by simp
qed simp

lemma led_starts:
  assumes "initialized l" "phase l = Idle" "ring_list (led_queue l) = c # cs" "timeOn c \<noteq> 0" "timeOn c \<noteq> 0xFFFFFFFF"
  shows "\<exists>q. ring_list q = cs \<and> led_tick now l =
    (setLed True (l\<lparr>led_queue := q, current := c\<rparr>))\<lparr>deadline := now + timeOn c, phase := On\<rparr>"
proof -
  obtain q where "ring_pop1 (led_queue l) = (Some c, q)" "ring_list q = cs" using ring_pop1_list [OF assms(3)] by blast
  then show ?thesis using assms by (intro exI [of _ q]) (simp add: led_tick_def led_start_def Let_def)
qed

text \<open>
  C30. The LED keeps its times. From idle, a queued blink of \<open>a\<close> ms is lit from the tick that takes it up
  through every tick in the next \<open>a\<close> ms; the first tick after that turns it off; it stays off through
  every tick of the off time, the minimal one if the command gives none; the first tick after that
  leaves the LED idle with the next command at the head of the queue. The clock may wrap at any point,
  and the LED may be wired either way.
\<close>

theorem led_keeps_times:
  assumes "initialized l" and "phase l = Idle" and "ring_list (led_queue l) = \<lparr>timeOn = of_nat a, timeOff = b\<rparr> # cs"
    and "0 < a" and "a < 2 ^ 31" and "off = unat (if b \<noteq> 0 then b else minTimeOff l)" and "off < 2 ^ 31" and "0 < off"
    and "\<forall>t \<in> set ts. t0 \<le> t \<and> t < t0 + a" and "t0 + a \<le> t1" and "t1 < t0 + a + 2 ^ 31"
    and "\<forall>t \<in> set us. t1 \<le> t \<and> t < t1 + off" and "t1 + off \<le> t2" and "t2 < t1 + off + 2 ^ 31"
  shows "lit (led_ticks (t0 # ts) l) \<and> \<not> lit (led_ticks (t0 # ts @ t1 # us) l)
    \<and> (let l' = led_ticks (t0 # ts @ t1 # us @ [t2]) l in
         phase l' = Idle \<and> \<not> lit l' \<and> ring_list (led_queue l') = cs)"
proof -
  let ?c = "\<lparr>timeOn = of_nat a, timeOff = b\<rparr>"
  have "unat (of_nat a :: u32) = a" using assms(5) by (simp add: unat_of_nat)
  then have a: "timeOn ?c \<noteq> 0" "timeOn ?c \<noteq> 0xFFFFFFFF" using assms(4,5) by (auto dest!: arg_cong [of _ _ unat])
  obtain q where q: "ring_list q = cs" "led_tick (of_nat t0) l =
      (setLed True (l\<lparr>led_queue := q, current := ?c\<rparr>))\<lparr>deadline := of_nat t0 + timeOn ?c, phase := On\<rparr>"
    using led_starts [OF assms(1-3) a] by blast
  define l1 where "l1 = led_tick (of_nat t0) l"
  have l1: "initialized l1" "phase l1 = On" "deadline l1 = of_nat (t0 + a)" "lit l1" "ring_list (led_queue l1) = cs"
    "current l1 = ?c" "minTimeOff l1 = minTimeOff l"
    using assms(1) q by (simp_all add: l1_def lit_def setLed_def)
  have on: "led_ticks ts l1 = l1" using led_waits [OF l1(1) _ l1(3), of ts] assms(5,9) l1(2) by fastforce
  have "passed (of_nat t1) (of_nat (t0 + a))" using passed_iff [of "t0 + a" t1] assms(10,11) by simp
  then have t1: "led_tick (of_nat t1) l1 = (setLed False l1)\<lparr>deadline := of_nat t1 + of_nat off, phase := Off\<rparr>"
    using l1 assms(6) by (simp add: led_tick_def Let_def)
  define l2 where "l2 = led_tick (of_nat t1) l1"
  have l2: "initialized l2" "phase l2 = Off" "deadline l2 = of_nat (t1 + off)" "\<not> lit l2" "ring_list (led_queue l2) = cs"
    using l1(1,5) unfolding l2_def t1 by (simp_all add: lit_def setLed_def)
  have held: "led_ticks us l2 = l2" using led_waits [OF l2(1) _ l2(3), of us] assms(7,12) l2(2) by fastforce
  have "passed (of_nat t2) (of_nat (t1 + off))" using passed_iff [of "t1 + off" t2] assms(13,14) by simp
  then have t2: "led_tick (of_nat t2) l2 = l2\<lparr>phase := Idle\<rparr>" using l2 by (simp add: led_tick_def)
  have "led_ticks (t0 # ts) l = l1" "led_ticks (t0 # ts @ t1 # us) l = l2"
    "led_ticks (t0 # ts @ t1 # us @ [t2]) l = l2\<lparr>phase := Idle\<rparr>"
    by (simp_all add: l1_def [symmetric] on l2_def [symmetric] held t2)
  then show ?thesis using l1(4) l2(4,5) by (simp add: lit_def)
qed

theorem led_keeps_times_witness:
  "let l = snd (led_blink 50 (led_init (led_make False 20))) in
   lit (led_ticks [0xFFFFFFF0, 0xFFFFFFFF, 0x100000010] l)
   \<and> \<not> lit (led_ticks [0xFFFFFFF0, 0xFFFFFFFF, 0x100000010, 0x100000030, 0x100000040] l)
   \<and> phase (led_ticks [0xFFFFFFF0, 0xFFFFFFFF, 0x100000010, 0x100000030, 0x100000040, 0x100000050] l) = Idle"
proof -
  let ?q = "led_queue (led_init (led_make False 20))" and ?l = "snd (led_blink 50 (led_init (led_make False 20)))"
  have q: "ring_lin ?q" "ring_len ?q = 10" "ring_list ?q = []"
    using led_queue_static [of False 20] by (simp_all add: led_init_def)
  have room: "unat (fst (ring_push [\<lparr>timeOn = 50, timeOff = 0\<rparr>] ?q)) = 1"
    using ring_push_list(5) [of ?q "[\<lparr>timeOn = 50, timeOff = 0\<rparr>]"] q by simp
  have list: "ring_list (led_queue ?l) = [\<lparr>timeOn = of_nat 50, timeOff = 0\<rparr>]"
    using ring_push_list(1) [of ?q "[\<lparr>timeOn = 50, timeOff = 0\<rparr>]"] q(1,3) room
    by (simp add: led_blink_def led_blink2_def ring_push1_def case_prod_beta)
  have l: "initialized ?l" "phase ?l = Idle" "minTimeOff ?l = 20"
    by (simp_all add: led_blink_def led_blink2_def case_prod_beta) (simp_all add: led_init_def led_make_def setLed_def)
  show ?thesis
    unfolding Let_def
    using led_keeps_times [OF l(1,2) list, of 20 "[0xFFFFFFFF, 0x100000010]" "0xFFFFFFF0" "0x100000030" "[0x100000040]" "0x100000050"]
      l(3) by (simp add: Let_def)
qed

end
