(* ===== verification/TimeBase.thy ===== *)
theory TimeBase
  imports Prelude
begin

text \<open>
  The time base of \<^verbatim>\<open>src/hal/time.cpp\<close>: a millisecond counter advanced by the TIM2 update interrupt, and
  the microsecond clock that joins it with the TIM2 counter. The timer and interrupt-controller set-up of
  \<open>init\<close> is outside the model.
\<close>

record timebase =
  g_millis :: u32
  tim2_flag :: bool
  g_timeInitialized :: bool

definition TIM2_UP_IRQHandler :: "timebase \<Rightarrow> timebase" where
  "TIM2_UP_IRQHandler t =
    (if tim2_flag t then t\<lparr>g_millis := g_millis t + 1, tim2_flag := False\<rparr> else t)"

definition time_init :: "timebase \<Rightarrow> timebase" where
  "time_init t = (if g_timeInitialized t then t else t\<lparr>tim2_flag := False, g_timeInitialized := True\<rparr>)"

definition time_millis :: "timebase \<Rightarrow> u32" where
  "time_millis t = g_millis t"

text \<open>
  \<open>micros()\<close> reads volatile locations that move on by themselves: \<open>ms k\<close> and \<open>cnt k\<close> are the values of
  \<open>g_millis\<close> and of the counter at instant \<open>k\<close>, and the four reads happen at \<open>t1\<close> to \<open>t4\<close>.
\<close>

definition time_micros :: "('t \<Rightarrow> u32) \<Rightarrow> ('t \<Rightarrow> u16) \<Rightarrow> 't \<Rightarrow> 't \<Rightarrow> 't \<Rightarrow> 't \<Rightarrow> u32" where
  "time_micros ms cnt t1 t2 t3 t4 =
    (let m1 = ms t1; c = cnt t2; m2 = ms t3
     in if m1 \<noteq> m2 then m2 * 1000 + ucast (cnt t4) else m1 * 1000 + ucast c)"

text \<open>The hardware: one count per microsecond, rolling over at 1000, the interrupt taken at once.\<close>

definition hw_ms :: "nat \<Rightarrow> u32" where "hw_ms t = of_nat (t div 1000)"
definition hw_cnt :: "nat \<Rightarrow> u16" where "hw_cnt t = of_nat (t mod 1000)"

lemma hw_join: "hw_ms t * 1000 + ucast (hw_cnt t) = of_nat t"
proof -
  have small: "t mod 1000 < 1000" by simp
  have "(ucast (hw_cnt t) :: u32) = of_nat (t mod 1000)"
  proof -
    have "unat (hw_cnt t) = t mod 1000" using small by (simp add: hw_cnt_def unat_of_nat)
    then have "unat (ucast (hw_cnt t) :: u32) = t mod 1000"
      using small by (simp add: unsigned_ucast_eq take_bit_nat_eq_self)
    then show ?thesis by (simp add: word_unat_eq_iff unat_of_nat)
  qed
  then have "hw_ms t * 1000 + ucast (hw_cnt t) = of_nat (t div 1000 * 1000 + t mod 1000)"
    unfolding of_nat_add of_nat_mult by (simp add: hw_ms_def)
  also have "t div 1000 * 1000 + t mod 1000 = t" by (rule div_mult_mod_eq)
  finally show ?thesis .
qed

subsection \<open>Properties\<close>

text \<open>
  C35. \<open>micros()\<close> is exact. When its four reads take less than a millisecond, interrupts included, the
  value is the true time of one of them modulo \<open>2 ^ 32\<close>, whether or not the millisecond rolled over in
  between, and across the wrap of the millisecond counter.
\<close>

theorem micros_exact:
  assumes "t1 \<le> t2" and "t2 \<le> t3" and "t3 \<le> t4" and "t4 < t1 + 1000"
  shows "time_micros hw_ms hw_cnt t1 t2 t3 t4 \<in> {of_nat t2, of_nat t4}"
proof (cases "t1 div 1000 = t3 div 1000")
  case True
  then have "t2 div 1000 = t1 div 1000" using assms(1,2) by (metis div_le_mono le_antisym)
  then have "hw_ms t1 = hw_ms t2" "hw_ms t1 = hw_ms t3" using True by (simp_all add: hw_ms_def)
  then show ?thesis using hw_join [of t2] by (simp add: time_micros_def)
next
  case False
  let ?a = "t1 div 1000"
  have "t4 div 1000 \<le> (t1 + 1000) div 1000" using assms(4) by (intro div_le_mono) simp
  then have le: "t1 div 1000 \<le> t3 div 1000" "t3 div 1000 \<le> t4 div 1000" "t4 div 1000 \<le> ?a + 1"
    using assms div_le_mono [of t1 t3 1000] div_le_mono [of t3 t4 1000] by simp_all
  have t3: "t3 div 1000 = ?a + 1" "t4 div 1000 = ?a + 1"
    using False le by simp_all
  then have "hw_ms t3 = hw_ms t1 + 1" "hw_ms t4 = hw_ms t3" by (simp_all add: hw_ms_def)
  then show ?thesis using hw_join [of t4] by (simp add: time_micros_def)
qed

theorem micros_exact_witness:
  "time_micros hw_ms hw_cnt 1998 1999 2001 2002 \<in> {1999, 2002}"
  using micros_exact [of 1998 1999 2001 2002] by simp

end
